(* ===== verification/Evenk_Prelude.thy ===== *)
theory Evenk_Prelude
  imports Main "HOL-Library.Word"
begin

text \<open>
  Shared vocabulary of the development.

  Concurrent components are modelled as deterministic step functions
  \<open>step :: 'e \<Rightarrow> 's \<Rightarrow> 's option\<close>: an event names the thread that moves (and the
  choice of the environment, when there is one), and \<open>None\<close> means that the event is not
  enabled.  An execution is a list of events, run by \<open>run\<close>; every interleaving of the
  threads is some list of events.  Each atomic access of the C++ source is one step, so the
  semantics is the sequentially consistent interleaving of the atomic operations.

  The locale \<open>invariant_system\<close> proves once that an invariant kept by the steps is kept by
  runs; \<open>mutex_system\<close> adds the notion of a holder and gives mutual exclusion;
  \<open>refined_system\<close> lifts a one-step refinement to runs.
\<close>

unbundle bit_operations_syntax

type_synonym tid = nat

named_theorems step_simps "equations that unfold one step of a component"
named_theorems inv_defs "the definitions of the invariants"

subsection \<open>Runs of a step function\<close>

fun run :: "('e \<Rightarrow> 's \<Rightarrow> 's option) \<Rightarrow> 'e list \<Rightarrow> 's \<Rightarrow> 's option" where
  "run step [] s = Some s"
| "run step (e # es) s = (case step e s of None \<Rightarrow> None | Some s' \<Rightarrow> run step es s')"

text \<open>A run all of whose states, the first and the last included, satisfy a predicate.\<close>

fun run_through :: "('s \<Rightarrow> bool) \<Rightarrow> ('e \<Rightarrow> 's \<Rightarrow> 's option) \<Rightarrow> 'e list \<Rightarrow> 's \<Rightarrow> 's option" where
  "run_through P step [] s = (if P s then Some s else None)"
| "run_through P step (e # es) s =
     (if P s then (case step e s of None \<Rightarrow> None | Some s' \<Rightarrow> run_through P step es s') else None)"

lemma run_append:
  "run step (xs @ ys) s = Option.bind (run step xs s) (run step ys)"
  by (induction xs arbitrary: s) (auto split: option.splits)

lemma run_append_Some:
  "run step xs s = Some t \<Longrightarrow> run step (xs @ ys) s = run step ys t"
  by (simp add: run_append)

lemma run_through_run: "run_through P step es s = Some s' \<Longrightarrow> run step es s = Some s'"
  by (induction es arbitrary: s) (auto split: option.splits if_splits)

lemma run_through_first: "run_through P step es s = Some s' \<Longrightarrow> P s"
  by (cases es) (auto split: if_splits)

lemma run_through_last: "run_through P step es s = Some s' \<Longrightarrow> P s'"
  by (induction es arbitrary: s) (auto split: option.splits if_splits)

text \<open>Blocks of events that move a state of a family to the next one.\<close>

lemma run_blocks:
  assumes "\<And>k. k < n \<Longrightarrow> run step (es k) (f k) = Some (f (Suc k))"
  shows "run step (concat (map es [0..<n])) (f 0) = Some (f n)"
  using assms by (induction n) (simp_all add: run_append)

lemma run_replicate:
  assumes "\<And>k. k < n \<Longrightarrow> run step es (f k) = Some (f (Suc k))"
  shows "run step (concat (replicate n es)) (f 0) = Some (f n)"
  using run_blocks[of n step "\<lambda>_. es" f] assms by (simp add: map_replicate_trivial)

lemma word_of_unat: "of_nat (unat w) = (w :: 'a::len word)"
  by simp

text \<open>Counters that are less than a full turn apart are equal exactly when their words are.\<close>

lemma of_nat_eq_window:
  assumes "a \<le> b" and "b < a + 2 ^ LENGTH('a)"
  shows "(of_nat a :: 'a::len word) = of_nat b \<longleftrightarrow> a = b"
proof
  assume "(of_nat a :: 'a word) = of_nat b"
  then have "(of_nat (b - a) :: 'a word) = 0"
    using assms(1) by (simp add: of_nat_diff)
  then have "2 ^ LENGTH('a) dvd b - a"
    by (simp add: word_of_nat_eq_0_iff)
  then have "b - a = 0"
    using assms nat_dvd_not_less[of "b - a" "2 ^ LENGTH('a)"] by linarith
  then show "a = b"
    using assms(1) by simp
qed simp

subsection \<open>Invariants, mutual exclusion and refinement, once for every component\<close>

locale invariant_system =
  fixes step :: "'e \<Rightarrow> 's \<Rightarrow> 's option"
    and ok :: "'e \<Rightarrow> bool"
    and inv :: "'s \<Rightarrow> bool"
  assumes step_inv: "ok e \<Longrightarrow> inv s \<Longrightarrow> step e s = Some s' \<Longrightarrow> inv s'"
begin

lemma run_inv: "list_all ok es \<Longrightarrow> inv s \<Longrightarrow> run step es s = Some s' \<Longrightarrow> inv s'"
proof (induction es arbitrary: s)
  case Nil
  then show ?case by simp
next
  case (Cons e es)
  from Cons.prems(3) obtain t where t: "step e s = Some t" and "run step es t = Some s'"
    by (auto split: option.splits)
  moreover have "inv t"
    using Cons.prems(1,2) t by (auto intro: step_inv)
  ultimately show ?case
    using Cons.IH Cons.prems(1) by simp
qed

end

locale mutex_system = invariant_system +
  fixes init :: 's
    and holds :: "'s \<Rightarrow> tid \<Rightarrow> bool"
  assumes init_inv: "inv init"
    and inv_exclusive: "inv s \<Longrightarrow> holds s i \<Longrightarrow> holds s j \<Longrightarrow> i = j"
begin

lemma mutual_exclusion:
  assumes "list_all ok es" and "run step es init = Some s" and "holds s i" and "holds s j"
  shows "i = j"
  using run_inv[OF assms(1) init_inv assms(2)] assms(3,4) by (rule inv_exclusive)

end

text \<open>
  A concrete step function refines an abstract one along \<open>abs\<close> where the abstract states
  satisfy \<open>good\<close>; the abstract invariant may be used.
\<close>

locale refined_system = invariant_system astep ok inv
  for astep :: "'e \<Rightarrow> 'a \<Rightarrow> 'a option" and ok :: "'e \<Rightarrow> bool" and inv :: "'a \<Rightarrow> bool" +
  fixes cstep :: "'e \<Rightarrow> 'c \<Rightarrow> 'c option"
    and conc :: "'a \<Rightarrow> 'c"
    and good :: "'a \<Rightarrow> bool"
  assumes step_conc:
    "ok e \<Longrightarrow> inv a \<Longrightarrow> good a \<Longrightarrow> cstep e (conc a) = map_option conc (astep e a)"
begin

lemma run_conc:
  assumes "list_all ok es" and "inv a" and "run_through good astep es a = Some a'"
  shows "run cstep es (conc a) = Some (conc a')"
  using assms
proof (induction es arbitrary: a)
  case Nil
  then show ?case by (simp split: if_splits)
next
  case (Cons e es)
  from Cons.prems(3) obtain b
    where b: "astep e a = Some b" and rest: "run_through good astep es b = Some a'" and "good a"
    by (auto split: option.splits if_splits)
  then have "cstep e (conc a) = Some (conc b)"
    using Cons.prems(1,2) step_conc by simp
  moreover have "run cstep es (conc b) = Some (conc a')"
    using Cons.prems(1,2) b rest step_inv by (intro Cons.IH) auto
  ultimately show ?case by simp
qed

lemma run_conc_eq:
  assumes "\<And>a. inv a \<Longrightarrow> good a" and "list_all ok es" and "inv a"
  shows "run cstep es (conc a) = map_option conc (run astep es a)"
  using assms(2,3)
proof (induction es arbitrary: a)
  case Nil
  then show ?case by simp
next
  case (Cons e es)
  then show ?case
    using step_conc[of e a] step_inv[of e a] assms(1)[of a]
    by (cases "astep e a") simp_all
qed

end

end
