(* ===== verification/Evenk_Backoff.thy ===== *)
theory Evenk_Backoff
  imports Evenk_Prelude
begin

text \<open>
  \<^verbatim>\<open>evenk/backoff.h\<close>: the pause routines and the back-off policies for busy waiting.

  A call of a policy returns what it executes while waiting, the result of
  \<open>operator()\<close> and the new state of the policy object.  Counters are 32-bit words, so the
  wrap-around of \<open>count_ += step\<close> is part of the model.  The template arguments
  \<open>ceiling\<close>, \<open>step\<close> and \<open>count\<close> and the base class \<open>Pause\<close> are arguments.
\<close>

subsection \<open>Pause routines\<close>

record timespec =
  tv_sec :: int
  tv_nsec :: int

text \<open>What a thread executes while it waits.\<close>

datatype pause_effect = Signal_fence | Mm_pause | Sleep timespec | Yield

type_synonym pause = "32 word \<Rightarrow> pause_effect list"

function cpu_cycle :: pause where
  "cpu_cycle n = (if n = 0 then [] else Signal_fence # cpu_cycle (n - 1))"
  by pat_completeness auto
termination
  by (relation "measure unat") (auto simp: measure_unat)

function cpu_relax :: pause where
  "cpu_relax n = (if n = 0 then [] else Mm_pause # cpu_relax (n - 1))"
  by pat_completeness auto
termination
  by (relation "measure unat") (auto simp: measure_unat)


declare cpu_cycle.simps [simp del] cpu_relax.simps [simp del]

subsection \<open>Back-off policies\<close>

type_synonym 'b backoff = "'b \<Rightarrow> pause_effect list \<times> bool \<times> 'b"

definition no_backoff :: "unit backoff" where
  "no_backoff u = ([], True, u)"

definition yield_backoff :: "unit backoff" where
  "yield_backoff u = ([Yield], False, u)"

definition const_backoff :: "pause \<Rightarrow> 32 word \<Rightarrow> unit backoff" where
  "const_backoff pause count u = (pause count, False, u)"

definition linear_backoff :: "pause \<Rightarrow> 32 word \<Rightarrow> 32 word \<Rightarrow> 32 word backoff" where
  "linear_backoff pause ceiling step count =
     (let count' = count + step in
      if ceiling < count' then (pause count, True, ceiling) else (pause count, False, count'))"

definition exponential_backoff :: "pause \<Rightarrow> 32 word \<Rightarrow> 32 word backoff" where
  "exponential_backoff pause ceiling count =
     (let count' = count + (count + 1) in
      if ceiling < count' then (pause count, True, ceiling) else (pause count, False, count'))"

definition proportional_backoff :: "pause \<Rightarrow> 32 word \<Rightarrow> 32 word \<Rightarrow> unit backoff" where
  "proportional_backoff pause count factor u = (pause (count * factor), False, u)"

text \<open>
  The two overloads of \<open>proportional_adapter\<close>: a proportional policy gets the factor, any
  other one is called without it.  The policy object is what the overload resolution sees.
\<close>

datatype 'b policy = Plain "'b backoff" | Proportional pause "32 word"

fun proportional_adapter :: "'b policy \<Rightarrow> 32 word \<Rightarrow> 'b \<Rightarrow> pause_effect list \<times> bool \<times> 'b" where
  "proportional_adapter (Plain backoff) factor b = backoff b"
| "proportional_adapter (Proportional pause count) factor b =
     (let (eff, r, _) = proportional_backoff pause count factor () in (eff, r, b))"

record ('a, 'b) composite =
  first_policy :: 'a
  second_policy :: 'b
  use_second :: bool

definition composite_ctor :: "'a \<Rightarrow> 'b \<Rightarrow> ('a, 'b) composite" where
  "composite_ctor a b = \<lparr>first_policy = a, second_policy = b, use_second = False\<rparr>"

definition composite_backoff :: "'a backoff \<Rightarrow> 'b backoff \<Rightarrow> ('a, 'b) composite backoff" where
  "composite_backoff fst_op snd_op c =
     (if use_second c
      then (let (eff, r, b) = snd_op (second_policy c) in (eff, r, c\<lparr>second_policy := b\<rparr>))
      else (let (eff, r, a) = fst_op (first_policy c) in (eff, False, c\<lparr>first_policy := a, use_second := r\<rparr>)))"

subsection \<open>Sequences of calls\<close>

definition bk_result :: "pause_effect list \<times> bool \<times> 'b \<Rightarrow> bool" where
  "bk_result x = fst (snd x)"

definition bk_next :: "pause_effect list \<times> bool \<times> 'b \<Rightarrow> 'b" where
  "bk_next x = snd (snd x)"

text \<open>The state after \<open>n\<close> calls, and what the call number \<open>n\<close> (from 0) does.\<close>

definition after_calls :: "'b backoff \<Rightarrow> nat \<Rightarrow> 'b \<Rightarrow> 'b" where
  "after_calls op n b = ((\<lambda>x. bk_next (op x)) ^^ n) b"

definition nth_call :: "'b backoff \<Rightarrow> nat \<Rightarrow> 'b \<Rightarrow> pause_effect list \<times> bool \<times> 'b" where
  "nth_call op n b = op (after_calls op n b)"

text \<open>The states from which the counters cannot wrap around.\<close>

definition linear_valid :: "32 word \<Rightarrow> 32 word \<Rightarrow> 32 word \<Rightarrow> bool" where
  "linear_valid ceiling step count \<longleftrightarrow>
     0 < step \<and> unat ceiling + unat step < 2 ^ 32 \<and> count \<le> ceiling"

definition exponential_valid :: "32 word \<Rightarrow> 32 word \<Rightarrow> bool" where
  "exponential_valid ceiling count \<longleftrightarrow> unat ceiling < 2 ^ 31 \<and> count \<le> ceiling"

lemma after_calls_0 [simp]: "after_calls op 0 b = b"
  by (simp add: after_calls_def)

lemma after_calls_Suc: "after_calls op (Suc n) b = after_calls op n (bk_next (op b))"
  by (simp add: after_calls_def funpow_Suc_right del: funpow.simps)

lemma after_calls_step: "after_calls op (Suc n) b = bk_next (nth_call op n b)"
  by (simp add: after_calls_def nth_call_def)

lemma after_calls_add: "after_calls op (m + n) b = after_calls op n (after_calls op m b)"
  by (simp add: after_calls_def add.commute[of m] funpow_add)

lemma bk_sel [simp]: "bk_result (e, r, b) = r" "bk_next (e, r, b) = b"
  by (simp_all add: bk_result_def bk_next_def)

subsection \<open>Policies that reach their ceiling\<close>

text \<open>
  What a spinning client relies on: from a valid state, every call that does not report the
  ceiling brings the policy closer to it.
\<close>

locale bounded_backoff =
  fixes op :: "'b backoff"
    and valid :: "'b \<Rightarrow> bool"
    and rank :: "'b \<Rightarrow> nat"
  assumes valid_next: "valid b \<Longrightarrow> valid (bk_next (op b))"
    and rank_less: "valid b \<Longrightarrow> \<not> bk_result (op b) \<Longrightarrow> rank (bk_next (op b)) < rank b"
begin

lemma ceiling_reached: "valid b \<Longrightarrow> \<exists>n \<le> rank b. bk_result (nth_call op n b)"
proof (induction "rank b" arbitrary: b rule: less_induct)
  case less
  show ?case
  proof (cases "bk_result (op b)")
    case True
    then show ?thesis by (intro exI[of _ 0]) (simp add: nth_call_def)
  next
    case False
    let ?b = "bk_next (op b)"
    have lt: "rank ?b < rank b" using less.prems False by (rule rank_less)
    then obtain n where "n \<le> rank ?b" and "bk_result (nth_call op n ?b)"
      using less.hyps[OF lt] valid_next[OF less.prems] by blast
    then show ?thesis
      using lt by (intro exI[of _ "Suc n"]) (simp add: nth_call_def after_calls_Suc)
  qed
qed

end

lemma unat_add_small: "unat (a :: 32 word) + unat b < 2 ^ 32 \<Longrightarrow> unat (a + b) = unat a + unat b"
  by (simp add: unat_word_ariths)

lemma linear_step:
  assumes "linear_valid ceiling step count"
  shows "linear_backoff pause ceiling step count =
           (pause count, unat ceiling < unat count + unat step,
            if unat ceiling < unat count + unat step then ceiling else count + step)"
    and "unat (count + step) = unat count + unat step"
proof -
  have "unat count + unat step < 2 ^ 32"
    using assms by (simp add: linear_valid_def word_le_nat_alt)
  then show add: "unat (count + step) = unat count + unat step"
    by (rule unat_add_small)
  show "linear_backoff pause ceiling step count =
           (pause count, unat ceiling < unat count + unat step,
            if unat ceiling < unat count + unat step then ceiling else count + step)"
    by (simp add: linear_backoff_def Let_def word_less_nat_alt add)
qed

lemma linear_valid_next:
  "linear_valid ceiling step count \<Longrightarrow>
   linear_valid ceiling step (bk_next (linear_backoff pause ceiling step count))"
  using linear_step[of ceiling step count] by (auto simp: linear_valid_def word_le_nat_alt)

interpretation none: bounded_backoff no_backoff "\<lambda>_. True" "\<lambda>_. 0"
  by unfold_locales (simp_all add: no_backoff_def)

interpretation linear: bounded_backoff "linear_backoff pause ceiling step"
    "linear_valid ceiling step" "\<lambda>count. unat (ceiling - count)" for pause ceiling step
proof unfold_locales
  fix b
  assume v: "linear_valid ceiling step b"
  then show "linear_valid ceiling step (bk_next (linear_backoff pause ceiling step b))"
    by (rule linear_valid_next)
  assume "\<not> bk_result (linear_backoff pause ceiling step b)"
  then show "unat (ceiling - bk_next (linear_backoff pause ceiling step b)) < unat (ceiling - b)"
    using v linear_step[OF v]
    by (auto simp: linear_valid_def unat_sub word_le_nat_alt word_less_nat_alt)
qed

lemma exponential_step:
  assumes "exponential_valid ceiling count"
  shows "exponential_backoff pause ceiling count =
           (pause count, unat ceiling < 2 * unat count + 1,
            if unat ceiling < 2 * unat count + 1 then ceiling else count + (count + 1))"
    and "unat (count + (count + 1)) = 2 * unat count + 1"
proof -
  have c: "unat count < 2 ^ 31"
    using assms by (simp add: exponential_valid_def word_le_nat_alt)
  then have "unat (count + 1) = unat count + 1"
    by (subst unat_add_small) simp_all
  then show add: "unat (count + (count + 1)) = 2 * unat count + 1"
    using c by (subst unat_add_small) simp_all
  show "exponential_backoff pause ceiling count =
           (pause count, unat ceiling < 2 * unat count + 1,
            if unat ceiling < 2 * unat count + 1 then ceiling else count + (count + 1))"
    by (simp only: exponential_backoff_def Let_def word_less_nat_alt add) simp
qed

interpretation exponential: bounded_backoff "exponential_backoff pause ceiling"
    "exponential_valid ceiling" "\<lambda>count. unat (ceiling - count)" for pause ceiling
proof unfold_locales
  fix b
  assume v: "exponential_valid ceiling b"
  then show "exponential_valid ceiling (bk_next (exponential_backoff pause ceiling b))"
    using exponential_step[OF v] by (auto simp: exponential_valid_def word_le_nat_alt)
  assume "\<not> bk_result (exponential_backoff pause ceiling b)"
  then show "unat (ceiling - bk_next (exponential_backoff pause ceiling b)) < unat (ceiling - b)"
    using v exponential_step[OF v]
    by (simp add: exponential_valid_def unat_sub word_le_nat_alt word_less_nat_alt)
qed

subsection \<open>Schedules of the policies\<close>

lemma cpu_cycle_eq: "cpu_cycle n = replicate (unat n) Signal_fence"
proof (induction n rule: cpu_cycle.induct)
  case (1 n)
  then show ?case
    by (cases "n = 0")
      (simp_all add: cpu_cycle.simps[of n] cpu_cycle.simps[of 0] unat_minus_one unat_gt_0
        flip: replicate_Suc)
qed

lemma linear_after_calls:
  assumes "linear_valid ceiling step 0"
  shows "linear_valid ceiling step (after_calls (linear_backoff pause ceiling step) n 0) \<and>
         unat (after_calls (linear_backoff pause ceiling step) n 0)
           = min (n * unat step) (unat ceiling)"
proof (induction n)
  case 0
  then show ?case using assms by simp
next
  case (Suc n)
  let ?c = "after_calls (linear_backoff pause ceiling step) n 0"
  have "linear_valid ceiling step ?c" using Suc by simp
  then show ?case
    using Suc linear_step[of ceiling step ?c] linear_valid_next[of ceiling step ?c pause]
    by (auto simp: after_calls_step nth_call_def)
qed

lemma exponential_after_calls:
  assumes "unat ceiling < 2 ^ 31"
  shows "exponential_valid ceiling (after_calls (exponential_backoff pause ceiling) n 0) \<and>
         unat (after_calls (exponential_backoff pause ceiling) n 0)
           = min (2 ^ n - 1) (unat ceiling)"
proof (induction n)
  case 0
  then show ?case using assms by (simp add: exponential_valid_def)
next
  case (Suc n)
  let ?c = "after_calls (exponential_backoff pause ceiling) n 0"
  have v: "exponential_valid ceiling ?c" using Suc by simp
  moreover obtain m where m: "(2::nat) ^ n = Suc m"
    by (cases "(2::nat) ^ n") auto
  ultimately show ?case
    using Suc exponential_step[OF v] exponential.valid_next[OF v, of pause]
    by (auto simp: after_calls_step nth_call_def m)
qed

text \<open>
  The linear policy, started with \<open>count_ = 0\<close> and with parameters for which
  \<open>ceiling + step\<close> does not wrap, pauses \<open>min (n * step) ceiling\<close> units in its call
  number \<open>n\<close> and reports the ceiling exactly from the call in which \<open>(n + 1) * step\<close>
  exceeds it.
\<close>

theorem linear_backoff_schedule:
  assumes "linear_valid ceiling step 0"
  shows "nth_call (linear_backoff pause ceiling step) n 0 =
           (pause (of_nat (min (n * unat step) (unat ceiling))),
            unat ceiling < Suc n * unat step,
            of_nat (min (Suc n * unat step) (unat ceiling)))"
proof -
  let ?c = "after_calls (linear_backoff pause ceiling step) n 0"
  have v: "linear_valid ceiling step ?c" and c: "unat ?c = min (n * unat step) (unat ceiling)"
    using linear_after_calls[OF assms] by auto
  have "0 < unat step"
    using assms by (simp add: linear_valid_def word_less_nat_alt)
  then have "unat ceiling < unat ?c + unat step \<longleftrightarrow> unat ceiling < Suc n * unat step"
    using c by auto
  moreover have "?c = of_nat (min (n * unat step) (unat ceiling))"
    unfolding c[symmetric] by simp
  moreover have "bk_next (nth_call (linear_backoff pause ceiling step) n 0)
      = of_nat (min (Suc n * unat step) (unat ceiling))"
    using linear_after_calls[OF assms, of pause "Suc n"]
    by (metis after_calls_step word_of_unat)
  ultimately show ?thesis
    using linear_step(1)[OF v, of pause] by (auto simp: nth_call_def)
qed

theorem linear_backoff_schedule_witness:
  "linear_valid 10 4 0 \<and>
   nth_call (linear_backoff cpu_cycle 10 4) 2 0 = (replicate 8 Signal_fence, True, 10)"
proof -
  have v: "linear_valid 10 4 0" by (simp add: linear_valid_def)
  show ?thesis
    using v linear_backoff_schedule[OF v, of cpu_cycle 2] by (simp add: cpu_cycle_eq)
qed

text \<open>
  C11: the exponential policy with a ceiling below \<open>2 ^ 31\<close> pauses
  \<open>min (2 ^ n - 1) ceiling\<close> units in its call number \<open>n\<close> and reports the ceiling
  exactly from the call in which \<open>2 ^ (n + 1) - 1\<close> exceeds it; from then on every call
  reports it.
\<close>

theorem exponential_backoff_schedule:
  assumes "unat ceiling < 2 ^ 31"
  shows "nth_call (exponential_backoff pause ceiling) n 0 =
           (pause (of_nat (min (2 ^ n - 1) (unat ceiling))),
            unat ceiling < 2 ^ Suc n - 1,
            of_nat (min (2 ^ Suc n - 1) (unat ceiling)))"
proof -
  let ?c = "after_calls (exponential_backoff pause ceiling) n 0"
  have v: "exponential_valid ceiling ?c" and c: "unat ?c = min (2 ^ n - 1) (unat ceiling)"
    using exponential_after_calls[OF assms] by auto
  obtain m where m: "(2::nat) ^ n = Suc m"
    by (cases "(2::nat) ^ n") auto
  have "unat ceiling < 2 * unat ?c + 1 \<longleftrightarrow> unat ceiling < 2 ^ Suc n - 1"
    using c m by auto
  moreover have "?c = of_nat (min (2 ^ n - 1) (unat ceiling))"
    unfolding c[symmetric] by simp
  moreover have "bk_next (nth_call (exponential_backoff pause ceiling) n 0)
      = of_nat (min (2 ^ Suc n - 1) (unat ceiling))"
    using exponential_after_calls[OF assms, of pause "Suc n"]
    by (metis after_calls_step word_of_unat)
  ultimately show ?thesis
    using exponential_step(1)[OF v, of pause] by (auto simp: nth_call_def)
qed

theorem exponential_backoff_schedule_witness:
  "unat (5 :: 32 word) < 2 ^ 31 \<and>
   nth_call (exponential_backoff cpu_cycle 5) 2 0 = (replicate 3 Signal_fence, True, 5)"
proof -
  have v: "unat (5 :: 32 word) < 2 ^ 31" by simp
  show ?thesis
    using v exponential_backoff_schedule[OF v, of cpu_cycle 2] by (simp add: cpu_cycle_eq)
qed



lemma composite_after_calls:
  assumes "\<forall>n < k. \<not> bk_result (nth_call op1 n a)" and "n \<le> k"
  shows "after_calls (composite_backoff op1 op2) n (composite_ctor a b)
           = \<lparr>first_policy = after_calls op1 n a, second_policy = b, use_second = False\<rparr>"
  using assms(2)
proof (induction n)
  case 0
  then show ?case by (simp add: composite_ctor_def)
next
  case (Suc n)
  then have "\<not> bk_result (nth_call op1 n a)" using assms(1) by simp
  with Suc show ?case
    by (cases "nth_call op1 n a")
      (simp add: after_calls_step nth_call_def[of "composite_backoff op1 op2"]
        composite_backoff_def[of _ _ "\<lparr>first_policy = _, second_policy = _, use_second = _\<rparr>"]
        nth_call_def[of op1, symmetric])
qed

lemma composite_second:
  "after_calls (composite_backoff op1 op2) n \<lparr>first_policy = a, second_policy = b, use_second = True\<rparr>
     = \<lparr>first_policy = a, second_policy = after_calls op2 n b, use_second = True\<rparr>"
  by (induction n)
    (simp_all add: after_calls_step nth_call_def composite_backoff_def split: prod.splits)

text \<open>
  The composite policy runs the first policy and reports nothing until that one reaches
  its ceiling (in call \<open>k\<close>); every later call is the corresponding call of the second
  policy, result included.
\<close>

theorem composite_backoff_hands_over:
  assumes "\<forall>n < k. \<not> bk_result (nth_call op1 n a)" and "bk_result (nth_call op1 k a)"
  shows "(n \<le> k \<longrightarrow>
            \<not> bk_result (nth_call (composite_backoff op1 op2) n (composite_ctor a b)) \<and>
            fst (nth_call (composite_backoff op1 op2) n (composite_ctor a b)) = fst (nth_call op1 n a)) \<and>
         bk_result (nth_call (composite_backoff op1 op2) (Suc k + m) (composite_ctor a b))
           = bk_result (nth_call op2 m b) \<and>
         fst (nth_call (composite_backoff op1 op2) (Suc k + m) (composite_ctor a b))
           = fst (nth_call op2 m b)"
proof -
  let ?op = "composite_backoff op1 op2" and ?c = "composite_ctor a b"
  have "\<not> bk_result (nth_call ?op n ?c) \<and> fst (nth_call ?op n ?c) = fst (nth_call op1 n a)"
    if "n \<le> k"
    by (simp add: nth_call_def composite_after_calls[OF assms(1) that] composite_backoff_def
        split: prod.splits)
  moreover have "after_calls ?op (Suc k) ?c
      = \<lparr>first_policy = after_calls op1 (Suc k) a, second_policy = b, use_second = True\<rparr>"
    using assms(2)
    by (cases "nth_call op1 k a")
      (simp add: after_calls_step nth_call_def[of ?op] composite_after_calls[OF assms(1)]
        composite_backoff_def[of _ _ "\<lparr>first_policy = _, second_policy = _, use_second = _\<rparr>"]
        nth_call_def[of op1, symmetric])
  then have "after_calls ?op (Suc k + m) ?c
      = \<lparr>first_policy = after_calls op1 (Suc k) a, second_policy = after_calls op2 m b,
         use_second = True\<rparr>"
    by (simp only: after_calls_add composite_second)
  then have "bk_result (nth_call ?op (Suc k + m) ?c) = bk_result (nth_call op2 m b) \<and>
      fst (nth_call ?op (Suc k + m) ?c) = fst (nth_call op2 m b)"
    by (simp add: nth_call_def composite_backoff_def split: prod.splits)
  ultimately show ?thesis by blast
qed

theorem composite_backoff_hands_over_witness:
  "bk_result (nth_call (composite_backoff no_backoff yield_backoff) 0 (composite_ctor () ())) = False \<and>
   nth_call no_backoff 0 () = ([], True, ()) \<and>
   fst (nth_call (composite_backoff no_backoff yield_backoff) 3 (composite_ctor () ())) = [Yield]"
  using composite_backoff_hands_over[of 0 no_backoff "()" 0 yield_backoff "()" 2]
  by (simp add: nth_call_def no_backoff_def yield_backoff_def numeral_3_eq_3)

end
