(* ===== verification/Evenk_Spin_Lock.thy ===== *)
theory Evenk_Spin_Lock
  imports Evenk_Prelude
begin

text \<open>
  \<^verbatim>\<open>evenk/spinlock.h\<close>, classes \<open>spin_lock\<close> and \<open>tatas_lock\<close>.

  Any number of threads use one lock.  The events \<open>Lock i b\<close>, \<open>TryLock i\<close> and
  \<open>Unlock i\<close> are the calls of thread \<open>i\<close> (\<open>b\<close> is the back-off object passed by
  value); \<open>Step i\<close> executes its next atomic access.  A thread calls \<open>unlock\<close> only while
  it holds the lock, which is the contract of every C++ mutex.  The parameter \<open>bk\<close> is the
  call of the back-off policy; the lock ignores its result.
\<close>

datatype 'b lock_event = Lock tid 'b | TryLock tid | Unlock tid | Step tid

fun event_tid :: "'b lock_event \<Rightarrow> tid" where
  "event_tid (Lock i b) = i"
| "event_tid (TryLock i) = i"
| "event_tid (Unlock i) = i"
| "event_tid (Step i) = i"

subsection \<open>spin\_lock\<close>

datatype 'b spin_pc =
    Spin_Idle
  | Spin_Set 'b           \<comment> \<open>\<open>lock\<close>: at \<open>test_and_set\<close>\<close>
  | Spin_Backoff 'b       \<comment> \<open>\<open>lock\<close>: at \<open>backoff()\<close>\<close>
  | Spin_Try              \<comment> \<open>\<open>try_lock\<close>: at \<open>test_and_set\<close>\<close>
  | Spin_Held
  | Spin_Clear            \<comment> \<open>\<open>unlock\<close>: at \<open>clear\<close>\<close>

record 'b spin_state =
  spin_flag :: bool
  spin_pcs :: "tid \<Rightarrow> 'b spin_pc"

definition spin_init :: "'b spin_state" where
  "spin_init = \<lparr>spin_flag = False, spin_pcs = (\<lambda>_. Spin_Idle)\<rparr>"

abbreviation spin_goto :: "'b spin_state \<Rightarrow> tid \<Rightarrow> 'b spin_pc \<Rightarrow> 'b spin_state" where
  "spin_goto s i p \<equiv> s\<lparr>spin_pcs := (spin_pcs s)(i := p)\<rparr>"

fun spin_step :: "('b \<Rightarrow> 'b) \<Rightarrow> 'b lock_event \<Rightarrow> 'b spin_state \<Rightarrow> 'b spin_state option" where
  "spin_step bk (Lock i b) s =
     (if spin_pcs s i = Spin_Idle then Some (spin_goto s i (Spin_Set b)) else None)"
| "spin_step bk (TryLock i) s =
     (if spin_pcs s i = Spin_Idle then Some (spin_goto s i Spin_Try) else None)"
| "spin_step bk (Unlock i) s =
     (if spin_pcs s i = Spin_Held then Some (spin_goto s i Spin_Clear) else None)"
| "spin_step bk (Step i) s =
     (case spin_pcs s i of
        Spin_Idle \<Rightarrow> None
      | Spin_Held \<Rightarrow> None
      | Spin_Set b \<Rightarrow>
          (if spin_flag s then Some (spin_goto s i (Spin_Backoff b))
           else Some ((spin_goto s i Spin_Held)\<lparr>spin_flag := True\<rparr>))
      | Spin_Backoff b \<Rightarrow> Some (spin_goto s i (Spin_Set (bk b)))
      | Spin_Try \<Rightarrow>
          (if spin_flag s then Some (spin_goto s i Spin_Idle)
           else Some ((spin_goto s i Spin_Held)\<lparr>spin_flag := True\<rparr>))
      | Spin_Clear \<Rightarrow> Some ((spin_goto s i Spin_Idle)\<lparr>spin_flag := False\<rparr>))"

definition spin_holds :: "'b spin_state \<Rightarrow> tid \<Rightarrow> bool" where
  "spin_holds s i \<longleftrightarrow> spin_pcs s i = Spin_Held \<or> spin_pcs s i = Spin_Clear"

subsection \<open>tatas\_lock\<close>

datatype 'b tatas_pc =
    Tatas_Idle
  | Tatas_Exchange 'b     \<comment> \<open>\<open>lock\<close>: at \<open>exchange(true)\<close>\<close>
  | Tatas_Backoff 'b      \<comment> \<open>\<open>lock\<close>: at \<open>backoff()\<close> of the inner loop\<close>
  | Tatas_Load 'b         \<comment> \<open>\<open>lock\<close>: at the \<open>load\<close> of the inner loop\<close>
  | Tatas_Try
  | Tatas_Held
  | Tatas_Store           \<comment> \<open>\<open>unlock\<close>: at \<open>store(false)\<close>\<close>

record 'b tatas_state =
  tatas_flag :: bool
  tatas_pcs :: "tid \<Rightarrow> 'b tatas_pc"

definition tatas_init :: "'b tatas_state" where
  "tatas_init = \<lparr>tatas_flag = False, tatas_pcs = (\<lambda>_. Tatas_Idle)\<rparr>"

abbreviation tatas_goto :: "'b tatas_state \<Rightarrow> tid \<Rightarrow> 'b tatas_pc \<Rightarrow> 'b tatas_state" where
  "tatas_goto s i p \<equiv> s\<lparr>tatas_pcs := (tatas_pcs s)(i := p)\<rparr>"

fun tatas_step :: "('b \<Rightarrow> 'b) \<Rightarrow> 'b lock_event \<Rightarrow> 'b tatas_state \<Rightarrow> 'b tatas_state option" where
  "tatas_step bk (Lock i b) s =
     (if tatas_pcs s i = Tatas_Idle then Some (tatas_goto s i (Tatas_Exchange b)) else None)"
| "tatas_step bk (TryLock i) s =
     (if tatas_pcs s i = Tatas_Idle then Some (tatas_goto s i Tatas_Try) else None)"
| "tatas_step bk (Unlock i) s =
     (if tatas_pcs s i = Tatas_Held then Some (tatas_goto s i Tatas_Store) else None)"
| "tatas_step bk (Step i) s =
     (case tatas_pcs s i of
        Tatas_Idle \<Rightarrow> None
      | Tatas_Held \<Rightarrow> None
      | Tatas_Exchange b \<Rightarrow>
          (if tatas_flag s then Some (tatas_goto s i (Tatas_Backoff b))
           else Some ((tatas_goto s i Tatas_Held)\<lparr>tatas_flag := True\<rparr>))
      | Tatas_Backoff b \<Rightarrow> Some (tatas_goto s i (Tatas_Load (bk b)))
      | Tatas_Load b \<Rightarrow>
          (if tatas_flag s then Some (tatas_goto s i (Tatas_Backoff b))
           else Some (tatas_goto s i (Tatas_Exchange b)))
      | Tatas_Try \<Rightarrow>
          (if tatas_flag s then Some (tatas_goto s i Tatas_Idle)
           else Some ((tatas_goto s i Tatas_Held)\<lparr>tatas_flag := True\<rparr>))
      | Tatas_Store \<Rightarrow> Some ((tatas_goto s i Tatas_Idle)\<lparr>tatas_flag := False\<rparr>))"

definition tatas_holds :: "'b tatas_state \<Rightarrow> tid \<Rightarrow> bool" where
  "tatas_holds s i \<longleftrightarrow> tatas_pcs s i = Tatas_Held \<or> tatas_pcs s i = Tatas_Store"

subsection \<open>Locks made of one flag\<close>

text \<open>
  The contract of a one-flag lock: a step leaves flag and holders alone, or one thread
  acquires the lock by finding the flag clear and setting it, or a holder releases the lock
  by clearing it.  The flag is then set exactly while there is a holder, and there is at most
  one.
\<close>

locale flag_lock =
  fixes step :: "'e \<Rightarrow> 's \<Rightarrow> 's option"
    and flag :: "'s \<Rightarrow> bool"
    and holds :: "'s \<Rightarrow> tid \<Rightarrow> bool"
    and init :: 's
  assumes step_contract:
      "step e s = Some s' \<Longrightarrow>
         (flag s' = flag s \<and> holds s' = holds s) \<or>
         (\<exists>i. \<not> flag s \<and> flag s' \<and> holds s' = (holds s)(i := True)) \<or>
         (\<exists>i. holds s i \<and> \<not> flag s' \<and> holds s' = (holds s)(i := False))"
    and init_free: "\<not> flag init" "\<not> holds init i"
begin

definition flag_inv :: "'s \<Rightarrow> bool" where
  "flag_inv s \<longleftrightarrow>
     (\<forall>i j. holds s i \<longrightarrow> holds s j \<longrightarrow> i = j) \<and> (flag s \<longleftrightarrow> (\<exists>i. holds s i))"

lemma flag_inv_step:
  assumes "flag_inv s" and "step e s = Some s'"
  shows "flag_inv s'"
  using step_contract[OF assms(2)] assms(1) unfolding flag_inv_def
  by (elim disjE conjE exE) (auto simp: fun_upd_def split: if_splits)

end

sublocale flag_lock \<subseteq> mutex_system step "\<lambda>_. True" flag_inv init holds
  by unfold_locales (metis flag_inv_step, auto simp: flag_inv_def init_free)

context flag_lock
begin

lemma run_flag_inv: "run step es init = Some s \<Longrightarrow> flag_inv s"
  using run_inv[of es init s] init_inv by (simp add: list_all_iff)

lemma flag_iff_held: "run step es init = Some s \<Longrightarrow> flag s \<longleftrightarrow> (\<exists>i. holds s i)"
  using run_flag_inv by (simp add: flag_inv_def)

lemma one_holder: "run step es init = Some s \<Longrightarrow> flag s \<longleftrightarrow> (\<exists>!i. holds s i)"
  using run_flag_inv unfolding flag_inv_def by blast

end

lemma spin_contract:
  assumes "spin_step bk e s = Some s'"
  shows "(spin_flag s' = spin_flag s \<and> spin_holds s' = spin_holds s) \<or>
         (\<exists>i. \<not> spin_flag s \<and> spin_flag s' \<and> spin_holds s' = (spin_holds s)(i := True)) \<or>
         (\<exists>i. spin_holds s i \<and> \<not> spin_flag s' \<and> spin_holds s' = (spin_holds s)(i := False))"
  using assms
  by (cases e) (auto simp: spin_holds_def fun_eq_iff split: if_splits spin_pc.splits)

interpretation spin: flag_lock "spin_step bk" spin_flag spin_holds spin_init for bk
  by unfold_locales (rule spin_contract, simp_all add: spin_init_def spin_holds_def)

lemma tatas_contract:
  assumes "tatas_step bk e s = Some s'"
  shows "(tatas_flag s' = tatas_flag s \<and> tatas_holds s' = tatas_holds s) \<or>
         (\<exists>i. \<not> tatas_flag s \<and> tatas_flag s' \<and> tatas_holds s' = (tatas_holds s)(i := True)) \<or>
         (\<exists>i. tatas_holds s i \<and> \<not> tatas_flag s' \<and> tatas_holds s' = (tatas_holds s)(i := False))"
  using assms
  by (cases e) (auto simp: tatas_holds_def fun_eq_iff split: if_splits tatas_pc.splits)

interpretation tatas: flag_lock "tatas_step bk" tatas_flag tatas_holds tatas_init for bk
  by unfold_locales (rule tatas_contract, simp_all add: tatas_init_def tatas_holds_def)

text \<open>
  C28: mutual exclusion of \<open>spin_lock\<close>: whatever the threads do, in every interleaving of
  \<open>lock\<close>, \<open>try_lock\<close> and \<open>unlock\<close>, two threads never hold the lock together, and
  the flag is set exactly while one thread holds it.
\<close>

theorem spin_lock_mutual_exclusion:
  assumes "run (spin_step bk) es spin_init = Some s"
  shows "(spin_holds s i \<longrightarrow> spin_holds s j \<longrightarrow> i = j) \<and>
         (spin_flag s \<longleftrightarrow> (\<exists>!i. spin_holds s i))"
  using spin.mutual_exclusion[OF _ assms] spin.one_holder[OF assms] by (auto simp: list_all_iff)

theorem spin_lock_mutual_exclusion_witness:
  "\<exists>s. run (spin_step id) [Lock 0 (), Lock 1 (), Step 0, Step 1] spin_init = Some s \<and>
       spin_holds s 0 \<and> spin_pcs s 1 = Spin_Backoff () \<and> (\<exists>!i. spin_holds s i)"
proof -
  obtain s where s: "run (spin_step id) [Lock 0 (), Lock 1 (), Step 0, Step 1] spin_init = Some s"
    and "spin_holds s 0" "spin_pcs s 1 = Spin_Backoff ()" "spin_flag s"
    by (simp add: spin_init_def spin_holds_def)
  then show ?thesis
    using spin_lock_mutual_exclusion[OF s] by blast
qed

text \<open>
  C29: mutual exclusion of \<open>tatas_lock\<close>, with its inner loop of plain loads.
\<close>

theorem tatas_lock_mutual_exclusion:
  assumes "run (tatas_step bk) es tatas_init = Some s"
  shows "(tatas_holds s i \<longrightarrow> tatas_holds s j \<longrightarrow> i = j) \<and>
         (tatas_flag s \<longleftrightarrow> (\<exists>!i. tatas_holds s i))"
  using tatas.mutual_exclusion[OF _ assms] tatas.one_holder[OF assms] by (auto simp: list_all_iff)

theorem tatas_lock_mutual_exclusion_witness:
  "\<exists>s. run (tatas_step id) [Lock 0 (), Lock 1 (), Step 0, Step 1, Step 1, Step 1] tatas_init = Some s \<and>
       tatas_holds s 0 \<and> tatas_pcs s 1 = Tatas_Backoff () \<and> (\<exists>!i. tatas_holds s i)"
proof -
  obtain s where s: "run (tatas_step id) [Lock 0 (), Lock 1 (), Step 0, Step 1, Step 1, Step 1]
      tatas_init = Some s"
    and "tatas_holds s 0" "tatas_pcs s 1 = Tatas_Backoff ()" "tatas_flag s"
    by (simp add: tatas_init_def tatas_holds_def)
  then show ?thesis
    using tatas_lock_mutual_exclusion[OF s] by blast
qed

end
