(* ===== verification/Evenk_Ticket_Lock.thy ===== *)
theory Evenk_Ticket_Lock
  imports Evenk_Spin_Lock
begin

text \<open>
  \<^verbatim>\<open>evenk/spinlock.h\<close>, class \<open>ticket_lock\<close>.

  The step function is polymorphic in the type of the counters.  At \<open>16 word\<close> (the
  \<open>base_type\<close> of the source) it is the code; at \<open>nat\<close> it is the ideal lock whose
  tickets never wrap around, the specification.  The refinement states when the 16-bit
  counters are as good as the unbounded ones.  The parameter \<open>ad\<close> is the call of
  \<open>proportional_adapter\<close> on the back-off object: it gets the distance
  \<open>tail - head\<close>.
\<close>

datatype ('n, 'b) ticket_pc =
    T_Idle
  | T_FetchTail 'b         \<comment> \<open>\<open>lock\<close>: at \<open>tail_.fetch_add(1)\<close>\<close>
  | T_LoadHead 'b 'n       \<comment> \<open>\<open>lock\<close>: at \<open>head_.load\<close>, with the ticket\<close>
  | T_Backoff 'b 'n 'n     \<comment> \<open>\<open>lock\<close>: at the back-off, with the ticket and the head read\<close>
  | T_Held
  | T_TryHead              \<comment> \<open>\<open>try_lock\<close>: at \<open>head_.load\<close>\<close>
  | T_TryTail 'n           \<comment> \<open>\<open>try_lock\<close>: at \<open>tail_.load\<close>\<close>
  | T_TryCas 'n 'n         \<comment> \<open>\<open>try_lock\<close>: at the comparison and the exchange\<close>
  | T_UnlHead              \<comment> \<open>\<open>unlock\<close>: at \<open>head_.load\<close>\<close>
  | T_UnlStore 'n          \<comment> \<open>\<open>unlock\<close>: at \<open>head_.store\<close>\<close>

record ('n, 'b) ticket_state =
  tk_head :: 'n
  tk_tail :: 'n
  tk_pcs :: "tid \<Rightarrow> ('n, 'b) ticket_pc"

definition ticket_init :: "('n::zero, 'b) ticket_state" where
  "ticket_init = \<lparr>tk_head = 0, tk_tail = 0, tk_pcs = (\<lambda>_. T_Idle)\<rparr>"

abbreviation ticket_goto ::
  "('n, 'b) ticket_state \<Rightarrow> tid \<Rightarrow> ('n, 'b) ticket_pc \<Rightarrow> ('n, 'b) ticket_state" where
  "ticket_goto s i p \<equiv> s\<lparr>tk_pcs := (tk_pcs s)(i := p)\<rparr>"

fun ticket_step ::
  "('n \<Rightarrow> 'b \<Rightarrow> 'b) \<Rightarrow> 'b lock_event \<Rightarrow> ('n::{one,plus,minus}, 'b) ticket_state \<Rightarrow>
   ('n, 'b) ticket_state option" where
  "ticket_step ad (Lock i b) s =
     (if tk_pcs s i = T_Idle then Some (ticket_goto s i (T_FetchTail b)) else None)"
| "ticket_step ad (TryLock i) s =
     (if tk_pcs s i = T_Idle then Some (ticket_goto s i T_TryHead) else None)"
| "ticket_step ad (Unlock i) s =
     (if tk_pcs s i = T_Held then Some (ticket_goto s i T_UnlHead) else None)"
| "ticket_step ad (Step i) s =
     (case tk_pcs s i of
        T_Idle \<Rightarrow> None
      | T_Held \<Rightarrow> None
      | T_FetchTail b \<Rightarrow>
          Some ((ticket_goto s i (T_LoadHead b (tk_tail s)))\<lparr>tk_tail := tk_tail s + 1\<rparr>)
      | T_LoadHead b tail \<Rightarrow>
          (if tail = tk_head s then Some (ticket_goto s i T_Held)
           else Some (ticket_goto s i (T_Backoff b tail (tk_head s))))
      | T_Backoff b tail head \<Rightarrow> Some (ticket_goto s i (T_LoadHead (ad (tail - head) b) tail))
      | T_TryHead \<Rightarrow> Some (ticket_goto s i (T_TryTail (tk_head s)))
      | T_TryTail head \<Rightarrow> Some (ticket_goto s i (T_TryCas head (tk_tail s)))
      | T_TryCas head tail \<Rightarrow>
          (if head = tail \<and> tk_tail s = tail
           then Some ((ticket_goto s i T_Held)\<lparr>tk_tail := tail + 1\<rparr>)
           else Some (ticket_goto s i T_Idle))
      | T_UnlHead \<Rightarrow> Some (ticket_goto s i (T_UnlStore (tk_head s)))
      | T_UnlStore head \<Rightarrow> Some ((ticket_goto s i T_Idle)\<lparr>tk_head := head + 1\<rparr>))"

text \<open>
  A thread holds the lock from the end of \<open>lock\<close> (or of a successful \<open>try_lock\<close>) until
  the store of \<open>unlock\<close>.  Its ticket is then the head; a waiting thread has the ticket it
  drew.
\<close>

fun pc_holds :: "('n, 'b) ticket_pc \<Rightarrow> bool" where
  "pc_holds T_Held = True"
| "pc_holds T_UnlHead = True"
| "pc_holds (T_UnlStore h) = True"
| "pc_holds _ = False"

definition ticket_holds :: "('n, 'b) ticket_state \<Rightarrow> tid \<Rightarrow> bool" where
  "ticket_holds s i \<longleftrightarrow> pc_holds (tk_pcs s i)"

fun pc_ticket :: "'n \<Rightarrow> ('n, 'b) ticket_pc \<Rightarrow> 'n option" where
  "pc_ticket head (T_LoadHead b t) = Some t"
| "pc_ticket head (T_Backoff b t h) = Some t"
| "pc_ticket head T_Held = Some head"
| "pc_ticket head T_UnlHead = Some head"
| "pc_ticket head (T_UnlStore h) = Some head"
| "pc_ticket head _ = None"

abbreviation ticket_of :: "('n, 'b) ticket_state \<Rightarrow> tid \<Rightarrow> 'n option" where
  "ticket_of s i \<equiv> pc_ticket (tk_head s) (tk_pcs s i)"

fun pc_tries :: "('n, 'b) ticket_pc \<Rightarrow> bool" where
  "pc_tries T_TryHead = True"
| "pc_tries (T_TryTail h) = True"
| "pc_tries (T_TryCas h t) = True"
| "pc_tries _ = False"

subsection \<open>The ideal lock\<close>

fun pc_sane :: "nat \<Rightarrow> nat \<Rightarrow> (nat, 'b) ticket_pc \<Rightarrow> bool" where
  "pc_sane head tail (T_Backoff b t h) \<longleftrightarrow> h \<le> t"
| "pc_sane head tail (T_TryTail h) \<longleftrightarrow> h \<le> head"
| "pc_sane head tail (T_TryCas h t) \<longleftrightarrow> h \<le> head \<and> h \<le> t \<and> t \<le> tail"
| "pc_sane head tail (T_UnlStore h) \<longleftrightarrow> h = head"
| "pc_sane head tail _ \<longleftrightarrow> True"

text \<open>
  The tickets in use are exactly the numbers from the head up to the tail, each used by one
  thread.
\<close>

definition ticket_inv :: "(nat, 'b) ticket_state \<Rightarrow> bool" where
  "ticket_inv s \<longleftrightarrow>
     tk_head s \<le> tk_tail s \<and>
     (\<forall>i t. ticket_of s i = Some t \<longrightarrow> tk_head s \<le> t \<and> t < tk_tail s) \<and>
     (\<forall>i j t. ticket_of s i = Some t \<longrightarrow> ticket_of s j = Some t \<longrightarrow> i = j) \<and>
     (\<forall>t. tk_head s \<le> t \<longrightarrow> t < tk_tail s \<longrightarrow> (\<exists>i. ticket_of s i = Some t)) \<and>
     (\<forall>i. pc_sane (tk_head s) (tk_tail s) (tk_pcs s i))"

subsection \<open>Wrapping the counters\<close>

definition ticket_words :: "(nat, 'b) ticket_state \<Rightarrow> (16 word, 'b) ticket_state" where
  "ticket_words s =
     \<lparr>tk_head = of_nat (tk_head s), tk_tail = of_nat (tk_tail s),
      tk_pcs = (\<lambda>i. map_ticket_pc of_nat id (tk_pcs s i))\<rparr>"

definition below :: "tid \<Rightarrow> (nat, 'b) ticket_state \<Rightarrow> bool" where
  "below n s \<longleftrightarrow> n \<le> 2 ^ 16 \<and> (\<forall>i. n \<le> i \<longrightarrow> tk_pcs s i = T_Idle)"

text \<open>
  Fewer than \<open>2 ^ 16\<close> tickets were drawn since any pending \<open>try_lock\<close> read the head.
\<close>

definition ticket_fresh :: "(nat, 'b) ticket_state \<Rightarrow> bool" where
  "ticket_fresh s \<longleftrightarrow> (\<forall>i h t. tk_pcs s i = T_TryCas h t \<longrightarrow> tk_tail s < h + 2 ^ 16)"

definition no_tries :: "('n, 'b) ticket_state \<Rightarrow> bool" where
  "no_tries s \<longleftrightarrow> (\<forall>i. \<not> pc_tries (tk_pcs s i))"

fun is_try :: "'b lock_event \<Rightarrow> bool" where
  "is_try (TryLock i) = True"
| "is_try _ = False"

subsection \<open>The invariant of the ideal lock\<close>

lemma pc_holds_ticket: "pc_holds p \<Longrightarrow> pc_ticket head p = Some head"
  by (cases p) auto

lemma ticket_invD:
  assumes "ticket_inv s"
  shows "tk_head s \<le> tk_tail s"
    and "ticket_of s i = Some t \<Longrightarrow> tk_head s \<le> t"
    and "ticket_of s i = Some t \<Longrightarrow> t < tk_tail s"
    and "ticket_of s i = Some t \<Longrightarrow> ticket_of s j = Some t \<Longrightarrow> i = j"
    and "tk_head s \<le> t \<Longrightarrow> t < tk_tail s \<Longrightarrow> \<exists>i. ticket_of s i = Some t"
    and "pc_sane (tk_head s) (tk_tail s) (tk_pcs s i)"
  using assms by (simp_all add: ticket_inv_def)

lemma pc_ticket_head:
  "\<not> pc_holds p \<Longrightarrow> pc_ticket head p = pc_ticket head' p"
  by (cases p) auto

lemma pc_sane_mono:
  "pc_sane head tail p \<Longrightarrow> \<not> pc_holds p \<Longrightarrow> head \<le> head' \<Longrightarrow> tail \<le> tail' \<Longrightarrow> pc_sane head' tail' p"
  by (cases p) auto

lemma pc_sane_tail: "pc_sane head tail p \<Longrightarrow> tail \<le> tail' \<Longrightarrow> pc_sane head tail' p"
  by (cases p) auto

text \<open>The three ways in which a step can change the tickets: none, a new one, a release.\<close>

lemma ticket_inv_stay:
  assumes "ticket_inv s" and "pc_ticket (tk_head s) p = ticket_of s i"
    and "pc_sane (tk_head s) (tk_tail s) p"
  shows "ticket_inv (ticket_goto s i p)"
  using assms unfolding ticket_inv_def by (auto split: if_splits)

lemma ticket_inv_draw:
  assumes "ticket_inv s" and "ticket_of s i = None"
    and "pc_ticket (tk_head s) p = Some (tk_tail s)" and "pc_sane (tk_head s) (tk_tail s + 1) p"
  shows "ticket_inv ((ticket_goto s i p)\<lparr>tk_tail := tk_tail s + 1\<rparr>)"
  using assms unfolding ticket_inv_def
  by (auto simp: less_Suc_eq intro: pc_sane_tail split: if_splits) (metis option.distinct(1))+

lemma ticket_inv_release:
  assumes inv: "ticket_inv s" and holds: "ticket_holds s i"
  shows "ticket_inv ((ticket_goto s i T_Idle)\<lparr>tk_head := tk_head s + 1\<rparr>)"
proof -
  have ti: "ticket_of s i = Some (tk_head s)"
    using holds by (simp add: ticket_holds_def pc_holds_ticket)
  have other: "\<not> pc_holds (tk_pcs s j)" "pc_ticket (Suc (tk_head s)) (tk_pcs s j) = ticket_of s j"
      "ticket_of s j \<noteq> Some (tk_head s)" if "j \<noteq> i" for j
  proof -
    show ne: "ticket_of s j \<noteq> Some (tk_head s)"
      using ticket_invD(4)[OF inv ti] that by blast
    then show nh: "\<not> pc_holds (tk_pcs s j)"
      using pc_holds_ticket[of "tk_pcs s j" "tk_head s"] by blast
    then show "pc_ticket (Suc (tk_head s)) (tk_pcs s j) = ticket_of s j"
      by (rule pc_ticket_head)
  qed
  have lt: "tk_head s < tk_tail s"
    using ticket_invD(3)[OF inv ti] .
  show ?thesis
    unfolding ticket_inv_def
  proof (intro conjI allI impI)
    show "tk_head ((ticket_goto s i T_Idle)\<lparr>tk_head := tk_head s + 1\<rparr>)
        \<le> tk_tail ((ticket_goto s i T_Idle)\<lparr>tk_head := tk_head s + 1\<rparr>)"
      using lt by simp
  next
    fix j t
    assume "ticket_of ((ticket_goto s i T_Idle)\<lparr>tk_head := tk_head s + 1\<rparr>) j = Some t"
    then have "j \<noteq> i" and "ticket_of s j = Some t"
      using other(2)[of j] by (auto split: if_splits)
    then have "tk_head s \<le> t" "t < tk_tail s" "t \<noteq> tk_head s"
      using ticket_invD(2,3)[OF inv] other(3)[of j] by blast+
    then show "tk_head ((ticket_goto s i T_Idle)\<lparr>tk_head := tk_head s + 1\<rparr>) \<le> t"
      and "t < tk_tail ((ticket_goto s i T_Idle)\<lparr>tk_head := tk_head s + 1\<rparr>)"
      by simp_all
  next
    fix j k t
    assume "ticket_of ((ticket_goto s i T_Idle)\<lparr>tk_head := tk_head s + 1\<rparr>) j = Some t"
      and "ticket_of ((ticket_goto s i T_Idle)\<lparr>tk_head := tk_head s + 1\<rparr>) k = Some t"
    then have "ticket_of s j = Some t" and "ticket_of s k = Some t"
      using other(2)[of j] other(2)[of k] by (simp_all split: if_splits)
    then show "j = k"
      by (rule ticket_invD(4)[OF inv])
  next
    fix t
    assume "tk_head ((ticket_goto s i T_Idle)\<lparr>tk_head := tk_head s + 1\<rparr>) \<le> t"
      and "t < tk_tail ((ticket_goto s i T_Idle)\<lparr>tk_head := tk_head s + 1\<rparr>)"
    then obtain j where j: "ticket_of s j = Some t" and "t \<noteq> tk_head s"
      using ticket_invD(5)[OF inv, of t] by auto
    then have "j \<noteq> i" using ti by auto
    then show "\<exists>j. ticket_of ((ticket_goto s i T_Idle)\<lparr>tk_head := tk_head s + 1\<rparr>) j = Some t"
      using j other(2)[of j] by (intro exI[of _ j]) simp
  next
    fix j
    show "pc_sane (tk_head ((ticket_goto s i T_Idle)\<lparr>tk_head := tk_head s + 1\<rparr>))
           (tk_tail ((ticket_goto s i T_Idle)\<lparr>tk_head := tk_head s + 1\<rparr>))
           (tk_pcs ((ticket_goto s i T_Idle)\<lparr>tk_head := tk_head s + 1\<rparr>) j)"
      using ticket_invD(6)[OF inv, of j] other(1)[of j]
        pc_sane_mono[of "tk_head s" "tk_tail s" "tk_pcs s j" "tk_head s + 1" "tk_tail s"] by auto
  qed
qed

lemma ticket_inv_head_free:
  assumes "ticket_inv s" and "tk_pcs s i = T_TryCas t t" and "tk_tail s = t"
  shows "tk_head s = t"
proof -
  show ?thesis using ticket_invD(1)[OF assms(1)] ticket_invD(6)[OF assms(1), of i] assms(2,3) by simp
qed

lemma ticket_inv_step:
  assumes inv: "ticket_inv s" and step: "ticket_step ad e s = Some s'"
  shows "ticket_inv s'"
proof (cases e)
  case (Step i)
  have sane: "pc_sane (tk_head s) (tk_tail s) (tk_pcs s i)"
    and range: "\<And>t. ticket_of s i = Some t \<Longrightarrow> tk_head s \<le> t"
    and le: "tk_head s \<le> tk_tail s"
    using ticket_invD[OF inv] by blast+
  show ?thesis
  proof (cases "tk_pcs s i")
    case (T_FetchTail b)
    then show ?thesis
      using ticket_inv_draw[OF inv, of i "T_LoadHead b (tk_tail s)"] step Step by simp
  next
    case (T_TryCas h t)
    then show ?thesis
      using ticket_inv_draw[OF inv, of i T_Held] ticket_inv_stay[OF inv, of T_Idle i]
        ticket_inv_head_free[OF inv, of i t] step Step by (simp split: if_splits)
  next
    case (T_UnlStore h)
    then show ?thesis
      using ticket_inv_release[OF inv, of i] sane step Step by (simp add: ticket_holds_def)
  next
    case (T_LoadHead b t)
    then show ?thesis
      using ticket_inv_stay[OF inv, of T_Held i] ticket_inv_stay[OF inv, of "T_Backoff b t (tk_head s)" i]
        range[of t] step Step by (simp split: if_splits)
  next
    case (T_Backoff b t h)
    then show ?thesis
      using ticket_inv_stay[OF inv, of "T_LoadHead (ad (t - h) b) t" i] step Step by simp
  next
    case T_TryHead
    then show ?thesis
      using ticket_inv_stay[OF inv, of "T_TryTail (tk_head s)" i] step Step by simp
  next
    case (T_TryTail h)
    then show ?thesis
      using ticket_inv_stay[OF inv, of "T_TryCas h (tk_tail s)" i] sane le step Step by simp
  next
    case T_UnlHead
    then show ?thesis
      using ticket_inv_stay[OF inv, of "T_UnlStore (tk_head s)" i] step Step by simp
  qed (use step Step in simp_all)
next
  case (Lock i b)
  then show ?thesis
    using ticket_inv_stay[OF inv, of "T_FetchTail b" i] step by (simp split: if_splits)
next
  case (TryLock i)
  then show ?thesis
    using ticket_inv_stay[OF inv, of T_TryHead i] step by (simp split: if_splits)
next
  case (Unlock i)
  then show ?thesis
    using ticket_inv_stay[OF inv, of T_UnlHead i] step by (simp split: if_splits)
qed

lemma ticket_inv_init: "ticket_inv ticket_init"
  by (simp add: ticket_inv_def ticket_init_def)

lemma ticket_inv_exclusive:
  "ticket_inv s \<Longrightarrow> ticket_holds s i \<Longrightarrow> ticket_holds s j \<Longrightarrow> i = j"
  using ticket_invD(4)[of s i "tk_head s" j] by (simp add: ticket_holds_def pc_holds_ticket)

interpretation ideal_ticket: mutex_system "ticket_step ad :: 'b lock_event \<Rightarrow> _" "\<lambda>_. True"
    ticket_inv ticket_init ticket_holds for ad
  by unfold_locales
    (erule ticket_inv_step, assumption, rule ticket_inv_init, erule ticket_inv_exclusive)

subsection \<open>The 16-bit lock refines the ideal one\<close>

lemma below_step:
  "below n s \<Longrightarrow> event_tid e < n \<Longrightarrow> ticket_step ad e s = Some s' \<Longrightarrow> below n s'"
  by (cases e) (auto simp: below_def split: if_splits ticket_pc.splits)

lemma tail_bound:
  assumes "ticket_inv s" and "below n s"
  shows "tk_tail s \<le> tk_head s + n"
proof -
  have "{tk_head s..<tk_tail s} \<subseteq> (\<lambda>i. the (ticket_of s i)) ` {..<n}"
  proof
    fix t
    assume "t \<in> {tk_head s..<tk_tail s}"
    then obtain i where i: "ticket_of s i = Some t"
      using ticket_invD(5)[OF assms(1), of t] by auto
    then have "tk_pcs s i \<noteq> T_Idle" by auto
    then have "i < n" using assms(2) unfolding below_def by (metis not_less)
    with i show "t \<in> (\<lambda>i. the (ticket_of s i)) ` {..<n}"
      by (intro image_eqI[of _ _ i]) auto
  qed
  then have "card {tk_head s..<tk_tail s} \<le> card {..<n}"
    by (meson card_image_le card_mono finite_imageI finite_lessThan order_trans)
  then show ?thesis by simp
qed

lemma map_ticket_pc_iff [simp]:
  "map_ticket_pc f g p = T_Idle \<longleftrightarrow> p = T_Idle"
  "map_ticket_pc f g p = T_Held \<longleftrightarrow> p = T_Held"
  by (cases p; simp)+

lemma ticket_words_sel [simp]:
  "tk_head (ticket_words s) = of_nat (tk_head s)"
  "tk_tail (ticket_words s) = of_nat (tk_tail s)"
  "tk_pcs (ticket_words s) i = map_ticket_pc of_nat id (tk_pcs s i)"
  by (simp_all add: ticket_words_def)

lemma ticket_words_goto [simp]:
  "ticket_words (ticket_goto s i p) = ticket_goto (ticket_words s) i (map_ticket_pc of_nat id p)"
  "ticket_words (s\<lparr>tk_head := h\<rparr>) = (ticket_words s)\<lparr>tk_head := of_nat h\<rparr>"
  "ticket_words (s\<lparr>tk_tail := t\<rparr>) = (ticket_words s)\<lparr>tk_tail := of_nat t\<rparr>"
  by (auto simp: ticket_words_def fun_eq_iff)

lemma ticket_words_step:
  assumes inv: "ticket_inv s" and below: "below n s" and fresh: "ticket_fresh s"
  shows "ticket_step ad e (ticket_words s)
           = map_option ticket_words (ticket_step (\<lambda>d. ad (of_nat d)) e s)"
proof (cases e)
  case (Step i)
  have sane: "pc_sane (tk_head s) (tk_tail s) (tk_pcs s i)"
    and range: "\<And>t. ticket_of s i = Some t \<Longrightarrow> tk_head s \<le> t \<and> t < tk_tail s"
    using ticket_invD[OF inv] by blast+
  have eq: "(of_nat t :: 16 word) = of_nat (tk_head s) \<longleftrightarrow> t = tk_head s"
    if "ticket_of s i = Some t" for t
    using range[OF that] tail_bound[OF inv below] below of_nat_eq_window[of "tk_head s" t, where ?'a = 16]
    by (auto simp: below_def)
  show ?thesis
  proof (cases "tk_pcs s i")
    case (T_LoadHead b t)
    then show ?thesis using eq[of t] Step by simp
  next
    case (T_Backoff b t h)
    then show ?thesis using sane Step by (simp add: of_nat_diff)
  next
    case (T_TryCas h t)
    then have "h \<le> t" "t \<le> tk_tail s" "tk_tail s < h + 2 ^ 16"
      using sane fresh by (auto simp: ticket_fresh_def)
    then have "(of_nat h :: 16 word) = of_nat t \<longleftrightarrow> h = t"
      and "(of_nat (tk_tail s) :: 16 word) = of_nat t \<longleftrightarrow> tk_tail s = t"
      using of_nat_eq_window[of h t, where ?'a = 16] of_nat_eq_window[of t "tk_tail s", where ?'a = 16]
      by auto
    then show ?thesis using T_TryCas Step by simp
  qed (use Step in simp_all)
qed simp_all

interpretation ticket: refined_system "ticket_step (\<lambda>d. ad (of_nat d))" "\<lambda>e. event_tid e < n"
    "\<lambda>s. ticket_inv s \<and> below n s" "ticket_step ad" ticket_words ticket_fresh for ad n
proof unfold_locales
  show "ticket_inv s' \<and> below n s'"
    if "event_tid e < n" "ticket_inv s \<and> below n s" "ticket_step (\<lambda>d. ad (of_nat d)) e s = Some s'"
    for e s s'
    using that ticket_inv_step[OF _ that(3)] below_step[OF _ that(1,3)] by blast
  show "ticket_step ad e (ticket_words a)
      = map_option ticket_words (ticket_step (\<lambda>d. ad (of_nat d)) e a)"
    if "ticket_inv a \<and> below n a" "ticket_fresh a" for e a
    using that ticket_words_step by blast
qed

lemma no_tries_step:
  "no_tries s \<Longrightarrow> \<not> is_try e \<Longrightarrow> ticket_step ad e s = Some s' \<Longrightarrow> no_tries s'"
  unfolding no_tries_def
  by (cases e) (auto split: if_splits ticket_pc.splits, (metis pc_tries.simps)+)

lemma no_tries_fresh: "no_tries s \<Longrightarrow> ticket_fresh s"
  unfolding no_tries_def ticket_fresh_def by (metis pc_tries.simps(3))

interpretation lock_only: refined_system "ticket_step (\<lambda>d. ad (of_nat d))"
    "\<lambda>e. event_tid e < n \<and> \<not> is_try e" "\<lambda>s. ticket_inv s \<and> below n s \<and> no_tries s"
    "ticket_step ad" ticket_words ticket_fresh for ad n
proof unfold_locales
  show "ticket_inv s' \<and> below n s' \<and> no_tries s'"
    if "event_tid e < n \<and> \<not> is_try e" "ticket_inv s \<and> below n s \<and> no_tries s"
      "ticket_step (\<lambda>d. ad (of_nat d)) e s = Some s'" for e s s'
    using that ticket_inv_step[OF _ that(3)] below_step[OF _ _ that(3)] no_tries_step[OF _ _ that(3)]
    by blast
  show "ticket_step ad e (ticket_words a)
      = map_option ticket_words (ticket_step (\<lambda>d. ad (of_nat d)) e a)"
    if "ticket_inv a \<and> below n a \<and> no_tries a" for e a
    using that ticket_words_step no_tries_fresh by blast
qed

lemma ticket_words_init [simp]: "ticket_words ticket_init = ticket_init"
  by (simp add: ticket_words_def ticket_init_def)

lemma ticket_words_holds [simp]: "ticket_holds (ticket_words s) i = ticket_holds s i"
  by (cases "tk_pcs s i") (simp_all add: ticket_holds_def)

lemma map_pc_ticket [simp]:
  "pc_ticket (f h) (map_ticket_pc f g p) = map_option f (pc_ticket h p)"
  by (cases p) simp_all

lemma below_init: "n \<le> 2 ^ 16 \<Longrightarrow> below n ticket_init"
  by (simp add: below_def ticket_init_def)

lemma lock_only_run:
  assumes "n \<le> 2 ^ 16" and "list_all (\<lambda>e. event_tid e < n \<and> \<not> is_try e) es"
    and "run (ticket_step ad) es ticket_init = Some s"
  obtains a where "s = ticket_words a" and "ticket_inv a" and "below n a"
proof -
  let ?astep = "ticket_step (\<lambda>d. ad (of_nat d))"
  have inv: "ticket_inv ticket_init \<and> below n ticket_init \<and> no_tries ticket_init"
    using ticket_inv_init below_init[OF assms(1)] by (simp add: no_tries_def ticket_init_def)
  then have "run (ticket_step ad) es (ticket_words ticket_init)
      = map_option ticket_words (run ?astep es ticket_init)"
    using assms(2) no_tries_fresh by (intro lock_only.run_conc_eq) auto
  then obtain a where a: "run ?astep es ticket_init = Some a" and "s = ticket_words a"
    using assms(3) by (auto simp: map_option_case split: option.splits)
  then show ?thesis
    using that lock_only.run_inv[OF assms(2) inv a] by blast
qed

subsection \<open>Properties of the 16-bit lock\<close>

text \<open>
  C15: with at most \<open>2 ^ 16\<close> threads, the 16-bit lock does exactly what the ideal lock
  with unbounded tickets does, in every interleaving in which fewer than \<open>2 ^ 16\<close> tickets
  are drawn between the load of the head by a \<open>try_lock\<close> and its compare-exchange.
\<close>

theorem ticket_lock_refines_ideal:
  assumes "n \<le> 2 ^ 16" and "list_all (\<lambda>e. event_tid e < n) es"
    and "run_through ticket_fresh (ticket_step (\<lambda>d. ad (of_nat d))) es ticket_init = Some a"
  shows "run (ticket_step ad) es ticket_init = Some (ticket_words a) \<and>
         (ticket_holds (ticket_words a) i \<longrightarrow> ticket_holds (ticket_words a) j \<longrightarrow> i = j)"
proof -
  have inv: "ticket_inv ticket_init \<and> below n ticket_init"
    using ticket_inv_init below_init[OF assms(1)] by simp
  have "ticket_inv a"
    using ticket.run_inv[OF assms(2) inv run_through_run[OF assms(3)]] by simp
  then show ?thesis
    using ticket.run_conc[OF assms(2) inv assms(3)] ticket_inv_exclusive[of a i j] by simp
qed

theorem ticket_lock_refines_ideal_witness:
  "\<exists>a. run_through ticket_fresh (ticket_step (\<lambda>d b. b))
           [TryLock 0, Step 0, Lock 1 (), Step 0, Step 0, Step 1, Step 1] ticket_init = Some a \<and>
       run (ticket_step (\<lambda>d b. b)) [TryLock 0, Step 0, Lock 1 (), Step 0, Step 0, Step 1, Step 1]
           ticket_init = Some (ticket_words a) \<and>
       ticket_holds (ticket_words a) 0 \<and> ticket_of (ticket_words a) 1 = Some 1"
proof -
  let ?es = "[TryLock 0, Step 0, Lock 1 (), Step 0, Step 0, Step 1, Step 1]"
  obtain a where a: "run_through ticket_fresh (ticket_step (\<lambda>d b. b)) ?es ticket_init = Some a"
    and "tk_pcs a 0 = T_Held" "tk_pcs a 1 = T_Backoff () 1 0" "tk_head a = 0"
    by (simp add: ticket_init_def ticket_fresh_def)
  then show ?thesis
    using ticket_lock_refines_ideal[of 2 ?es "\<lambda>d b. b" a 0 0] by (auto simp: ticket_holds_def)
qed

text \<open>
  C8: mutual exclusion of the 16-bit lock for clients that use \<open>lock\<close> and
  \<open>unlock\<close>, with at most \<open>2 ^ 16\<close> threads, however often the counters wrap around.
\<close>

theorem ticket_lock_mutual_exclusion:
  assumes "n \<le> 2 ^ 16" and "list_all (\<lambda>e. event_tid e < n \<and> \<not> is_try e) es"
    and "run (ticket_step ad) es (ticket_init :: (16 word, 'b) ticket_state) = Some s"
    and "ticket_holds s i" and "ticket_holds s j"
  shows "i = j"
proof -
  obtain a where "s = ticket_words a" and "ticket_inv a"
    using lock_only_run[OF assms(1-3)] by blast
  then show ?thesis
    using assms(4,5) ticket_inv_exclusive by simp
qed

theorem ticket_lock_mutual_exclusion_witness:
  "\<exists>s. run (ticket_step (\<lambda>d b. b)) [Lock 0 (), Lock 1 (), Step 0, Step 1, Step 0]
         (ticket_init :: (16 word, unit) ticket_state) = Some s \<and>
       ticket_holds s 0 \<and> (\<forall>j. ticket_holds s j = (j = 0))"
proof -
  let ?es = "[Lock 0 (), Lock 1 (), Step 0, Step 1, Step 0]"
  obtain s where s: "run (ticket_step (\<lambda>d b. b)) ?es (ticket_init :: (16 word, unit) ticket_state) = Some s"
    and "ticket_holds s 0"
    by (simp add: ticket_init_def ticket_holds_def)
  then show ?thesis
    using ticket_lock_mutual_exclusion[OF _ _ s, of 2 _ 0] by auto
qed






end
