(* ===== verification/Evenk_Shared_Ticket_Lock.thy ===== *)
theory Evenk_Shared_Ticket_Lock
  imports Evenk_Prelude
begin

text \<open>
  \<^verbatim>\<open>evenk/spinlock.h\<close>, class \<open>shared_ticket_lock\<close>.

  The width of \<open>base_type\<close> is the type variable \<open>'a\<close>: the source has
  \<open>std::uint32_t\<close>, and \<open>std::uint8_t\<close> with \<^verbatim>\<open>EVENK_SHARED_TICKET_TESTING\<close>.
  The low half of a counter counts the exclusive requests and the high half the shared ones;
  a carry out of the low half goes into the high half of both counters.

  The specification is a fair readers-writer queue (\<open>rw_op\<close>): requests are numbered by
  unbounded counters, a writer enters when everything requested before it has left, a reader
  when every writer before it has left.  The word-level lock simulates it.
\<close>

subsection \<open>The lock\<close>

definition shared_step :: "'a::len word" where
  "shared_step = push_bit (LENGTH('a) div 2) 1"

definition exclusive_mask :: "'a::len word" where
  "exclusive_mask = shared_step - 1"

definition exclusive_step :: "'a::len word" where
  "exclusive_step = 1"

datatype 'b shared_event =
    SLock tid 'b | STryLock tid | SUnlock tid
  | SLockShared tid 'b | STryLockShared tid | SUnlockShared tid
  | SStep tid

fun shared_tid :: "'b shared_event \<Rightarrow> tid" where
  "shared_tid (SLock i b) = i"
| "shared_tid (STryLock i) = i"
| "shared_tid (SUnlock i) = i"
| "shared_tid (SLockShared i b) = i"
| "shared_tid (STryLockShared i) = i"
| "shared_tid (SUnlockShared i) = i"
| "shared_tid (SStep i) = i"

fun is_shared_try :: "'b shared_event \<Rightarrow> bool" where
  "is_shared_try (STryLock i) = True"
| "is_shared_try (STryLockShared i) = True"
| "is_shared_try _ = False"

datatype ('n, 'b) shared_pc =
    S_Idle
  | S_ExFetch 'b           \<comment> \<open>\<open>lock\<close>: at \<open>tail_.fetch_add(exclusive_step)\<close>\<close>
  | S_ExLoad 'b 'n         \<comment> \<open>\<open>lock\<close>: at \<open>head_.load\<close>, with \<open>tail\<close>\<close>
  | S_ExBackoff 'b 'n 'n   \<comment> \<open>\<open>lock\<close>: at the back-off, with \<open>tail\<close> and \<open>head\<close>\<close>
  | S_ExHeld
  | S_TryExHead            \<comment> \<open>\<open>try_lock\<close>\<close>
  | S_TryExTail 'n
  | S_TryExCas 'n 'n
  | S_ExUnlHead            \<comment> \<open>\<open>unlock\<close>: at \<open>head_.load\<close>\<close>
  | S_ExUnlStore 'n        \<comment> \<open>\<open>unlock\<close>: at \<open>head_.store\<close>\<close>
  | S_ShFetch 'b           \<comment> \<open>\<open>lock_shared\<close>: at \<open>tail_.fetch_add(shared_step)\<close>\<close>
  | S_ShLoad 'b 'n         \<comment> \<open>\<open>lock_shared\<close>: at \<open>head_.load\<close>, with the masked \<open>tail\<close>\<close>
  | S_ShBackoff 'b 'n 'n
  | S_ShHeld
  | S_TryShHead            \<comment> \<open>\<open>try_lock_shared\<close>\<close>
  | S_TryShTail 'n
  | S_TryShCas 'n 'n
  | S_ShUnl                \<comment> \<open>\<open>unlock_shared\<close>: at \<open>head_.fetch_add(shared_step)\<close>\<close>

record ('n, 'b) shared_state =
  sl_head :: 'n
  sl_tail :: 'n
  sl_pcs :: "tid \<Rightarrow> ('n, 'b) shared_pc"

definition shared_init :: "('a::len word, 'b) shared_state" where
  "shared_init = \<lparr>sl_head = 0, sl_tail = 0, sl_pcs = (\<lambda>_. S_Idle)\<rparr>"

abbreviation shared_goto ::
  "('n, 'b) shared_state \<Rightarrow> tid \<Rightarrow> ('n, 'b) shared_pc \<Rightarrow> ('n, 'b) shared_state" where
  "shared_goto s i p \<equiv> s\<lparr>sl_pcs := (sl_pcs s)(i := p)\<rparr>"

text \<open>The next atomic access of a thread, by its position in the code.\<close>

fun shared_exec ::
  "('a::len word \<Rightarrow> 'b \<Rightarrow> 'b) \<Rightarrow> tid \<Rightarrow> ('a word, 'b) shared_pc \<Rightarrow> ('a word, 'b) shared_state \<Rightarrow>
   ('a word, 'b) shared_state option" where
  "shared_exec ad i S_Idle s = None"
| "shared_exec ad i S_ExHeld s = None"
| "shared_exec ad i S_ShHeld s = None"
| "shared_exec ad i (S_ExFetch b) s =
     Some ((shared_goto s i (S_ExLoad b (sl_tail s)))\<lparr>sl_tail := sl_tail s + exclusive_step\<rparr>)"
| "shared_exec ad i (S_ExLoad b tail) s =
     (if tail = sl_head s then Some (shared_goto s i S_ExHeld)
      else Some (shared_goto s i (S_ExBackoff b tail (sl_head s))))"
| "shared_exec ad i (S_ExBackoff b tail head) s =
     Some (shared_goto s i (S_ExLoad (ad (tail - head) b) tail))"
| "shared_exec ad i S_TryExHead s = Some (shared_goto s i (S_TryExTail (sl_head s)))"
| "shared_exec ad i (S_TryExTail head) s = Some (shared_goto s i (S_TryExCas head (sl_tail s)))"
| "shared_exec ad i (S_TryExCas head tail) s =
     (if head = tail \<and> sl_tail s = tail
      then Some ((shared_goto s i S_ExHeld)\<lparr>sl_tail := tail + exclusive_step\<rparr>)
      else Some (shared_goto s i S_Idle))"
| "shared_exec ad i S_ExUnlHead s = Some (shared_goto s i (S_ExUnlStore (sl_head s)))"
| "shared_exec ad i (S_ExUnlStore head) s =
     Some ((shared_goto s i S_Idle)\<lparr>sl_head := head + exclusive_step\<rparr>)"
| "shared_exec ad i (S_ShFetch b) s =
     Some ((shared_goto s i (S_ShLoad b (sl_tail s AND exclusive_mask)))
             \<lparr>sl_tail := sl_tail s + shared_step\<rparr>)"
| "shared_exec ad i (S_ShLoad b tail) s =
     (if tail = sl_head s AND exclusive_mask then Some (shared_goto s i S_ShHeld)
      else Some (shared_goto s i (S_ShBackoff b tail (sl_head s))))"
| "shared_exec ad i (S_ShBackoff b tail head) s =
     Some (shared_goto s i (S_ShLoad (ad (tail - head) b) tail))"
| "shared_exec ad i S_TryShHead s = Some (shared_goto s i (S_TryShTail (sl_head s)))"
| "shared_exec ad i (S_TryShTail head) s = Some (shared_goto s i (S_TryShCas head (sl_tail s)))"
| "shared_exec ad i (S_TryShCas head tail) s =
     (if head AND exclusive_mask = tail AND exclusive_mask \<and> sl_tail s = tail
      then Some ((shared_goto s i S_ShHeld)\<lparr>sl_tail := tail + shared_step\<rparr>)
      else Some (shared_goto s i S_Idle))"
| "shared_exec ad i S_ShUnl s = Some ((shared_goto s i S_Idle)\<lparr>sl_head := sl_head s + shared_step\<rparr>)"

fun shared_lock_step ::
  "('a::len word \<Rightarrow> 'b \<Rightarrow> 'b) \<Rightarrow> 'b shared_event \<Rightarrow> ('a word, 'b) shared_state \<Rightarrow>
   ('a word, 'b) shared_state option" where
  "shared_lock_step ad (SLock i b) s =
     (if sl_pcs s i = S_Idle then Some (shared_goto s i (S_ExFetch b)) else None)"
| "shared_lock_step ad (STryLock i) s =
     (if sl_pcs s i = S_Idle then Some (shared_goto s i S_TryExHead) else None)"
| "shared_lock_step ad (SUnlock i) s =
     (if sl_pcs s i = S_ExHeld then Some (shared_goto s i S_ExUnlHead) else None)"
| "shared_lock_step ad (SLockShared i b) s =
     (if sl_pcs s i = S_Idle then Some (shared_goto s i (S_ShFetch b)) else None)"
| "shared_lock_step ad (STryLockShared i) s =
     (if sl_pcs s i = S_Idle then Some (shared_goto s i S_TryShHead) else None)"
| "shared_lock_step ad (SUnlockShared i) s =
     (if sl_pcs s i = S_ShHeld then Some (shared_goto s i S_ShUnl) else None)"
| "shared_lock_step ad (SStep i) s = shared_exec ad i (sl_pcs s i) s"

fun pc_ex_holds :: "('n, 'b) shared_pc \<Rightarrow> bool" where
  "pc_ex_holds S_ExHeld = True"
| "pc_ex_holds S_ExUnlHead = True"
| "pc_ex_holds (S_ExUnlStore h) = True"
| "pc_ex_holds _ = False"

fun pc_sh_holds :: "('n, 'b) shared_pc \<Rightarrow> bool" where
  "pc_sh_holds S_ShHeld = True"
| "pc_sh_holds S_ShUnl = True"
| "pc_sh_holds _ = False"

definition exclusive_holds :: "('n, 'b) shared_state \<Rightarrow> tid \<Rightarrow> bool" where
  "exclusive_holds s i \<longleftrightarrow> pc_ex_holds (sl_pcs s i)"

definition shared_holds :: "('n, 'b) shared_state \<Rightarrow> tid \<Rightarrow> bool" where
  "shared_holds s i \<longleftrightarrow> pc_sh_holds (sl_pcs s i)"

subsection \<open>The specification: a fair readers-writer queue\<close>

text \<open>
  \<open>Wr x y\<close> is a writer requested after \<open>x\<close> writers and \<open>y\<close> readers, \<open>Rd x\<close> a
  reader requested after \<open>x\<close> writers.  The counters count the requests made and the
  requests that have left, of both kinds.
\<close>

datatype request = Wr nat nat | Rd nat

record rw_queue =
  left_wr :: nat
  left_rd :: nat
  made_wr :: nat
  made_rd :: nat
  req :: "tid \<Rightarrow> request option"
  inside :: "tid set"

definition rw_init :: rw_queue where
  "rw_init = \<lparr>left_wr = 0, left_rd = 0, made_wr = 0, made_rd = 0, req = Map.empty, inside = {}\<rparr>"

inductive rw_op :: "rw_queue \<Rightarrow> rw_queue \<Rightarrow> bool" where
  request_wr: "req a i = None \<Longrightarrow>
     rw_op a (a\<lparr>req := (req a)(i \<mapsto> Wr (made_wr a) (made_rd a)), made_wr := made_wr a + 1\<rparr>)"
| request_rd: "req a i = None \<Longrightarrow>
     rw_op a (a\<lparr>req := (req a)(i \<mapsto> Rd (made_wr a)), made_rd := made_rd a + 1\<rparr>)"
| enter_wr: "req a i = Some (Wr (left_wr a) (left_rd a)) \<Longrightarrow> rw_op a (a\<lparr>inside := insert i (inside a)\<rparr>)"
| enter_rd: "req a i = Some (Rd (left_wr a)) \<Longrightarrow> rw_op a (a\<lparr>inside := insert i (inside a)\<rparr>)"
| leave_wr: "req a i = Some (Wr x y) \<Longrightarrow> i \<in> inside a \<Longrightarrow>
     rw_op a (a\<lparr>req := (req a)(i := None), inside := inside a - {i}, left_wr := left_wr a + 1\<rparr>)"
| leave_rd: "req a i = Some (Rd x) \<Longrightarrow> i \<in> inside a \<Longrightarrow>
     rw_op a (a\<lparr>req := (req a)(i := None), inside := inside a - {i}, left_rd := left_rd a + 1\<rparr>)"

definition readers_upto :: "(tid \<Rightarrow> request option) \<Rightarrow> nat \<Rightarrow> tid set" where
  "readers_upto r x = {j. \<exists>y \<le> x. r j = Some (Rd y)}"

definition rw_inv :: "nat \<Rightarrow> rw_queue \<Rightarrow> bool" where
  "rw_inv n a \<longleftrightarrow>
     (\<forall>i. n \<le> i \<longrightarrow> req a i = None) \<and>
     left_wr a \<le> made_wr a \<and> left_rd a \<le> made_rd a \<and>
     (\<forall>i x y. req a i = Some (Wr x y) \<longrightarrow>
        left_wr a \<le> x \<and> x < made_wr a \<and> left_rd a \<le> y \<and> card (readers_upto (req a) x) = y - left_rd a) \<and>
     (\<forall>i j x y z. req a i = Some (Wr x y) \<longrightarrow> req a j = Some (Wr x z) \<longrightarrow> i = j) \<and>
     (\<forall>x. left_wr a \<le> x \<longrightarrow> x < made_wr a \<longrightarrow> (\<exists>i y. req a i = Some (Wr x y))) \<and>
     (\<forall>i x. req a i = Some (Rd x) \<longrightarrow> left_wr a \<le> x \<and> x \<le> made_wr a) \<and>
     card (readers_upto (req a) (made_wr a)) = made_rd a - left_rd a \<and>
     (\<forall>i \<in> inside a. req a i = Some (Wr (left_wr a) (left_rd a)) \<or> req a i = Some (Rd (left_wr a)))"

subsection \<open>The encoding of the queue in the two counters\<close>

definition enc :: "nat \<Rightarrow> nat \<Rightarrow> 'a::len word" where
  "enc x y = of_nat (x + 2 ^ (LENGTH('a) div 2) * y)"

fun pc_rel :: "rw_queue \<Rightarrow> 'a::len word \<Rightarrow> tid \<Rightarrow> ('a word, 'b) shared_pc \<Rightarrow> bool" where
  "pc_rel a h i S_Idle \<longleftrightarrow> req a i = None"
| "pc_rel a h i (S_ExFetch b) \<longleftrightarrow> req a i = None"
| "pc_rel a h i (S_ShFetch b) \<longleftrightarrow> req a i = None"
| "pc_rel a h i (S_ExLoad b t) \<longleftrightarrow> i \<notin> inside a \<and> (\<exists>x y. req a i = Some (Wr x y) \<and> t = enc x y)"
| "pc_rel a h i (S_ExBackoff b t u) \<longleftrightarrow> i \<notin> inside a \<and> (\<exists>x y. req a i = Some (Wr x y) \<and> t = enc x y)"
| "pc_rel a h i S_ExHeld \<longleftrightarrow> i \<in> inside a \<and> (\<exists>x y. req a i = Some (Wr x y))"
| "pc_rel a h i S_ExUnlHead \<longleftrightarrow> i \<in> inside a \<and> (\<exists>x y. req a i = Some (Wr x y))"
| "pc_rel a h i (S_ExUnlStore u) \<longleftrightarrow> i \<in> inside a \<and> (\<exists>x y. req a i = Some (Wr x y)) \<and> u = h"
| "pc_rel a h i (S_ShLoad b t) \<longleftrightarrow>
     i \<notin> inside a \<and> (\<exists>x. req a i = Some (Rd x) \<and> t = enc x 0 AND exclusive_mask)"
| "pc_rel a h i (S_ShBackoff b t u) \<longleftrightarrow>
     i \<notin> inside a \<and> (\<exists>x. req a i = Some (Rd x) \<and> t = enc x 0 AND exclusive_mask)"
| "pc_rel a h i S_ShHeld \<longleftrightarrow> i \<in> inside a \<and> (\<exists>x. req a i = Some (Rd x))"
| "pc_rel a h i S_ShUnl \<longleftrightarrow> i \<in> inside a \<and> (\<exists>x. req a i = Some (Rd x))"
| "pc_rel a h i _ \<longleftrightarrow> False"

definition shared_rel :: "rw_queue \<Rightarrow> ('a::len word, 'b) shared_state \<Rightarrow> bool" where
  "shared_rel a s \<longleftrightarrow>
     sl_head s = enc (left_wr a) (left_rd a) \<and> sl_tail s = enc (made_wr a) (made_rd a) \<and>
     (\<forall>i. pc_rel a (sl_head s) i (sl_pcs s i))"

subsection \<open>The queue excludes\<close>

lemma rw_invD:
  assumes "rw_inv n a"
  shows "n \<le> i \<Longrightarrow> req a i = None"
    and "left_wr a \<le> made_wr a" and "left_rd a \<le> made_rd a"
    and "req a i = Some (Wr x y) \<Longrightarrow> left_wr a \<le> x"
    and "req a i = Some (Wr x y) \<Longrightarrow> x < made_wr a"
    and "req a i = Some (Wr x y) \<Longrightarrow> left_rd a \<le> y"
    and "req a i = Some (Wr x y) \<Longrightarrow> card (readers_upto (req a) x) = y - left_rd a"
    and "req a i = Some (Wr x y) \<Longrightarrow> req a j = Some (Wr x z) \<Longrightarrow> i = j"
    and "left_wr a \<le> x \<Longrightarrow> x < made_wr a \<Longrightarrow> \<exists>i y. req a i = Some (Wr x y)"
    and "req a i = Some (Rd x) \<Longrightarrow> left_wr a \<le> x"
    and "req a i = Some (Rd x) \<Longrightarrow> x \<le> made_wr a"
    and "card (readers_upto (req a) (made_wr a)) = made_rd a - left_rd a"
    and "i \<in> inside a \<Longrightarrow> req a i = Some (Wr (left_wr a) (left_rd a)) \<or> req a i = Some (Rd (left_wr a))"
  using assms unfolding rw_inv_def by simp_all

lemma rw_invI:
  assumes "\<And>i. n \<le> i \<Longrightarrow> req a i = None"
    and "left_wr a \<le> made_wr a" and "left_rd a \<le> made_rd a"
    and "\<And>i x y. req a i = Some (Wr x y) \<Longrightarrow> left_wr a \<le> x \<and> x < made_wr a \<and> left_rd a \<le> y"
    and "\<And>i x y. req a i = Some (Wr x y) \<Longrightarrow> card (readers_upto (req a) x) = y - left_rd a"
    and "\<And>i j x y z. req a i = Some (Wr x y) \<Longrightarrow> req a j = Some (Wr x z) \<Longrightarrow> i = j"
    and "\<And>x. left_wr a \<le> x \<Longrightarrow> x < made_wr a \<Longrightarrow> \<exists>i y. req a i = Some (Wr x y)"
    and "\<And>i x. req a i = Some (Rd x) \<Longrightarrow> left_wr a \<le> x \<and> x \<le> made_wr a"
    and "card (readers_upto (req a) (made_wr a)) = made_rd a - left_rd a"
    and "\<And>i. i \<in> inside a \<Longrightarrow>
           req a i = Some (Wr (left_wr a) (left_rd a)) \<or> req a i = Some (Rd (left_wr a))"
  shows "rw_inv n a"
  unfolding rw_inv_def using assms by blast

lemma rw_inv_init: "rw_inv n rw_init"
  by (simp add: rw_inv_def rw_init_def readers_upto_def)

lemma finite_readers: "rw_inv n a \<Longrightarrow> finite (readers_upto (req a) x)"
  by (rule finite_subset[of _ "{..<n}"])
    (auto simp: readers_upto_def not_le[symmetric] dest: rw_invD(1))

text \<open>Two writers, or a writer and a reader, are never inside together.\<close>

lemma rw_writer_alone:
  assumes inv: "rw_inv n a" and i: "i \<in> inside a" "req a i = Some (Wr x y)" and j: "j \<in> inside a"
  shows "i = j"
proof -
  have xy: "x = left_wr a" "y = left_rd a"
    using rw_invD(13)[OF inv i(1)] i(2) by auto
  show ?thesis
  proof (cases "req a j = Some (Rd (left_wr a))")
    case True
    then have "j \<in> readers_upto (req a) x"
      by (auto simp: readers_upto_def xy)
    moreover have "card (readers_upto (req a) x) = 0"
      using rw_invD(7)[OF inv i(2)] xy by simp
    ultimately show ?thesis
      using finite_readers[OF inv, of x] by auto
  next
    case False
    then show ?thesis
      using rw_invD(13)[OF inv j] rw_invD(8)[OF inv i(2)] xy by blast
  qed
qed

lemma readers_upto_wr [simp]:
  "r i = None \<Longrightarrow> readers_upto (r(i \<mapsto> Wr x y)) z = readers_upto r z"
  by (auto simp: readers_upto_def)

lemma readers_upto_rd [simp]:
  "r i = None \<Longrightarrow> readers_upto (r(i \<mapsto> Rd x)) z
     = (if x \<le> z then insert i (readers_upto r z) else readers_upto r z)"
  by (auto simp: readers_upto_def)

lemma readers_upto_None [simp]: "readers_upto (r(i := None)) z = readers_upto r z - {i}"
  by (auto simp: readers_upto_def)

lemma readers_upto_mem [simp]:
  "r i = None \<Longrightarrow> i \<notin> readers_upto r z"
  "r i = Some (Wr x y) \<Longrightarrow> i \<notin> readers_upto r z"
  "r i = Some (Rd x) \<Longrightarrow> i \<in> readers_upto r z \<longleftrightarrow> x \<le> z"
  by (auto simp: readers_upto_def)

lemma readers_upto_all: "rw_inv n a \<Longrightarrow> made_wr a \<le> z \<Longrightarrow> readers_upto (req a) z = readers_upto (req a) (made_wr a)"
  unfolding readers_upto_def by (auto dest: rw_invD(11))

lemma rw_inv_request_wr:
  assumes inv: "rw_inv n a" and i: "req a i = None" "i < n"
  shows "rw_inv n (a\<lparr>req := (req a)(i \<mapsto> Wr (made_wr a) (made_rd a)), made_wr := made_wr a + 1\<rparr>)"
    (is "rw_inv n ?b")
proof (rule rw_invI)
  show "req ?b j = None" if "n \<le> j" for j
    using rw_invD(1)[OF inv that] i(2) that by simp
  show "left_wr ?b \<le> x \<and> x < made_wr ?b \<and> left_rd ?b \<le> y"
    if "req ?b j = Some (Wr x y)" for j x y
    using that rw_invD(2,3)[OF inv] rw_invD(4-6)[OF inv, of j x y] by (auto split: if_splits)
  show "card (readers_upto (req ?b) x) = y - left_rd ?b" if "req ?b j = Some (Wr x y)" for j x y
    using that rw_invD(7)[OF inv, of j x y] rw_invD(12)[OF inv] i(1) by (auto split: if_splits)
  show "j = k" if "req ?b j = Some (Wr x y)" "req ?b k = Some (Wr x z)" for j k x y z
    using that rw_invD(8)[OF inv, of j x y k z] rw_invD(5)[OF inv, of j x y] rw_invD(5)[OF inv, of k x z]
    by (auto split: if_splits)
  show "\<exists>j y. req ?b j = Some (Wr x y)" if x: "left_wr ?b \<le> x" "x < made_wr ?b" for x
  proof (cases "x = made_wr a")
    case True
    then have "req ?b i = Some (Wr x (made_rd a))" by simp
    then show ?thesis by blast
  next
    case False
    then obtain j y where "req a j = Some (Wr x y)"
      using rw_invD(9)[OF inv, of x] x by auto
    then have "req ?b j = Some (Wr x y)" using i(1) by auto
    then show ?thesis by blast
  qed
  show "left_wr ?b \<le> x \<and> x \<le> made_wr ?b" if "req ?b j = Some (Rd x)" for j x
    using that rw_invD(10,11)[OF inv, of j x] by (auto split: if_splits)
  show "card (readers_upto (req ?b) (made_wr ?b)) = made_rd ?b - left_rd ?b"
    using rw_invD(12)[OF inv] readers_upto_all[OF inv, of "Suc (made_wr a)"] i(1) by simp
  show "req ?b j = Some (Wr (left_wr ?b) (left_rd ?b)) \<or> req ?b j = Some (Rd (left_wr ?b))"
    if "j \<in> inside ?b" for j
    using rw_invD(13)[OF inv, of j] that i(1) by auto
qed (use rw_invD(2,3)[OF inv] in simp_all)

lemma rw_inv_request_rd:
  assumes inv: "rw_inv n a" and i: "req a i = None" "i < n"
  shows "rw_inv n (a\<lparr>req := (req a)(i \<mapsto> Rd (made_wr a)), made_rd := made_rd a + 1\<rparr>)"
    (is "rw_inv n ?b")
proof (rule rw_invI)
  have old: "req a j = Some (Wr x y)" if "req ?b j = Some (Wr x y)" for j x y
    using that by (auto split: if_splits)
  show "req ?b j = None" if "n \<le> j" for j
    using rw_invD(1)[OF inv that] i(2) that by simp
  show "left_wr ?b \<le> x \<and> x < made_wr ?b \<and> left_rd ?b \<le> y"
    if "req ?b j = Some (Wr x y)" for j x y
    using rw_invD(4-6)[OF inv old[OF that]] by simp
  show "card (readers_upto (req ?b) x) = y - left_rd ?b" if "req ?b j = Some (Wr x y)" for j x y
    using rw_invD(5,7)[OF inv old[OF that]] i(1) by simp
  show "j = k" if "req ?b j = Some (Wr x y)" "req ?b k = Some (Wr x z)" for j k x y z
    using rw_invD(8)[OF inv old[OF that(1)] old[OF that(2)]] .
  show "\<exists>j y. req ?b j = Some (Wr x y)" if x: "left_wr ?b \<le> x" "x < made_wr ?b" for x
  proof -
    obtain j y where "req a j = Some (Wr x y)"
      using rw_invD(9)[OF inv, of x] x by auto
    then have "req ?b j = Some (Wr x y)" using i(1) by auto
    then show ?thesis by blast
  qed
  show "left_wr ?b \<le> x \<and> x \<le> made_wr ?b" if "req ?b j = Some (Rd x)" for j x
    using that rw_invD(10,11)[OF inv, of j x] rw_invD(2)[OF inv] by (auto split: if_splits)
  show "card (readers_upto (req ?b) (made_wr ?b)) = made_rd ?b - left_rd ?b"
    using rw_invD(3,12)[OF inv] finite_readers[OF inv] i(1) by simp
  show "req ?b j = Some (Wr (left_wr ?b) (left_rd ?b)) \<or> req ?b j = Some (Rd (left_wr ?b))"
    if "j \<in> inside ?b" for j
    using rw_invD(13)[OF inv, of j] that i(1) by auto
qed (use rw_invD(2,3)[OF inv] in simp_all)

lemma rw_inv_enter:
  assumes inv: "rw_inv n a"
    and i: "req a i = Some (Wr (left_wr a) (left_rd a)) \<or> req a i = Some (Rd (left_wr a))"
  shows "rw_inv n (a\<lparr>inside := insert i (inside a)\<rparr>)" (is "rw_inv n ?b")
proof -
  have "\<forall>j \<in> insert i (inside a).
      req a j = Some (Wr (left_wr a) (left_rd a)) \<or> req a j = Some (Rd (left_wr a))"
    using rw_invD(13)[OF inv] i by blast
  then show ?thesis
    using inv by (simp add: rw_inv_def)
qed

lemma rw_inv_leave_wr:
  assumes inv: "rw_inv n a" and i: "req a i = Some (Wr x y)" "i \<in> inside a"
  shows "rw_inv n (a\<lparr>req := (req a)(i := None), inside := inside a - {i}, left_wr := left_wr a + 1\<rparr>)"
proof -
  have x: "x = left_wr a" and y: "y = left_rd a"
    using rw_invD(13)[OF inv i(2)] i(1) by auto
  have alone: "inside a - {i} = {}"
    using rw_writer_alone[OF inv i(2,1)] by blast
  have wr: "left_wr a < x'" if "req a j = Some (Wr x' y')" "j \<noteq> i" for j x' y'
  proof -
    have "x' \<noteq> left_wr a"
      using rw_invD(8)[OF inv that(1), of i y] i(1) x that(2) by auto
    then show ?thesis using rw_invD(4)[OF inv that(1)] by simp
  qed
  have rd: "left_wr a < x'" if "req a j = Some (Rd x')" for j x'
  proof (rule ccontr)
    assume "\<not> left_wr a < x'"
    then have "j \<in> readers_upto (req a) x" using that x by simp
    moreover have "card (readers_upto (req a) x) = 0" using rw_invD(7)[OF inv i(1)] y by simp
    ultimately show False using finite_readers[OF inv, of x] by auto
  qed
  show ?thesis (is "rw_inv n ?b")
  proof (rule rw_invI)
    have old: "req a j = Some q" "j \<noteq> i" if "req ?b j = Some q" for j q
      using that by (auto split: if_splits)
    show "req ?b j = None" if "n \<le> j" for j
      using rw_invD(1)[OF inv that] by simp
    show "left_wr ?b \<le> made_wr ?b"
      using rw_invD(5)[OF inv i(1)] x by simp
    show "left_wr ?b \<le> z \<and> z < made_wr ?b \<and> left_rd ?b \<le> y'"
      if "req ?b j = Some (Wr z y')" for j z y'
      using wr[OF old[OF that]] rw_invD(5,6)[OF inv old(1)[OF that]] by (simp add: Suc_le_eq)
    show "card (readers_upto (req ?b) z) = y' - left_rd ?b" if "req ?b j = Some (Wr z y')" for j z y'
      using rw_invD(7)[OF inv old(1)[OF that]] i(1) by simp
    show "j = k" if "req ?b j = Some (Wr z y')" "req ?b k = Some (Wr z y'')" for j k z y' y''
      by (rule rw_invD(8)[OF inv old(1)[OF that(1)] old(1)[OF that(2)]])
    show "\<exists>j y'. req ?b j = Some (Wr z y')" if z: "left_wr ?b \<le> z" "z < made_wr ?b" for z
    proof -
      obtain j y' where j: "req a j = Some (Wr z y')"
        using rw_invD(9)[OF inv, of z] z by auto
      then have "j \<noteq> i" using i(1) x z by auto
      with j have "req ?b j = Some (Wr z y')" by simp
      then show ?thesis by blast
    qed
    show "left_wr ?b \<le> z \<and> z \<le> made_wr ?b" if "req ?b j = Some (Rd z)" for j z
      using rd[OF old(1)[OF that]] rw_invD(11)[OF inv old(1)[OF that]] by (simp add: Suc_le_eq)
    show "card (readers_upto (req ?b) (made_wr ?b)) = made_rd ?b - left_rd ?b"
      using rw_invD(12)[OF inv] i(1) by simp
    show "req ?b j = Some (Wr (left_wr ?b) (left_rd ?b)) \<or> req ?b j = Some (Rd (left_wr ?b))"
      if "j \<in> inside ?b" for j
      using alone that by auto
  qed (use rw_invD(3)[OF inv] in simp)
qed

lemma rw_inv_leave_rd:
  assumes inv: "rw_inv n a" and i: "req a i = Some (Rd x)" "i \<in> inside a"
  shows "rw_inv n (a\<lparr>req := (req a)(i := None), inside := inside a - {i}, left_rd := left_rd a + 1\<rparr>)"
proof -
  have x: "x = left_wr a"
    using rw_invD(13)[OF inv i(2)] i(1) by auto
  have dec: "card (readers_upto (req a) z - {i}) = card (readers_upto (req a) z) - 1"
      "0 < card (readers_upto (req a) z)" if "left_wr a \<le> z" for z
  proof -
    have "i \<in> readers_upto (req a) z" using i(1) x that by simp
    then show "card (readers_upto (req a) z - {i}) = card (readers_upto (req a) z) - 1"
        "0 < card (readers_upto (req a) z)"
      using finite_readers[OF inv, of z] by (auto simp: card_gt_0_iff)
  qed
  have no_wr: "req a j \<noteq> Some (Wr (left_wr a) (left_rd a))" if "j \<in> inside a" for j
    using rw_writer_alone[OF inv that _ i(2)] i(1) by (metis option.inject request.distinct(1))
  have lt: "left_rd a < made_rd a"
    using dec(2)[of "made_wr a"] rw_invD(2,12)[OF inv] by simp
  show ?thesis (is "rw_inv n ?b")
  proof (rule rw_invI)
    have old: "req a j = Some q" "j \<noteq> i" if "req ?b j = Some q" for j q
      using that by (auto split: if_splits)
    show "req ?b j = None" if "n \<le> j" for j
      using rw_invD(1)[OF inv that] by simp
    show "left_wr ?b \<le> z \<and> z < made_wr ?b \<and> left_rd ?b \<le> y'"
      if "req ?b j = Some (Wr z y')" for j z y'
    proof -
      have j: "req a j = Some (Wr z y')" using old(1)[OF that] .
      then show ?thesis
        using rw_invD(4,5,7)[OF inv j] dec(2)[of z] by simp
    qed
    show "card (readers_upto (req ?b) z) = y' - left_rd ?b" if "req ?b j = Some (Wr z y')" for j z y'
    proof -
      have j: "req a j = Some (Wr z y')" using old(1)[OF that] .
      then show ?thesis
        using rw_invD(4,7)[OF inv j] dec[of z] by simp
    qed
    show "j = k" if "req ?b j = Some (Wr z y')" "req ?b k = Some (Wr z y'')" for j k z y' y''
      by (rule rw_invD(8)[OF inv old(1)[OF that(1)] old(1)[OF that(2)]])
    show "\<exists>j y'. req ?b j = Some (Wr z y')" if z: "left_wr ?b \<le> z" "z < made_wr ?b" for z
    proof -
      obtain j y' where j: "req a j = Some (Wr z y')"
        using rw_invD(9)[OF inv, of z] z by auto
      then have "j \<noteq> i" using i(1) by auto
      with j have "req ?b j = Some (Wr z y')" by simp
      then show ?thesis by blast
    qed
    show "left_wr ?b \<le> z \<and> z \<le> made_wr ?b" if "req ?b j = Some (Rd z)" for j z
      using rw_invD(10,11)[OF inv old(1)[OF that]] by simp
    show "card (readers_upto (req ?b) (made_wr ?b)) = made_rd ?b - left_rd ?b"
      using rw_invD(2,12)[OF inv] dec[of "made_wr a"] by simp
    show "req ?b j = Some (Wr (left_wr ?b) (left_rd ?b)) \<or> req ?b j = Some (Rd (left_wr ?b))"
      if "j \<in> inside ?b" for j
      using rw_invD(13)[OF inv, of j] no_wr[of j] that by auto
  qed (use rw_invD(2)[OF inv] lt in simp_all)
qed

subsection \<open>The counters tell the requests apart\<close>

lemma shared_step_eq: "shared_step = (2 ^ (LENGTH('a) div 2) :: 'a::len word)"
  by (simp add: shared_step_def)

lemma enc_ex: "enc x y + exclusive_step = enc (x + 1) y"
  by (simp add: enc_def exclusive_step_def)

lemma enc_sh: "enc x y + shared_step = enc x (y + 1)"
  by (simp add: enc_def shared_step_eq algebra_simps)

lemma enc_mask: "(enc x y AND exclusive_mask :: 'a::len word) = of_nat (x mod 2 ^ (LENGTH('a) div 2))"
proof -
  let ?h = "LENGTH('a) div 2"
  have m: "(exclusive_mask :: 'a word) = mask ?h"
    by (simp add: exclusive_mask_def shared_step_eq mask_eq_exp_minus_1)
  have "(enc x y AND exclusive_mask :: 'a word) = of_nat (take_bit ?h (x + 2 ^ ?h * y))"
    by (simp only: enc_def m take_bit_eq_mask[symmetric] of_nat_take_bit)
  then show ?thesis by (simp add: take_bit_eq_mod)
qed

lemma writer_window:
  assumes inv: "rw_inv n a" and i: "req a i = Some (Wr x y)"
  shows "x < left_wr a + n" and "y < left_rd a + n"
proof -
  have lt: "i < n" using rw_invD(1)[OF inv, of i] i by (metis not_less option.distinct(1))
  have "{left_wr a..x} \<subseteq> (\<lambda>j. case req a j of Some (Wr u v) \<Rightarrow> u | _ \<Rightarrow> 0) ` {..<n}"
  proof
    fix z
    assume "z \<in> {left_wr a..x}"
    then obtain j v where j: "req a j = Some (Wr z v)"
      using rw_invD(9)[OF inv, of z] rw_invD(5)[OF inv i] by auto
    moreover have "j < n" using rw_invD(1)[OF inv, of j] j by (metis not_less option.distinct(1))
    ultimately show "z \<in> (\<lambda>j. case req a j of Some (Wr u v) \<Rightarrow> u | _ \<Rightarrow> 0) ` {..<n}"
      by (intro image_eqI[of _ _ j]) simp_all
  qed
  then have "card {left_wr a..x} \<le> card {..<n}"
    by (meson card_image_le card_mono finite_imageI finite_lessThan order_trans)
  then show "x < left_wr a + n" using rw_invD(4)[OF inv i] by simp
  have "readers_upto (req a) x \<subseteq> {..<n} - {i}"
    using i rw_invD(1)[OF inv] by (auto simp: readers_upto_def) (metis not_less option.distinct(1))
  then have "card (readers_upto (req a) x) \<le> card ({..<n} - {i})"
    by (intro card_mono) simp_all
  then show "y < left_rd a + n"
    using rw_invD(6,7)[OF inv i] lt by simp
qed

lemma reader_window:
  assumes inv: "rw_inv n a" and i: "req a i = Some (Rd x)"
  shows "x < left_wr a + n"
proof (cases "x = left_wr a")
  case True
  then show ?thesis using rw_invD(1)[OF inv, of i] i by (cases n) auto
next
  case False
  then obtain j y where j: "req a j = Some (Wr (x - 1) y)"
    using rw_invD(9)[OF inv, of "x - 1"] rw_invD(10,11)[OF inv i] by fastforce
  have "{left_wr a..x - 1} \<subseteq> (\<lambda>j. case req a j of Some (Wr u v) \<Rightarrow> u | _ \<Rightarrow> 0) ` ({..<n} - {i})"
  proof
    fix z
    assume "z \<in> {left_wr a..x - 1}"
    then obtain k v where k: "req a k = Some (Wr z v)"
      using rw_invD(9)[OF inv, of z] rw_invD(5)[OF inv j] by auto
    moreover have "k < n" using rw_invD(1)[OF inv, of k] k by (metis not_less option.distinct(1))
    moreover have "k \<noteq> i" using i k by auto
    ultimately show "z \<in> (\<lambda>j. case req a j of Some (Wr u v) \<Rightarrow> u | _ \<Rightarrow> 0) ` ({..<n} - {i})"
      by (intro image_eqI[of _ _ k]) simp_all
  qed
  then have "card {left_wr a..x - 1} \<le> card ({..<n} - {i})"
    by (meson card_image_le card_mono finite_imageI finite_Diff finite_lessThan order_trans)
  moreover have "i < n" using rw_invD(1)[OF inv, of i] i by (metis not_less option.distinct(1))
  ultimately show ?thesis
    using False rw_invD(10)[OF inv i] by simp
qed

text \<open>The tests of \<open>lock\<close> and of \<open>lock_shared\<close> are those of the queue.\<close>

lemma lock_test:
  assumes inv: "rw_inv n a" and n: "n \<le> 2 ^ (LENGTH('a::len) div 2)" and i: "req a i = Some (Wr x y)"
  shows "(enc x y :: 'a word) = enc (left_wr a) (left_rd a) \<longleftrightarrow> x = left_wr a \<and> y = left_rd a"
proof -
  let ?H = "2 ^ (LENGTH('a) div 2) :: nat"
  obtain d where d: "x = left_wr a + d" "d < ?H"
    using rw_invD(4)[OF inv i] writer_window(1)[OF inv i] n by (metis le_add_diff_inverse less_diff_conv2
        nat_add_left_cancel_less order_less_le_trans)
  obtain e where e: "y = left_rd a + e" "e < ?H"
    using rw_invD(6)[OF inv i] writer_window(2)[OF inv i] n by (metis le_add_diff_inverse
        nat_add_left_cancel_less order_less_le_trans)
  have "d + ?H * e < ?H + ?H * (?H - 1)"
    using d(2) e(2) by (intro add_less_le_mono mult_left_mono) auto
  also have "\<dots> = ?H * ?H" by (simp add: algebra_simps)
  also have "\<dots> \<le> 2 ^ LENGTH('a)"
    by (simp add: power_add[symmetric] mult_2[symmetric])
  finally have "(of_nat (left_wr a + ?H * left_rd a) :: 'a word) = of_nat (x + ?H * y)
      \<longleftrightarrow> left_wr a + ?H * left_rd a = x + ?H * y"
    using d e by (intro of_nat_eq_window) (simp_all add: algebra_simps)
  also have "\<dots> \<longleftrightarrow> d + ?H * e = 0" using d e by (simp add: algebra_simps)
  finally show ?thesis using d e unfolding enc_def by auto
qed

lemma lock_shared_test:
  assumes inv: "rw_inv n a" and n: "n \<le> 2 ^ (LENGTH('a::len) div 2)" and i: "req a i = Some (Rd x)"
  shows "(enc x 0 AND exclusive_mask :: 'a word) = enc (left_wr a) y AND exclusive_mask \<longleftrightarrow> x = left_wr a"
proof -
  let ?H = "2 ^ (LENGTH('a) div 2) :: nat"
  have le: "?H \<le> 2 ^ LENGTH('a)" by (intro power_increasing) auto
  have "unat (of_nat (z mod ?H) :: 'a word) = z mod ?H" for z
  proof -
    have "z mod ?H < 2 ^ LENGTH('a)" using le by (meson mod_less_divisor order_less_le_trans zero_less_numeral zero_less_power)
    then show ?thesis by (simp add: unat_of_nat)
  qed
  then have "(of_nat (x mod ?H) :: 'a word) = of_nat (left_wr a mod ?H) \<longleftrightarrow> x mod ?H = left_wr a mod ?H"
    by metis
  also have "\<dots> \<longleftrightarrow> x = left_wr a"
  proof
    assume "x mod ?H = left_wr a mod ?H"
    then have "?H dvd x - left_wr a"
      using rw_invD(10)[OF inv i] by (simp add: mod_eq_dvd_iff_nat)
    moreover have "x - left_wr a < ?H"
      using reader_window[OF inv i] rw_invD(10)[OF inv i] n by linarith
    ultimately show "x = left_wr a"
      using rw_invD(10)[OF inv i] by (metis dvd_imp_le diff_is_0_eq gr_zeroI le_antisym not_less)
  qed simp
  finally show ?thesis by (simp only: enc_mask)
qed

subsection \<open>The lock simulates the queue\<close>

lemma shared_pc_rel_other:
  assumes "pc_rel a h j p" and "req b j = req a j" and "j \<in> inside b \<longleftrightarrow> j \<in> inside a"
    and "h' = h \<or> \<not> pc_ex_holds p"
  shows "pc_rel b h' j p"
  using assms by (cases p) auto

lemma shared_relD:
  assumes "shared_rel a s"
  shows "sl_head s = enc (left_wr a) (left_rd a)" and "sl_tail s = enc (made_wr a) (made_rd a)"
    and "pc_rel a (sl_head s) i (sl_pcs s i)"
  using assms unfolding shared_rel_def by blast+

text \<open>Thread \<open>i\<close> moves and the queue performs the corresponding operation, or none.\<close>

lemma shared_rel_move:
  assumes rel: "shared_rel a s" and inv: "rw_inv n a"
    and heads: "h = enc (left_wr b) (left_rd b)" "t = enc (made_wr b) (made_rd b)"
    and new: "pc_rel b h i p"
    and others: "\<And>j. j \<noteq> i \<Longrightarrow> req b j = req a j \<and> (j \<in> inside b \<longleftrightarrow> j \<in> inside a)"
    and keep: "h = sl_head s \<or> (\<forall>j. j \<noteq> i \<longrightarrow> \<not> pc_ex_holds (sl_pcs s j))"
  shows "shared_rel b ((shared_goto s i p)\<lparr>sl_head := h, sl_tail := t\<rparr>)"
  unfolding shared_rel_def
proof (intro conjI allI)
  fix j
  show "pc_rel b (sl_head ((shared_goto s i p)\<lparr>sl_head := h, sl_tail := t\<rparr>)) j
      (sl_pcs ((shared_goto s i p)\<lparr>sl_head := h, sl_tail := t\<rparr>) j)"
    using new shared_pc_rel_other[OF shared_relD(3)[OF rel, of j], of b h] others[of j] keep by auto
qed (simp_all add: heads)

lemma holding_inside:
  "pc_rel a h i p \<Longrightarrow> pc_ex_holds p \<Longrightarrow> i \<in> inside a \<and> (\<exists>x y. req a i = Some (Wr x y))"
  "pc_rel a h i p \<Longrightarrow> pc_sh_holds p \<Longrightarrow> i \<in> inside a \<and> (\<exists>x. req a i = Some (Rd x))"
  by (cases p; simp)+

lemma not_inside: "rw_inv n a \<Longrightarrow> req a i = None \<Longrightarrow> i \<notin> inside a"
  using rw_invD(13) by fastforce

lemma others_do_not_hold:
  assumes "shared_rel a s" and "rw_inv n a" and "i \<in> inside a" and "j \<noteq> i"
  shows "\<not> pc_ex_holds (sl_pcs s j)"
  using rw_writer_alone[OF assms(2) _ _ assms(3)] holding_inside(1)[OF shared_relD(3)[OF assms(1)]] assms(4)
  by blast

definition rw_moves :: "nat \<Rightarrow> rw_queue \<Rightarrow> rw_queue \<Rightarrow> ('a::len word, 'b) shared_state \<Rightarrow> bool" where
  "rw_moves n a b s \<longleftrightarrow> (b = a \<or> rw_op a b) \<and> rw_inv n b \<and> shared_rel b s"

lemma sim_stay:
  assumes "shared_rel a s" and "rw_inv n a" and "pc_rel a (sl_head s) i p"
  shows "\<exists>a'. rw_moves n a a' (shared_goto s i p)"
proof -
  have "shared_rel a ((shared_goto s i p)\<lparr>sl_head := sl_head s, sl_tail := sl_tail s\<rparr>)"
    using assms shared_relD[OF assms(1)] by (intro shared_rel_move) auto
  then show ?thesis using assms(2) by (auto simp: rw_moves_def)
qed

lemma sim_request_wr:
  assumes rel: "shared_rel a s" and inv: "rw_inv n a" and i: "req a i = None" "i < n"
  shows "\<exists>a'. rw_moves n a a'
     ((shared_goto s i (S_ExLoad b (sl_tail s)))\<lparr>sl_tail := sl_tail s + exclusive_step\<rparr>)"
proof -
  let ?b = "a\<lparr>req := (req a)(i \<mapsto> Wr (made_wr a) (made_rd a)), made_wr := made_wr a + 1\<rparr>"
  have "shared_rel ?b ((shared_goto s i (S_ExLoad b (sl_tail s)))
      \<lparr>sl_head := sl_head s, sl_tail := sl_tail s + exclusive_step\<rparr>)"
    using shared_relD[OF rel] not_inside[OF inv i(1)]
    by (intro shared_rel_move[OF rel inv]) (auto simp: enc_ex)
  then show ?thesis
    using rw_inv_request_wr[OF inv i] rw_op.request_wr[of a i, OF i(1)] by (auto simp: rw_moves_def)
qed

lemma sim_request_rd:
  assumes rel: "shared_rel a s" and inv: "rw_inv n a" and i: "req a i = None" "i < n"
  shows "\<exists>a'. rw_moves n a a'
     ((shared_goto s i (S_ShLoad b (sl_tail s AND exclusive_mask)))\<lparr>sl_tail := sl_tail s + shared_step\<rparr>)"
proof -
  let ?b = "a\<lparr>req := (req a)(i \<mapsto> Rd (made_wr a)), made_rd := made_rd a + 1\<rparr>"
  have "shared_rel ?b ((shared_goto s i (S_ShLoad b (sl_tail s AND exclusive_mask)))
      \<lparr>sl_head := sl_head s, sl_tail := sl_tail s + shared_step\<rparr>)"
    using shared_relD[OF rel] not_inside[OF inv i(1)]
    by (intro shared_rel_move[OF rel inv]) (auto simp: enc_sh enc_mask)
  then show ?thesis
    using rw_inv_request_rd[OF inv i] rw_op.request_rd[of a i, OF i(1)] by (auto simp: rw_moves_def)
qed

lemma sim_enter:
  assumes rel: "shared_rel a s" and inv: "rw_inv n a"
    and i: "req a i = Some (Wr (left_wr a) (left_rd a)) \<and> p = S_ExHeld \<or>
            req a i = Some (Rd (left_wr a)) \<and> p = S_ShHeld"
  shows "\<exists>a'. rw_moves n a a' (shared_goto s i p)"
proof -
  let ?b = "a\<lparr>inside := insert i (inside a)\<rparr>"
  have "shared_rel ?b ((shared_goto s i p)\<lparr>sl_head := sl_head s, sl_tail := sl_tail s\<rparr>)"
    using shared_relD[OF rel] i by (intro shared_rel_move[OF rel inv]) auto
  moreover have "rw_op a ?b"
    using i rw_op.enter_wr[of a i] rw_op.enter_rd[of a i] by blast
  moreover have "rw_inv n ?b"
    using i by (intro rw_inv_enter[OF inv]) blast
  ultimately show ?thesis by (auto simp: rw_moves_def)
qed

lemma sim_leave_wr:
  assumes rel: "shared_rel a s" and inv: "rw_inv n a" and i: "req a i = Some (Wr x y)" "i \<in> inside a"
  shows "\<exists>a'. rw_moves n a a' ((shared_goto s i S_Idle)\<lparr>sl_head := sl_head s + exclusive_step\<rparr>)"
proof -
  let ?b = "a\<lparr>req := (req a)(i := None), inside := inside a - {i}, left_wr := left_wr a + 1\<rparr>"
  have "shared_rel ?b ((shared_goto s i S_Idle)
      \<lparr>sl_head := sl_head s + exclusive_step, sl_tail := sl_tail s\<rparr>)"
    using shared_relD[OF rel] others_do_not_hold[OF rel inv i(2)]
    by (intro shared_rel_move[OF rel inv]) (auto simp: enc_ex)
  then show ?thesis
    using rw_inv_leave_wr[OF inv i] rw_op.leave_wr[OF i] by (auto simp: rw_moves_def)
qed

lemma sim_leave_rd:
  assumes rel: "shared_rel a s" and inv: "rw_inv n a" and i: "req a i = Some (Rd x)" "i \<in> inside a"
  shows "\<exists>a'. rw_moves n a a' ((shared_goto s i S_Idle)\<lparr>sl_head := sl_head s + shared_step\<rparr>)"
proof -
  let ?b = "a\<lparr>req := (req a)(i := None), inside := inside a - {i}, left_rd := left_rd a + 1\<rparr>"
  have "shared_rel ?b ((shared_goto s i S_Idle)
      \<lparr>sl_head := sl_head s + shared_step, sl_tail := sl_tail s\<rparr>)"
    using shared_relD[OF rel] others_do_not_hold[OF rel inv i(2)]
    by (intro shared_rel_move[OF rel inv]) (auto simp: enc_sh)
  then show ?thesis
    using rw_inv_leave_rd[OF inv i] rw_op.leave_rd[OF i] by (auto simp: rw_moves_def)
qed

lemma shared_sim_exec:
  fixes s :: "('a::len word, 'b) shared_state"
  assumes rel: "shared_rel a s" and inv: "rw_inv n a" and n: "n \<le> 2 ^ (LENGTH('a) div 2)" and i: "i < n"
    and st: "shared_exec ad i (sl_pcs s i) s = Some s'"
  shows "\<exists>a'. rw_moves n a a' s'"
proof -
  note pc = shared_relD(3)[OF rel, of i] and hd = shared_relD(1)[OF rel]
  show ?thesis
  proof (cases "sl_pcs s i")
    case (S_ExFetch b)
    with pc st sim_request_wr[OF rel inv _ i, of b] show ?thesis by simp
  next
    case (S_ShFetch b)
    with pc st sim_request_rd[OF rel inv _ i, of b] show ?thesis by simp
  next
    case (S_ExLoad b t)
    with pc obtain x y where w: "i \<notin> inside a" "req a i = Some (Wr x y)" "t = enc x y" by auto
    show ?thesis
    proof (cases "t = sl_head s")
      case True
      then have "x = left_wr a \<and> y = left_rd a" using lock_test[OF inv n w(2)] w(3) hd by simp
      with w have "\<exists>a'. rw_moves n a a' (shared_goto s i S_ExHeld)" by (intro sim_enter[OF rel inv]) simp
      then show ?thesis using st S_ExLoad True by simp
    next
      case False
      then show ?thesis using st S_ExLoad w sim_stay[OF rel inv, of i "S_ExBackoff b t (sl_head s)"] by auto
    qed
  next
    case (S_ShLoad b t)
    with pc obtain x where w: "i \<notin> inside a" "req a i = Some (Rd x)" "t = enc x 0 AND exclusive_mask"
      by auto
    show ?thesis
    proof (cases "t = sl_head s AND exclusive_mask")
      case True
      then have "x = left_wr a" using lock_shared_test[OF inv n w(2)] w(3) hd by simp
      with w have "\<exists>a'. rw_moves n a a' (shared_goto s i S_ShHeld)" by (intro sim_enter[OF rel inv]) simp
      then show ?thesis using st S_ShLoad True by simp
    next
      case False
      then show ?thesis using st S_ShLoad w sim_stay[OF rel inv, of i "S_ShBackoff b t (sl_head s)"] by auto
    qed
  next
    case (S_ExUnlStore u)
    with pc st sim_leave_wr[OF rel inv] show ?thesis by auto
  next
    case S_ShUnl
    with pc st sim_leave_rd[OF rel inv] show ?thesis by auto
  qed (use pc st in \<open>auto intro!: sim_stay[OF rel inv]\<close>)
qed

lemma shared_sim_step:
  fixes s :: "('a::len word, 'b) shared_state"
  assumes rel: "shared_rel a s" and inv: "rw_inv n a" and n: "n \<le> 2 ^ (LENGTH('a) div 2)"
    and e: "shared_tid e < n" "\<not> is_shared_try e" and st: "shared_lock_step ad e s = Some s'"
  shows "\<exists>a'. rw_moves n a a' s'"
proof (cases e)
  case (SStep i)
  then show ?thesis using shared_sim_exec[OF rel inv n] e st by simp
qed (use e st shared_relD(3)[OF rel, of "shared_tid e"]
      in \<open>auto intro!: sim_stay[OF rel inv] split: if_splits\<close>)

lemma shared_rel_init: "shared_rel rw_init shared_init"
  by (simp add: shared_rel_def rw_init_def shared_init_def enc_def)

definition shared_ok :: "nat \<Rightarrow> 'b shared_event \<Rightarrow> bool" where
  "shared_ok n e \<longleftrightarrow> shared_tid e < n \<and> \<not> is_shared_try e"

definition shared_inv :: "nat \<Rightarrow> ('a::len word, 'b) shared_state \<Rightarrow> bool" where
  "shared_inv n s \<longleftrightarrow> (\<exists>a. rw_op\<^sup>*\<^sup>* rw_init a \<and> rw_inv n a \<and> shared_rel a s)"

lemma shared_inv_step:
  fixes s :: "('a::len word, 'b) shared_state"
  assumes "n \<le> 2 ^ (LENGTH('a) div 2)" and "shared_inv n s" and "shared_ok n e"
    and "shared_lock_step ad e s = Some s'"
  shows "shared_inv n s'"
proof -
  obtain a where a: "rw_op\<^sup>*\<^sup>* rw_init a" "rw_inv n a" "shared_rel a s"
    using assms(2) by (auto simp: shared_inv_def)
  obtain b where "rw_moves n a b s'"
    using shared_sim_step[OF a(3,2) assms(1) _ _ assms(4)] assms(3) by (auto simp: shared_ok_def)
  with a(1) have "rw_op\<^sup>*\<^sup>* rw_init b \<and> rw_inv n b \<and> shared_rel b s'"
    by (auto simp: rw_moves_def intro: rtranclp.rtrancl_into_rtrancl)
  then show ?thesis by (auto simp: shared_inv_def)
qed

lemma shared_inv_init: "shared_inv n shared_init"
  using rw_inv_init shared_rel_init by (auto simp: shared_inv_def)

lemma shared_inv_exclusive:
  assumes "shared_inv n s" and "exclusive_holds s i" and "exclusive_holds s j \<or> shared_holds s j"
  shows "i = j"
proof -
  obtain a where a: "rw_inv n a" "shared_rel a s"
    using assms(1) by (auto simp: shared_inv_def)
  note pcs = shared_relD(3)[OF a(2)]
  show ?thesis
    using assms(2,3) holding_inside[OF pcs] rw_writer_alone[OF a(1)]
    unfolding exclusive_holds_def shared_holds_def by blast
qed

interpretation shared: mutex_system
    "shared_lock_step ad :: 'b shared_event \<Rightarrow> ('a::len word, 'b) shared_state \<Rightarrow> _"
    "\<lambda>e. n \<le> 2 ^ (LENGTH('a) div 2) \<and> shared_ok n e" "shared_inv n" shared_init exclusive_holds
    for ad n
  by unfold_locales
    (blast intro: shared_inv_step, rule shared_inv_init, blast intro: shared_inv_exclusive)


subsection \<open>Properties\<close>





lemma readers_enter:
  "run (shared_lock_step ad) (concat (map (\<lambda>i. [SLockShared i b, SStep i, SStep i]) [0..<k])) shared_init
     = Some \<lparr>sl_head = 0 :: 'a::len word, sl_tail = of_nat k * shared_step,
             sl_pcs = (\<lambda>i. if i < k then S_ShHeld else S_Idle)\<rparr>"
proof -
  let ?f = "\<lambda>k. \<lparr>sl_head = 0 :: 'a word, sl_tail = of_nat k * shared_step,
      sl_pcs = (\<lambda>i. if i < k then S_ShHeld else S_Idle)\<rparr>"
  have m: "of_nat k * shared_step AND exclusive_mask = (0 :: 'a word)" for k
  proof -
    have "of_nat k * shared_step = (enc 0 k :: 'a word)" by (simp add: enc_def shared_step_eq mult.commute)
    then show ?thesis using enc_mask[of 0 k, where 'a = 'a] by simp
  qed
  have "run (shared_lock_step ad) [SLockShared k b, SStep k, SStep k] (?f k) = Some (?f (Suc k))" for k
    by (auto simp: m m[unfolded mult.commute[of "of_nat _"]] fun_eq_iff algebra_simps)
  from run_blocks[of k "shared_lock_step ad" _ ?f, OF this] show ?thesis
    by (simp add: shared_init_def)
qed

text \<open>
  The bound on the number of threads is tight: with the 8-bit counters of the test
  configuration sixteen readers wrap the shared half of \<open>tail_\<close>, and a seventeenth thread
  takes the lock exclusively while all of them hold it shared.
\<close>

theorem shared_ticket_lock_limit:
  "\<exists>s :: (8 word, unit) shared_state.
     run (shared_lock_step (\<lambda>_ b. b))
       (concat (map (\<lambda>i. [SLockShared i (), SStep i, SStep i]) [0..<16]) @ [SLock 16 (), SStep 16, SStep 16])
       shared_init = Some s \<and>
     exclusive_holds s 16 \<and> list_all (shared_holds s) [0..<16]"
  by (simp add: run_append readers_enter shared_step_def exclusive_holds_def shared_holds_def list_all_iff)

end
