(* ===== verification/Evenk_Futex.thy ===== *)
theory Evenk_Futex
  imports Evenk_Prelude
begin

text \<open>
  \<^verbatim>\<open>evenk/futex.h\<close>: the wrappers of the \<^verbatim>\<open>futex\<close> system call, in their x86-64 Linux
  variant.

  The kernel is a parameter.  As far as the wrappers go it is a function from the arguments
  of the call to a result; what the users of the wrappers rely on is the behaviour that
  \<^verbatim>\<open>futex(2)\<close> documents: a wait blocks only if the word still has the expected value
  (\<open>futex_blocks\<close>), and a wake wakes the given number of waiters, or all of them if there
  are fewer (\<open>futex_woken\<close>).  Which waiters are woken is the choice of the kernel, so it is
  part of the event in the step functions.
\<close>

subsection \<open>The system call and its result\<close>

datatype futex_op =
    FUTEX_WAIT_PRIVATE | FUTEX_WAKE_PRIVATE | FUTEX_REQUEUE_PRIVATE | FUTEX_CMP_REQUEUE_PRIVATE

text \<open>
  The arguments in the order of the registers: the address, the operation, the value, the
  fourth argument (a timeout or a second count), the second address and the third value.
  An argument that the wrapper leaves unset is \<open>None\<close>.
\<close>

record futex_call =
  fc_uaddr :: "64 word"
  fc_op :: futex_op
  fc_val :: "32 word"
  fc_val2 :: "32 word option"
  fc_uaddr2 :: "64 word option"
  fc_val3 :: "32 word option"

text \<open>\<open>(result > (unsigned) -4096) ? (int) result : 0\<close>\<close>

definition futex_result :: "32 word \<Rightarrow> 32 word" where
  "futex_result result = (if result > - 4096 then result else 0)"

definition futex_wait :: "(futex_call \<Rightarrow> 32 word) \<Rightarrow> 64 word \<Rightarrow> 32 word \<Rightarrow> 32 word" where
  "futex_wait sys futex value =
     futex_result (sys \<lparr>fc_uaddr = futex, fc_op = FUTEX_WAIT_PRIVATE, fc_val = value,
                        fc_val2 = Some 0, fc_uaddr2 = None, fc_val3 = None\<rparr>)"

definition futex_wake :: "(futex_call \<Rightarrow> 32 word) \<Rightarrow> 64 word \<Rightarrow> 32 word \<Rightarrow> 32 word" where
  "futex_wake sys futex count =
     futex_result (sys \<lparr>fc_uaddr = futex, fc_op = FUTEX_WAKE_PRIVATE, fc_val = count,
                        fc_val2 = None, fc_uaddr2 = None, fc_val3 = None\<rparr>)"

definition futex_requeue ::
  "(futex_call \<Rightarrow> 32 word) \<Rightarrow> 64 word \<Rightarrow> 32 word \<Rightarrow> 32 word \<Rightarrow> 64 word \<Rightarrow> 32 word" where
  "futex_requeue sys futex futex_count queue_count queue =
     futex_result (sys \<lparr>fc_uaddr = futex, fc_op = FUTEX_REQUEUE_PRIVATE, fc_val = futex_count,
                        fc_val2 = Some queue_count, fc_uaddr2 = Some queue, fc_val3 = None\<rparr>)"

definition futex_cmp_requeue ::
  "(futex_call \<Rightarrow> 32 word) \<Rightarrow> 64 word \<Rightarrow> 32 word \<Rightarrow> 32 word \<Rightarrow> 64 word \<Rightarrow> 32 word \<Rightarrow> 32 word" where
  "futex_cmp_requeue sys futex futex_count queue_count queue futex_value =
     futex_result (sys \<lparr>fc_uaddr = futex, fc_op = FUTEX_CMP_REQUEUE_PRIVATE, fc_val = futex_count,
                        fc_val2 = Some queue_count, fc_uaddr2 = Some queue,
                        fc_val3 = Some futex_value\<rparr>)"

subsection \<open>What the library relies on\<close>

definition futex_blocks :: "32 word \<Rightarrow> 32 word \<Rightarrow> bool" where
  "futex_blocks word value \<longleftrightarrow> word = value"

definition futex_woken :: "nat \<Rightarrow> tid set \<Rightarrow> tid set \<Rightarrow> bool" where
  "futex_woken count waiters woken \<longleftrightarrow> woken \<subseteq> waiters \<and> card woken = min count (card waiters)"

definition INT32_MAX :: nat where
  "INT32_MAX = 2 ^ 31 - 1"

lemma futex_woken_subset: "futex_woken n S W \<Longrightarrow> W \<subseteq> S"
  by (simp add: futex_woken_def)

lemma futex_woken_all: "futex_woken n S W \<Longrightarrow> finite S \<Longrightarrow> card S \<le> n \<Longrightarrow> W = S"
  by (auto simp: futex_woken_def card_subset_eq)

lemma futex_woken_some: "futex_woken n S W \<Longrightarrow> finite S \<Longrightarrow> S \<noteq> {} \<Longrightarrow> 0 < n \<Longrightarrow> W \<noteq> {}"
  by (auto simp: futex_woken_def min_def split: if_splits)

lemma futex_woken_exists: "\<exists>W. futex_woken n S W"
proof -
  obtain W where "W \<subseteq> S" "card W = min n (card S)"
    by (meson min.cobounded2 obtain_subset_with_card_n)
  then show ?thesis by (auto simp: futex_woken_def)
qed

subsection \<open>Properties\<close>

text \<open>
  The wrappers return the kernel's error as a negative number and zero on success.  The
  kernel reports error \<open>e\<close> with \<open>1 \<le> e \<le> 4095\<close> as \<open>- e\<close>; every other result (a number of
  woken or requeued waiters, none of which exceeds \<open>2 ^ 32 - 4096\<close>) gives zero.
\<close>

theorem futex_result_errors:
  "(1 \<le> e \<and> e \<le> 4095 \<longrightarrow> sint (futex_result (- of_nat e)) = - int e) \<and>
   (n \<le> 2 ^ 32 - 4096 \<longrightarrow> futex_result (of_nat n) = 0)"
proof (intro conjI impI)
  assume e: "1 \<le> e \<and> e \<le> 4095"
  have "(- of_nat e :: 32 word) = word_of_int (- int e)" by simp
  moreover have "uint (word_of_int (- int e) :: 32 word) = 2 ^ 32 - int e"
    using e by (simp only: uint_word_of_int) (simp add: zmod_zminus1_eq_if)
  moreover have "sint (word_of_int (- int e) :: 32 word) = - int e"
    using e by (simp only: sint_sbintrunc') (simp add: signed_take_bit_int_eq_self)
  ultimately show "sint (futex_result (- of_nat e)) = - int e"
    using e by (simp add: futex_result_def word_less_def)
next
  assume "n \<le> 2 ^ 32 - 4096"
  then show "futex_result (of_nat n) = 0"
    by (simp add: futex_result_def word_less_nat_alt unat_of_nat)
qed

theorem futex_result_errors_witness:
  "sint (futex_result (- 11)) = - 11 \<and> futex_result 3 = 0"
  using futex_result_errors[of 11 3] by simp

end
