(* ===== verification/Evenk_Bounded_Slot.thy ===== *)
theory Evenk_Bounded_Slot
  imports Evenk_Futex
begin

text \<open>
  \<^verbatim>\<open>evenk/bounded_queue.h\<close>: the encoding of slot tokens, the two slot counters and the four
  slot classes \<open>spin\<close>, \<open>yield\<close>, \<open>futex\<close> and \<open>synch\<close>.

  A slot operation is a little program of atomic accesses; \<open>slot_step\<close> is its next access, by
  the position in the code (\<open>slot_pc\<close>).  A position is left for another one, or the operation
  returns, with a token (\<open>load\<close>, \<open>wait\<close>) or without (\<open>wake\<close>, \<open>close\<close>).  A critical section
  of \<open>synch\<close> is one step: all its accesses are made while its lock is held, and the only
  access outside a critical section is the load of \<open>load()\<close>.

  The locale \<open>slot_ops\<close> is what the ring relies on; every slot class provides it.
\<close>

subsection \<open>Tokens\<close>

type_synonym count_t = "32 word"
type_synonym token_t = "32 word"

definition status_valid :: token_t where "status_valid = 1"
definition status_invalid :: token_t where "status_invalid = 2"
definition status_waiting :: token_t where "status_waiting = 4"
definition status_closed :: token_t where "status_closed = 8"

datatype close_t = Open | Closing | Closed

definition status_mask :: token_t where
  "status_mask = status_valid OR status_invalid"

definition ticket_mask :: token_t where
  "ticket_mask = NOT (status_mask OR status_waiting OR status_closed)"

definition min_size :: count_t where
  "min_size = 16"

lemmas status_defs = status_valid_def status_invalid_def status_waiting_def status_closed_def
  status_mask_def ticket_mask_def

subsection \<open>Counters\<close>

text \<open>
  An operation of a counter returns its result and the new count.  For \<open>counter\<close> these are
  the operations of the only thread that uses it; for \<open>atomic_counter\<close> each is one atomic
  access.
\<close>

definition counter_load :: "count_t \<Rightarrow> count_t" where
  "counter_load count = count"

definition counter_fetch_add :: "count_t \<Rightarrow> count_t \<Rightarrow> count_t \<times> count_t" where
  "counter_fetch_add addend count = (count, count + addend)"

definition counter_try_increment :: "count_t \<Rightarrow> count_t \<Rightarrow> bool \<times> count_t" where
  "counter_try_increment expected count = (True, expected + 1)"

definition atomic_load :: "count_t \<Rightarrow> count_t" where
  "atomic_load count = count"

definition atomic_fetch_add :: "count_t \<Rightarrow> count_t \<Rightarrow> count_t \<times> count_t" where
  "atomic_fetch_add addend count = (count, count + addend)"

definition atomic_try_increment :: "count_t \<Rightarrow> count_t \<Rightarrow> bool \<times> count_t" where
  "atomic_try_increment expected count =
     (if count = expected then (True, expected + 1) else (False, count))"

subsection \<open>Slots\<close>

datatype slot_kind = Spin_slot | Yield_slot | Futex_slot | Synch_slot

text \<open>
  The threads asleep on the futex or on the condition variable of the slot.  A thread that is
  woken is removed.
\<close>

record slot =
  token :: token_t
  sleepers :: "tid set"

definition slot_init :: "token_t \<Rightarrow> slot" where
  "slot_init t = \<lparr>token = t, sleepers = {}\<rparr>"

text \<open>
  The choices of the environment in a step: the waiters that the kernel wakes, and whether
  something fails spuriously (a weak compare-and-exchange, a wait that returns unprompted).
\<close>

record env =
  env_woken :: "tid set"
  env_fail :: bool

datatype slot_pc =
    At_load
  | At_wait token_t
  | At_futex_wait token_t    \<comment> \<open>\<open>futex::wait\<close>: at \<open>futex_wait(*this, x)\<close>\<close>
  | Asleep token_t           \<comment> \<open>blocked, when the token was this one\<close>
  | At_reload                \<comment> \<open>the load at the end of \<open>wait\<close>\<close>
  | At_wake token_t
  | At_futex_wake            \<comment> \<open>\<open>futex::wake\<close>, \<open>futex::close\<close>: at \<open>futex_wake(*this, INT32_MAX)\<close>\<close>
  | At_close
  | At_close_cas token_t     \<comment> \<open>\<open>futex::close\<close>: at the compare-and-exchange, with \<open>t\<close>\<close>

datatype slot_out = Next slot_pc | Got token_t | Finished

fun slot_step ::
  "slot_kind \<Rightarrow> tid \<Rightarrow> env \<Rightarrow> slot_pc \<Rightarrow> 'z slot_scheme \<Rightarrow> ('z slot_scheme \<times> slot_out) option" where
  "slot_step k i e At_load s = Some (s, Got (token s))"
| "slot_step k i e (At_wait t) s =
     (case k of
        Spin_slot \<Rightarrow> Some (s, Got (token s))
      | Yield_slot \<Rightarrow> Some (s, Next At_reload)
      | Futex_slot \<Rightarrow>
          (let x = t OR status_waiting in
           if token s = t then Some (s\<lparr>token := x\<rparr>, Next (At_futex_wait x))
           else if token s = x then Some (s, Next (At_futex_wait x))
           else Some (s, Got (token s)))
      | Synch_slot \<Rightarrow>
          (if token s = t then Some (s\<lparr>sleepers := insert i (sleepers s)\<rparr>, Next (Asleep t))
           else Some (s, Got (token s))))"
| "slot_step k i e (At_futex_wait x) s =
     (if futex_blocks (token s) x then Some (s\<lparr>sleepers := insert i (sleepers s)\<rparr>, Next (Asleep x))
      else Some (s, Next At_reload))"
| "slot_step k i e (Asleep x) s =
     (if i \<notin> sleepers s then Some (s, Next At_reload)
      else if env_fail e then Some (s\<lparr>sleepers := sleepers s - {i}\<rparr>, Next At_reload)
      else None)"
| "slot_step k i e At_reload s = Some (s, Got (token s))"
| "slot_step k i e (At_wake t) s =
     (case k of
        Futex_slot \<Rightarrow>
          Some (s\<lparr>token := t\<rparr>, if token s AND status_waiting \<noteq> 0 then Next At_futex_wake else Finished)
      | Synch_slot \<Rightarrow> Some (s\<lparr>token := t, sleepers := {}\<rparr>, Finished)
      | _ \<Rightarrow> Some (s\<lparr>token := t\<rparr>, Finished))"
| "slot_step k i e At_futex_wake s =
     (if futex_woken INT32_MAX (sleepers s) (env_woken e)
      then Some (s\<lparr>sleepers := sleepers s - env_woken e\<rparr>, Finished) else None)"
| "slot_step k i e At_close s =
     (case k of
        Futex_slot \<Rightarrow> Some (s, Next (At_close_cas (token s)))
      | Synch_slot \<Rightarrow> Some (s\<lparr>token := token s OR status_closed, sleepers := {}\<rparr>, Finished)
      | _ \<Rightarrow> Some (s, Finished))"
| "slot_step k i e (At_close_cas t) s =
     (if token s = t \<and> \<not> env_fail e
      then Some (s\<lparr>token := t OR status_closed\<rparr>,
                 if t AND status_waiting \<noteq> 0 then Next At_futex_wake else Finished)
      else Some (s, Next (At_close_cas (token s))))"

subsection \<open>A slot and the threads that use it\<close>

fun slot_entry :: "slot_pc \<Rightarrow> bool" where
  "slot_entry At_load = True"
| "slot_entry (At_wait t) = True"
| "slot_entry (At_wake t) = True"
| "slot_entry At_close = True"
| "slot_entry _ = False"

datatype slot_event = Slot_call tid slot_pc | Slot_go tid env

fun slot_tid :: "slot_event \<Rightarrow> tid" where
  "slot_tid (Slot_call i p) = i"
| "slot_tid (Slot_go i e) = i"

record slot_sys =
  sys_slot :: slot
  sys_pcs :: "tid \<Rightarrow> slot_pc option"

definition slot_sys_init :: "token_t \<Rightarrow> slot_sys" where
  "slot_sys_init t = \<lparr>sys_slot = slot_init t, sys_pcs = (\<lambda>_. None)\<rparr>"

fun slot_sys_step :: "slot_kind \<Rightarrow> slot_event \<Rightarrow> slot_sys \<Rightarrow> slot_sys option" where
  "slot_sys_step k (Slot_call i p) s =
     (if sys_pcs s i = None \<and> slot_entry p then Some (s\<lparr>sys_pcs := (sys_pcs s)(i := Some p)\<rparr>) else None)"
| "slot_sys_step k (Slot_go i e) s =
     (case sys_pcs s i of
        None \<Rightarrow> None
      | Some p \<Rightarrow>
          (case slot_step k i e p (sys_slot s) of
             None \<Rightarrow> None
           | Some (sl, out) \<Rightarrow>
               Some \<lparr>sys_slot = sl,
                     sys_pcs = (sys_pcs s)(i := (case out of Next q \<Rightarrow> Some q | _ \<Rightarrow> None))\<rparr>))"

subsection \<open>The contract of a slot\<close>

text \<open>The ticket and the value status, without the bits that waiting and closing set.\<close>

definition core :: "token_t \<Rightarrow> token_t" where
  "core t = t AND NOT (status_waiting OR status_closed)"

fun slot_reads :: "slot_pc \<Rightarrow> bool" where
  "slot_reads At_load = True"
| "slot_reads (At_wait t) = True"
| "slot_reads (At_futex_wait x) = True"
| "slot_reads (Asleep x) = True"
| "slot_reads At_reload = True"
| "slot_reads _ = False"

fun slot_writes :: "slot_pc \<Rightarrow> bool" where
  "slot_writes (At_wake t) = True"
| "slot_writes _ = False"

locale slot_ops =
  fixes stepf :: "tid \<Rightarrow> env \<Rightarrow> slot_pc \<Rightarrow> 'z slot_scheme \<Rightarrow> ('z slot_scheme \<times> slot_out) option"
  assumes more_kept: "stepf i e p s = Some (s', out) \<Longrightarrow> slot.more s' = slot.more s"
    and core_kept: "stepf i e p s = Some (s', out) \<Longrightarrow> \<not> slot_writes p \<Longrightarrow> core (token s') = core (token s)"
    and wake_stores: "stepf i e (At_wake t) s = Some (s', out) \<Longrightarrow> token s' = t"
    and got_current: "stepf i e p s = Some (s', Got t) \<Longrightarrow> core t = core (token s')"
    and reads_get: "stepf i e p s = Some (s', out) \<Longrightarrow> slot_reads p \<Longrightarrow>
      (\<exists>t. out = Got t) \<or> (\<exists>q. out = Next q \<and> slot_reads q)"
    and others_finish: "stepf i e p s = Some (s', out) \<Longrightarrow> \<not> slot_reads p \<Longrightarrow>
      out = Finished \<or> (\<exists>q. out = Next q \<and> \<not> slot_reads q \<and> \<not> slot_writes q)"
begin

lemma wake_core: "stepf i e (At_wake t) s = Some (s', out) \<Longrightarrow> core (token s') = core t"
  using wake_stores by simp

lemma reads_out:
  assumes "stepf i e p s = Some (s', out)" and "slot_reads p"
  obtains (got) t where "out = Got t" and "core t = core (token s')"
    | (more) q where "out = Next q" and "slot_reads q"
  using reads_get[OF assms] got_current[of i e p s s'] assms(1) by blast

end

lemma core_OR_waiting [simp]: "core (t OR status_waiting) = core t"
  by (auto simp: core_def bit_eq_iff bit_simps)

lemma core_OR_closed [simp]: "core (t OR status_closed) = core t"
  by (auto simp: core_def bit_eq_iff bit_simps)

interpretation any_slot: slot_ops "slot_step k" for k
proof unfold_locales
  fix i e p s s' out t
  show "slot_step k i e p s = Some (s', out) \<Longrightarrow> slot.more s' = slot.more s"
    by (cases p) (auto simp: Let_def split: slot_kind.splits if_splits)
  show "slot_step k i e p s = Some (s', out) \<Longrightarrow> \<not> slot_writes p \<Longrightarrow> core (token s') = core (token s)"
    by (cases p) (auto simp: Let_def split: slot_kind.splits if_splits)
  show "slot_step k i e (At_wake t) s = Some (s', out) \<Longrightarrow> token s' = t"
    by (auto split: slot_kind.splits)
  show "slot_step k i e p s = Some (s', Got t) \<Longrightarrow> core t = core (token s')"
    by (cases p) (auto simp: Let_def split: slot_kind.splits if_splits)
  show "slot_step k i e p s = Some (s', out) \<Longrightarrow> slot_reads p \<Longrightarrow>
      (\<exists>t. out = Got t) \<or> (\<exists>q. out = Next q \<and> slot_reads q)"
    by (cases p) (auto simp: Let_def split: slot_kind.splits if_splits)
  show "slot_step k i e p s = Some (s', out) \<Longrightarrow> \<not> slot_reads p \<Longrightarrow>
      out = Finished \<or> (\<exists>q. out = Next q \<and> \<not> slot_reads q \<and> \<not> slot_writes q)"
    by (cases p) (auto simp: Let_def split: slot_kind.splits if_splits)
qed

subsection \<open>No wake-up is lost\<close>

text \<open>
  A thread sleeps only as long as the token is the one it went to sleep on, or the call of
  \<open>futex_wake\<close> that follows the change of the token is still to come.
\<close>

definition waking :: "(tid \<Rightarrow> slot_pc option) \<Rightarrow> bool" where
  "waking pcs \<longleftrightarrow> (\<exists>j. pcs j = Some At_futex_wake)"

definition sleeps_well :: "slot_kind \<Rightarrow> slot_sys \<Rightarrow> tid \<Rightarrow> bool" where
  "sleeps_well k s i \<longleftrightarrow>
     (\<exists>x. sys_pcs s i = Some (Asleep x) \<and> (k = Futex_slot \<longrightarrow> x AND status_waiting \<noteq> 0) \<and>
          (token (sys_slot s) = x \<or> waking (sys_pcs s)))"

definition slot_inv :: "slot_kind \<Rightarrow> nat \<Rightarrow> slot_sys \<Rightarrow> bool" where
  "slot_inv k n s \<longleftrightarrow>
     (\<forall>i. sys_pcs s i \<noteq> None \<longrightarrow> i < n) \<and>
     (\<forall>i \<in> sleepers (sys_slot s). sleeps_well k s i) \<and>
     (\<forall>i x. sys_pcs s i = Some (At_futex_wait x) \<longrightarrow> k = Futex_slot \<and> x AND status_waiting \<noteq> 0) \<and>
     (\<forall>i. sys_pcs s i = Some At_futex_wake \<longrightarrow> k = Futex_slot) \<and>
     (\<forall>i t. sys_pcs s i = Some (At_close_cas t) \<longrightarrow> k = Futex_slot) \<and>
     (k = Spin_slot \<or> k = Yield_slot \<longrightarrow> sleepers (sys_slot s) = {})"

lemma slot_inv_init: "slot_inv k n (slot_sys_init t)"
  by (simp add: slot_inv_def slot_sys_init_def slot_init_def)

lemma slot_invD:
  assumes "slot_inv k n s"
  shows "sys_pcs s i \<noteq> None \<Longrightarrow> i < n"
    and "i \<in> sleepers (sys_slot s) \<Longrightarrow> sleeps_well k s i"
    and "sys_pcs s i = Some (At_futex_wait x) \<Longrightarrow> k = Futex_slot \<and> x AND status_waiting \<noteq> 0"
    and "sys_pcs s i = Some At_futex_wake \<Longrightarrow> k = Futex_slot"
    and "sys_pcs s i = Some (At_close_cas t) \<Longrightarrow> k = Futex_slot"
    and "k = Spin_slot \<or> k = Yield_slot \<Longrightarrow> sleepers (sys_slot s) = {}"
  using assms unfolding slot_inv_def by blast+

lemma sleepers_below:
  assumes "slot_inv k n s"
  shows "sleepers (sys_slot s) \<subseteq> {..<n}"
  using slot_invD(1,2)[OF assms] by (fastforce simp: sleeps_well_def)

lemma sleepers_few:
  assumes "slot_inv k n s"
  shows "finite (sleepers (sys_slot s))" and "card (sleepers (sys_slot s)) \<le> n"
  using finite_subset[OF sleepers_below[OF assms]] card_mono[OF _ sleepers_below[OF assms]] by simp_all

lemma waiting_bit_set: "(t OR status_waiting) AND status_waiting \<noteq> 0"
proof -
  have "(t OR status_waiting) AND status_waiting = status_waiting"
    by (auto simp: bit_eq_iff bit_simps)
  then show ?thesis by (simp add: status_waiting_def)
qed

lemma waiting_bit_OR:
  assumes "t AND status_waiting \<noteq> 0"
  shows "t OR status_waiting = t"
proof -
  have w: "bit status_waiting n \<longleftrightarrow> n = 2" for n
  proof -
    have w: "status_waiting = 2 ^ 2" by (simp add: status_waiting_def)
    show ?thesis unfolding w bit_exp_iff by auto
  qed
  have "t AND status_waiting = 0" if "\<not> bit t 2"
    using that by (intro bit_word_eqI) (auto simp: bit_and_iff w)
  with assms show ?thesis
    by (intro bit_word_eqI) (auto simp: bit_or_iff w)
qed

text \<open>
  How a step may treat a sleeper: it keeps the token, or it leaves \<open>At_futex_wake\<close> behind.
\<close>

lemma sleeps_well_kept:
  assumes "sleeps_well k s j" and "j \<noteq> i" and "sys_pcs s i \<noteq> Some At_futex_wake"
    and "(k = Futex_slot \<longrightarrow> token (sys_slot s) AND status_waiting \<noteq> 0) \<Longrightarrow>
      token sl = token (sys_slot s) \<or> q = Some At_futex_wake"
  shows "sleeps_well k \<lparr>sys_slot = sl, sys_pcs = (sys_pcs s)(i := q)\<rparr> j"
proof -
  obtain x where x: "sys_pcs s j = Some (Asleep x)" "k = Futex_slot \<longrightarrow> x AND status_waiting \<noteq> 0"
      "token (sys_slot s) = x \<or> waking (sys_pcs s)"
    using assms(1) by (auto simp: sleeps_well_def)
  have "waking ((sys_pcs s)(i := q))" if "waking (sys_pcs s) \<or> q = Some At_futex_wake"
    using that assms(3) by (auto simp: waking_def)
  then show ?thesis
    using x assms(2,4) by (auto simp: sleeps_well_def)
qed

lemma slot_inv_goI:
  assumes inv: "slot_inv k n s" and i: "i < n"
    and none: "k = Spin_slot \<or> k = Yield_slot \<Longrightarrow> sleepers sl = {}"
    and sl: "\<And>j. j \<in> sleepers sl \<Longrightarrow> sleeps_well k \<lparr>sys_slot = sl, sys_pcs = (sys_pcs s)(i := q)\<rparr> j"
    and q: "\<And>x. q = Some (At_futex_wait x) \<Longrightarrow> k = Futex_slot \<and> x AND status_waiting \<noteq> 0"
      "q = Some At_futex_wake \<Longrightarrow> k = Futex_slot" "\<And>t. q = Some (At_close_cas t) \<Longrightarrow> k = Futex_slot"
  shows "slot_inv k n \<lparr>sys_slot = sl, sys_pcs = (sys_pcs s)(i := q)\<rparr>"
  using slot_invD[OF inv] i none sl q unfolding slot_inv_def by auto

lemma not_asleep_not_sleeper:
  "slot_inv k n s \<Longrightarrow> sys_pcs s i = Some p \<Longrightarrow> \<forall>x. p \<noteq> Asleep x \<Longrightarrow> i \<notin> sleepers (sys_slot s)"
  using slot_invD(2) by (fastforce simp: sleeps_well_def)

text \<open>The steps that change the token, and the others, for threads that are not asleep.\<close>

lemma slot_inv_token:
  assumes inv: "slot_inv k n s" and i: "sys_pcs s i = Some p" "p \<noteq> At_futex_wake" "\<forall>x. p \<noteq> Asleep x"
    and sl: "sleepers sl \<subseteq> sleepers (sys_slot s)"
    and tok: "(k = Futex_slot \<longrightarrow> token (sys_slot s) AND status_waiting \<noteq> 0) \<Longrightarrow>
      sleepers sl = {} \<or> token sl = token (sys_slot s) \<or> q = Some At_futex_wake"
    and q: "\<And>x. q = Some (At_futex_wait x) \<Longrightarrow> k = Futex_slot \<and> x AND status_waiting \<noteq> 0"
      "q = Some At_futex_wake \<Longrightarrow> k = Futex_slot" "\<And>t. q = Some (At_close_cas t) \<Longrightarrow> k = Futex_slot"
  shows "slot_inv k n \<lparr>sys_slot = sl, sys_pcs = (sys_pcs s)(i := q)\<rparr>"
proof (intro slot_inv_goI[OF inv _ _ _ q])
  show "i < n" using slot_invD(1)[OF inv] i(1) by simp
  show "k = Spin_slot \<or> k = Yield_slot \<Longrightarrow> sleepers sl = {}" using slot_invD(6)[OF inv] sl by simp
  show "sleeps_well k \<lparr>sys_slot = sl, sys_pcs = (sys_pcs s)(i := q)\<rparr> j" if "j \<in> sleepers sl" for j
    using that sl tok slot_invD(2)[OF inv, of j] not_asleep_not_sleeper[OF inv i(1,3)] i(1,2)
    by (intro sleeps_well_kept) auto
qed

lemma slot_inv_sleep:
  assumes inv: "slot_inv k n s" and i: "sys_pcs s i = Some p" "p \<noteq> At_futex_wake"
    and k: "k = Futex_slot \<or> k = Synch_slot"
    and x: "token (sys_slot s) = x" "k = Futex_slot \<longrightarrow> x AND status_waiting \<noteq> 0"
  shows "slot_inv k n \<lparr>sys_slot = (sys_slot s)\<lparr>sleepers := insert i (sleepers (sys_slot s))\<rparr>,
                       sys_pcs = (sys_pcs s)(i := Some (Asleep x))\<rparr>"
proof (intro slot_inv_goI[OF inv])
  let ?sl = "(sys_slot s)\<lparr>sleepers := insert i (sleepers (sys_slot s))\<rparr>"
  show "i < n" using slot_invD(1)[OF inv] i(1) by simp
  show "sleeps_well k \<lparr>sys_slot = ?sl, sys_pcs = (sys_pcs s)(i := Some (Asleep x))\<rparr> j"
    if "j \<in> sleepers ?sl" for j
  proof (cases "j = i")
    case True
    then show ?thesis using x by (simp add: sleeps_well_def)
  next
    case False
    then show ?thesis
      using that i slot_invD(2)[OF inv, of j] by (intro sleeps_well_kept) auto
  qed
qed (use k in auto)

lemma slot_inv_wait:
  assumes inv: "slot_inv k n s" and p: "sys_pcs s i = Some (At_wait t)"
    and go: "slot_step k i e (At_wait t) (sys_slot s) = Some (sl, out)"
  shows "slot_inv k n \<lparr>sys_slot = sl, sys_pcs = (sys_pcs s)(i := (case out of Next q \<Rightarrow> Some q | _ \<Rightarrow> None))\<rparr>"
proof (cases k)
  case Futex_slot
  let ?x = "t OR status_waiting"
  consider (changed) "sl = (sys_slot s)\<lparr>token := ?x\<rparr>" "out = Next (At_futex_wait ?x)" "token (sys_slot s) = t"
    | (same) "sl = sys_slot s" "out = Next (At_futex_wait ?x) \<or> out = Got (token (sys_slot s))"
    using go Futex_slot by (auto simp: Let_def split: if_splits)
  then show ?thesis
  proof cases
    case changed
    then show ?thesis
      using waiting_bit_set[of t] waiting_bit_OR[of t] Futex_slot by (intro slot_inv_token[OF inv p]) auto
  next
    case same
    then show ?thesis
      using waiting_bit_set[of t] Futex_slot by (intro slot_inv_token[OF inv p]) auto
  qed
next
  case Synch_slot
  show ?thesis
  proof (cases "token (sys_slot s) = t")
    case True
    then show ?thesis
      using slot_inv_sleep[OF inv p _ _ True] go Synch_slot by auto
  next
    case False
    then show ?thesis
      using go Synch_slot by (intro slot_inv_token[OF inv p]) auto
  qed
qed (use go in \<open>intro slot_inv_token[OF inv p]; auto\<close>)+

lemma slot_inv_wake:
  assumes inv: "slot_inv k n s" and p: "sys_pcs s i = Some (At_wake t)"
    and go: "slot_step k i e (At_wake t) (sys_slot s) = Some (sl, out)"
  shows "slot_inv k n \<lparr>sys_slot = sl, sys_pcs = (sys_pcs s)(i := (case out of Next q \<Rightarrow> Some q | _ \<Rightarrow> None))\<rparr>"
  by (cases k; rule slot_inv_token[OF inv p]; use go slot_invD(6)[OF inv] in \<open>auto split: if_splits\<close>)

lemma slot_inv_close:
  assumes inv: "slot_inv k n s" and p: "sys_pcs s i = Some At_close"
    and go: "slot_step k i e At_close (sys_slot s) = Some (sl, out)"
  shows "slot_inv k n \<lparr>sys_slot = sl, sys_pcs = (sys_pcs s)(i := (case out of Next q \<Rightarrow> Some q | _ \<Rightarrow> None))\<rparr>"
  by (cases k; rule slot_inv_token[OF inv p]; use go slot_invD(6)[OF inv] in \<open>auto split: if_splits\<close>)

lemma slot_inv_close_cas:
  assumes inv: "slot_inv k n s" and p: "sys_pcs s i = Some (At_close_cas t)"
    and go: "slot_step k i e (At_close_cas t) (sys_slot s) = Some (sl, out)"
  shows "slot_inv k n \<lparr>sys_slot = sl, sys_pcs = (sys_pcs s)(i := (case out of Next q \<Rightarrow> Some q | _ \<Rightarrow> None))\<rparr>"
  by (rule slot_inv_token[OF inv p]; use go slot_invD(5)[OF inv p] in \<open>auto split: if_splits\<close>)

lemma slot_inv_awake:
  assumes inv: "slot_inv k n s" and i: "sys_pcs s i = Some (Asleep x)"
    and sl: "sleepers sl = sleepers (sys_slot s) - {i}" "token sl = token (sys_slot s)"
  shows "slot_inv k n \<lparr>sys_slot = sl, sys_pcs = (sys_pcs s)(i := Some At_reload)\<rparr>"
proof (intro slot_inv_goI[OF inv])
  show "i < n" using slot_invD(1)[OF inv] i(1) by simp
  show "sleeps_well k \<lparr>sys_slot = sl, sys_pcs = (sys_pcs s)(i := Some At_reload)\<rparr> j"
    if "j \<in> sleepers sl" for j
    using that i sl slot_invD(2)[OF inv, of j] by (intro sleeps_well_kept) auto
qed (use sl slot_invD(6)[OF inv] in auto)

lemma slot_inv_wake_all:
  assumes inv: "slot_inv k n s" and n: "n \<le> INT32_MAX" and i: "sys_pcs s i = Some At_futex_wake"
    and w: "futex_woken INT32_MAX (sleepers (sys_slot s)) W"
  shows "slot_inv k n \<lparr>sys_slot = (sys_slot s)\<lparr>sleepers := sleepers (sys_slot s) - W\<rparr>,
                       sys_pcs = (sys_pcs s)(i := None)\<rparr>"
proof -
  have "W = sleepers (sys_slot s)"
    using sleepers_few[OF inv] n by (intro futex_woken_all[OF w]) simp_all
  moreover have "i < n" using slot_invD(1)[OF inv] i by simp
  ultimately show ?thesis by (intro slot_inv_goI[OF inv]) simp_all
qed

lemma slot_inv_step:
  assumes n: "n \<le> INT32_MAX" and inv: "slot_inv k n s" and ev: "slot_tid ev < n"
    and st: "slot_sys_step k ev s = Some s'"
  shows "slot_inv k n s'"
proof (cases ev)
  case (Slot_call i p)
  have "slot_inv k n \<lparr>sys_slot = sys_slot s, sys_pcs = (sys_pcs s)(i := Some p)\<rparr>"
    using Slot_call ev st slot_invD(2,6)[OF inv] slot_invD(2)[OF inv, of i]
    by (intro slot_inv_goI[OF inv] sleeps_well_kept)
       (auto simp: sleeps_well_def[of _ s i] split: if_splits)
  with Slot_call st show ?thesis by (cases s) (auto split: if_splits)
next
  case (Slot_go i e)
  with st obtain p sl out where p: "sys_pcs s i = Some p" and go: "slot_step k i e p (sys_slot s) = Some (sl, out)"
    and s': "s' = \<lparr>sys_slot = sl, sys_pcs = (sys_pcs s)(i := (case out of Next q \<Rightarrow> Some q | _ \<Rightarrow> None))\<rparr>"
    by (auto split: option.splits prod.splits)
  note token = slot_inv_token[OF inv p] and fut = slot_invD(3-5)[OF inv, of i]
  show ?thesis
  proof (cases p)
    case (Asleep x)
    then show ?thesis
      using go p unfolding s' by (auto intro!: slot_inv_awake[OF inv] split: if_splits)
  next
    case At_futex_wake
    then show ?thesis
      using go p unfolding s' by (auto intro!: slot_inv_wake_all[OF inv n] split: if_splits)
  next
    case (At_futex_wait x)
    then have w: "k = Futex_slot \<longrightarrow> x AND status_waiting \<noteq> 0" and k: "k = Futex_slot \<or> k = Synch_slot"
      using fut(1)[of x] p by simp_all
    show ?thesis
    proof (cases "token (sys_slot s) = x")
      case True
      have "p \<noteq> At_futex_wake" using At_futex_wait by simp
      from slot_inv_sleep[OF inv p this k True w] show ?thesis
        using go At_futex_wait True unfolding s' by (auto simp: futex_blocks_def)
    next
      case False
      then show ?thesis
        using go At_futex_wait unfolding s' by (auto intro!: token simp: futex_blocks_def)
    qed
  next
    case (At_wait t)
    then show ?thesis
      using slot_inv_wait[OF inv, of i t e] go p unfolding s' by simp
  next
    case (At_wake t)
    then show ?thesis
      using slot_inv_wake[OF inv, of i t e] go p unfolding s' by simp
  next
    case (At_close_cas t)
    then show ?thesis
      using slot_inv_close_cas[OF inv, of i t e] go p unfolding s' by simp
  next
    case At_close
    then show ?thesis
      using slot_inv_close[OF inv, of i e] go p unfolding s' by simp
  qed (unfold s', (rule token; use go in auto)+)
qed

interpretation slot_system: invariant_system "slot_sys_step k" "\<lambda>e. n \<le> INT32_MAX \<and> slot_tid e < n"
    "slot_inv k n" for k n
  by unfold_locales (blast intro: slot_inv_step)

subsection \<open>Properties\<close>

text \<open>
  C21: no wake-up is lost, in any slot class.  However at most \<open>2 ^ 31 - 1\<close> threads load, wait
  on, wake and close a slot, and whatever the kernel does within its documentation, a thread
  that sleeps in \<open>wait\<close> does so while the token is the very word it went to sleep on, or
  else some thread is just about to wake up all the sleepers.  So a sleeper never misses that
  the slot has been given another ticket or status or has been closed.
\<close>

theorem slot_no_lost_wakeup:
  assumes "n \<le> INT32_MAX" and "list_all (\<lambda>e. slot_tid e < n) es"
    and "run (slot_sys_step k) es (slot_sys_init t) = Some s" and "i \<in> sleepers (sys_slot s)"
  shows "\<exists>x. sys_pcs s i = Some (Asleep x) \<and>
             (token (sys_slot s) = x \<or> (\<exists>j. sys_pcs s j = Some At_futex_wake))"
proof -
  have "list_all (\<lambda>e. n \<le> INT32_MAX \<and> slot_tid e < n) es"
    using assms(1,2) by (simp add: list_all_iff)
  from slot_invD(2)[OF slot_system.run_inv[OF this slot_inv_init assms(3)] assms(4)] show ?thesis
    by (auto simp: sleeps_well_def waking_def)
qed

text \<open>Thread 1 has stored a new token over the one thread 0 sleeps on, and not yet woken it.\<close>

theorem slot_no_lost_wakeup_witness:
  "\<exists>s e. run (slot_sys_step Futex_slot)
           [Slot_call 0 (At_wait 16), Slot_go 0 e, Slot_go 0 e, Slot_call 1 (At_wake 17), Slot_go 1 e]
           (slot_sys_init 16) = Some s \<and>
         0 \<in> sleepers (sys_slot s) \<and>
         (\<exists>x. sys_pcs s 0 = Some (Asleep x) \<and>
              (token (sys_slot s) = x \<or> (\<exists>j. sys_pcs s j = Some At_futex_wake)))"
proof -
  define e where "e = \<lparr>env_woken = {}, env_fail = False\<rparr>"
  let ?es = "[Slot_call 0 (At_wait 16), Slot_go 0 e, Slot_go 0 e, Slot_call 1 (At_wake 17), Slot_go 1 e]"
  obtain s where s: "run (slot_sys_step Futex_slot) ?es (slot_sys_init 16) = Some s"
      and i: "0 \<in> sleepers (sys_slot s)"
    by (simp add: slot_sys_init_def slot_init_def futex_blocks_def status_waiting_def)
  moreover have "\<exists>x. sys_pcs s 0 = Some (Asleep x) \<and>
      (token (sys_slot s) = x \<or> (\<exists>j. sys_pcs s j = Some At_futex_wake))"
    by (rule slot_no_lost_wakeup[of 2, OF _ _ s i]) (simp_all add: INT32_MAX_def)
  ultimately show ?thesis by blast
qed

end
