(* ===== verification/Evenk_Conqueue.thy ===== *)
theory Evenk_Conqueue
  imports Evenk_Prelude
begin

text \<open>
  \<^verbatim>\<open>evenk/conqueue.h\<close>: the status of a queue operation.
\<close>

datatype queue_op_status = St_success | St_empty | St_full | St_closed | St_busy

end
