(* ===== verification/Evenk_Ticket_Queue.thy ===== *)
theory Evenk_Ticket_Queue
  imports Evenk_Conqueue
begin

text \<open>
  The specification of the bounded queue: a queue in which producers and consumers draw
  tickets.

  Positions are unbounded.  A push draws the next position of the tail, and may store its
  value there as soon as the position \<open>size\<close> before it has been vacated; a pop draws the
  next position of the head and takes what is stored there.  A push that fails with an
  exception leaves its position broken; the pop that finds it so draws another position.
  Closing remembers the tail and skips \<open>size\<close> positions; a push or pop whose position is not
  before the remembered one may be refused.

  The specification emits the calls and the results as labels.  The invariant \<open>tq_inv\<close>
  and the relation \<open>tq_history\<close> between labels and states give what a user can rely on.
\<close>

datatype 'v op_result = Ret queue_op_status "'v option" | Threw

datatype 'v label =
    In tid 'v                 \<comment> \<open>a push draws its position\<close>
  | Out tid                   \<comment> \<open>a pop draws its position\<close>
  | Shut tid                  \<comment> \<open>the queue is closed\<close>
  | Res tid "'v op_result"    \<comment> \<open>a push or a pop returns\<close>

datatype 'v cell = Unused | Stored 'v | Broken | Taken

datatype 'v role =
    Resting
  | Pushing nat 'v
  | Popping nat
  | Took nat 'v
  | Returning "'v op_result"

record 'v tq =
  tq_in :: "'v list"
  tq_tail :: nat
  tq_head :: nat
  tq_cell :: "nat \<Rightarrow> 'v cell"
  tq_role :: "tid \<Rightarrow> 'v role"
  tq_last :: "nat option"

definition tq_init :: "'v tq" where
  "tq_init = \<lparr>tq_in = [], tq_tail = 0, tq_head = 0, tq_cell = (\<lambda>_. Unused),
              tq_role = (\<lambda>_. Resting), tq_last = None\<rparr>"

abbreviation with_role :: "'v tq \<Rightarrow> tid \<Rightarrow> 'v role \<Rightarrow> 'v tq" where
  "with_role a i r \<equiv> a\<lparr>tq_role := (tq_role a)(i := r)\<rparr>"

abbreviation with_cell :: "'v tq \<Rightarrow> nat \<Rightarrow> 'v cell \<Rightarrow> 'v tq" where
  "with_cell a p c \<equiv> a\<lparr>tq_cell := (tq_cell a)(p := c)\<rparr>"

definition vacant :: "nat \<Rightarrow> 'v tq \<Rightarrow> nat \<Rightarrow> bool" where
  "vacant sz a p \<longleftrightarrow> p < sz \<or> tq_cell a (p - sz) = Taken"

definition refused :: "'v tq \<Rightarrow> nat \<Rightarrow> bool" where
  "refused a p \<longleftrightarrow> (case tq_last a of None \<Rightarrow> False | Some l \<Rightarrow> l \<le> p)"

inductive tq_step :: "nat \<Rightarrow> 'v tq \<Rightarrow> 'v label list \<Rightarrow> 'v tq \<Rightarrow> bool" for sz where
  draw_push: "tq_role a i = Resting \<Longrightarrow>
     tq_step sz a [In i v]
       ((with_role a i (Pushing (tq_tail a) v))\<lparr>tq_in := tq_in a @ [v], tq_tail := Suc (tq_tail a)\<rparr>)"
| store: "tq_role a i = Pushing p v \<Longrightarrow> vacant sz a p \<Longrightarrow>
     tq_step sz a [] (with_role (with_cell a p (Stored v)) i (Returning (Ret St_success None)))"
| spoil: "tq_role a i = Pushing p v \<Longrightarrow> vacant sz a p \<Longrightarrow>
     tq_step sz a [] (with_role (with_cell a p Broken) i (Returning Threw))"
| refuse_push: "tq_role a i = Pushing p v \<Longrightarrow> refused a p \<Longrightarrow>
     tq_step sz a [Res i (Ret St_closed None)] (with_role a i Resting)"
| draw_pop: "tq_role a i = Resting \<Longrightarrow>
     tq_step sz a [Out i] ((with_role a i (Popping (tq_head a)))\<lparr>tq_head := Suc (tq_head a)\<rparr>)"
| take: "tq_role a i = Popping p \<Longrightarrow> tq_cell a p = Stored v \<Longrightarrow>
     tq_step sz a [] (with_role (with_cell a p Taken) i (Took p v))"
| drop: "tq_role a i = Popping p \<Longrightarrow> tq_cell a p = Stored v \<Longrightarrow>
     tq_step sz a [] (with_role (with_cell a p Taken) i (Returning Threw))"
| skip: "tq_role a i = Popping p \<Longrightarrow> tq_cell a p = Broken \<Longrightarrow>
     tq_step sz a [] (with_role (with_cell a p Taken) i Resting)"
| refuse_pop: "tq_role a i = Popping p \<Longrightarrow> refused a p \<Longrightarrow>
     tq_step sz a [Res i (Ret St_closed None)] (with_role a i Resting)"
| return_value: "tq_role a i = Took p v \<Longrightarrow>
     tq_step sz a [Res i (Ret St_success (Some v))] (with_role a i Resting)"
| return: "tq_role a i = Returning r \<Longrightarrow> tq_step sz a [Res i r] (with_role a i Resting)"
| shut: "tq_last a = None \<Longrightarrow>
     tq_step sz a [Shut i] (a\<lparr>tq_last := Some (tq_tail a), tq_tail := tq_tail a + sz\<rparr>)"

inductive tq_trace :: "nat \<Rightarrow> 'v label list \<Rightarrow> 'v tq \<Rightarrow> bool" for sz where
  start: "tq_trace sz [] tq_init"
| further: "tq_trace sz ls a \<Longrightarrow> tq_step sz a l b \<Longrightarrow> tq_trace sz (ls @ l) b"

subsection \<open>The invariant\<close>

text \<open>The positions that pushes drawn before the closing fill.\<close>

definition tq_limit :: "'v tq \<Rightarrow> nat" where
  "tq_limit a = (case tq_last a of None \<Rightarrow> tq_tail a | Some l \<Rightarrow> l)"

definition tq_inv :: "nat \<Rightarrow> nat \<Rightarrow> 'v tq \<Rightarrow> bool" where
  "tq_inv n sz a \<longleftrightarrow>
     (\<forall>i. n \<le> i \<longrightarrow> tq_role a i = Resting) \<and>
     (\<forall>i p v. tq_role a i = Pushing p v \<longrightarrow>
        p < tq_tail a \<and> tq_cell a p = Unused \<and>
        (p < tq_limit a \<and> p < length (tq_in a) \<and> tq_in a ! p = v \<or> tq_limit a + sz \<le> p)) \<and>
     (\<forall>i j p v w. tq_role a i = Pushing p v \<longrightarrow> tq_role a j = Pushing p w \<longrightarrow> i = j) \<and>
     (\<forall>i p. tq_role a i = Popping p \<longrightarrow> p < tq_head a \<and> tq_cell a p \<noteq> Taken) \<and>
     (\<forall>i j p. tq_role a i = Popping p \<longrightarrow> tq_role a j = Popping p \<longrightarrow> i = j) \<and>
     (\<forall>p < tq_limit a. tq_cell a p = Unused \<longrightarrow> (\<exists>i v. tq_role a i = Pushing p v)) \<and>
     (\<forall>p < tq_head a. p < tq_limit a \<or> tq_last a = None \<longrightarrow> tq_cell a p \<noteq> Taken \<longrightarrow> (\<exists>i. tq_role a i = Popping p)) \<and>
     (\<forall>p. tq_cell a p \<noteq> Unused \<longrightarrow> p < tq_limit a \<and> vacant sz a p) \<and>
     (\<forall>p v. tq_cell a p = Stored v \<longrightarrow> tq_in a ! p = v) \<and>
     (case tq_last a of None \<Rightarrow> length (tq_in a) = tq_tail a
        | Some l \<Rightarrow> l \<le> length (tq_in a) \<and> l + sz \<le> tq_tail a) \<and>
     (\<forall>p. tq_cell a p = Taken \<longrightarrow> p < tq_head a)"

lemma tq_invD:
  assumes "tq_inv n sz a"
  shows "n \<le> i \<Longrightarrow> tq_role a i = Resting"
    and "tq_role a i = Pushing p v \<Longrightarrow> p < tq_tail a"
    and "tq_role a i = Pushing p v \<Longrightarrow> tq_cell a p = Unused"
    and "tq_role a i = Pushing p v \<Longrightarrow>
      p < tq_limit a \<and> p < length (tq_in a) \<and> tq_in a ! p = v \<or> tq_limit a + sz \<le> p"
    and "tq_role a i = Pushing p v \<Longrightarrow> tq_role a j = Pushing p w \<Longrightarrow> i = j"
    and "tq_role a i = Popping p \<Longrightarrow> p < tq_head a"
    and "tq_role a i = Popping p \<Longrightarrow> tq_cell a p \<noteq> Taken"
    and "tq_role a i = Popping p \<Longrightarrow> tq_role a j = Popping p \<Longrightarrow> i = j"
    and "p < tq_limit a \<Longrightarrow> tq_cell a p = Unused \<Longrightarrow> \<exists>i v. tq_role a i = Pushing p v"
    and "p < tq_head a \<Longrightarrow> p < tq_limit a \<or> tq_last a = None \<Longrightarrow> tq_cell a p \<noteq> Taken \<Longrightarrow>
      \<exists>i. tq_role a i = Popping p"
    and "tq_cell a p \<noteq> Unused \<Longrightarrow> p < tq_limit a"
    and "tq_cell a p \<noteq> Unused \<Longrightarrow> vacant sz a p"
    and "tq_cell a p = Stored v \<Longrightarrow> tq_in a ! p = v"
    and "tq_last a = None \<Longrightarrow> length (tq_in a) = tq_tail a"
    and "tq_last a = Some l \<Longrightarrow> l \<le> length (tq_in a)"
    and "tq_last a = Some l \<Longrightarrow> l + sz \<le> tq_tail a"
    and "tq_cell a p = Taken \<Longrightarrow> p < tq_head a"
  using assms unfolding tq_inv_def by (blast | simp)+

lemma tq_invI:
  assumes "\<And>i. n \<le> i \<Longrightarrow> tq_role a i = Resting"
    and "\<And>i p v. tq_role a i = Pushing p v \<Longrightarrow> p < tq_tail a \<and> tq_cell a p = Unused \<and>
      (p < tq_limit a \<and> p < length (tq_in a) \<and> tq_in a ! p = v \<or> tq_limit a + sz \<le> p)"
    and "\<And>i j p v w. tq_role a i = Pushing p v \<Longrightarrow> tq_role a j = Pushing p w \<Longrightarrow> i = j"
    and "\<And>i p. tq_role a i = Popping p \<Longrightarrow> p < tq_head a \<and> tq_cell a p \<noteq> Taken"
    and "\<And>i j p. tq_role a i = Popping p \<Longrightarrow> tq_role a j = Popping p \<Longrightarrow> i = j"
    and "\<And>p. p < tq_limit a \<Longrightarrow> tq_cell a p = Unused \<Longrightarrow> \<exists>i v. tq_role a i = Pushing p v"
    and "\<And>p. p < tq_head a \<Longrightarrow> p < tq_limit a \<or> tq_last a = None \<Longrightarrow> tq_cell a p \<noteq> Taken \<Longrightarrow>
      \<exists>i. tq_role a i = Popping p"
    and "\<And>p. tq_cell a p \<noteq> Unused \<Longrightarrow> p < tq_limit a \<and> vacant sz a p"
    and "\<And>p v. tq_cell a p = Stored v \<Longrightarrow> tq_in a ! p = v"
    and "case tq_last a of None \<Rightarrow> length (tq_in a) = tq_tail a
        | Some l \<Rightarrow> l \<le> length (tq_in a) \<and> l + sz \<le> tq_tail a"
    and "\<And>p. tq_cell a p = Taken \<Longrightarrow> p < tq_head a"
  shows "tq_inv n sz a"
  unfolding tq_inv_def using assms by blast

lemma tq_inv_init: "tq_inv n sz tq_init"
  by (simp add: tq_inv_def tq_init_def tq_limit_def)

lemma active_below: "tq_inv n sz a \<Longrightarrow> tq_role a i \<noteq> Resting \<Longrightarrow> i < n"
  using tq_invD(1)[of n sz a i] by (meson not_less)

fun holds_ticket :: "'v role \<Rightarrow> bool" where
  "holds_ticket (Pushing p v) = True"
| "holds_ticket (Popping p) = True"
| "holds_ticket _ = False"

lemma refused_limit: "refused a p \<Longrightarrow> tq_last a \<noteq> None \<and> tq_limit a \<le> p"
  by (simp add: refused_def tq_limit_def split: option.splits)

lemma tq_limit_simps [simp]:
  "tq_limit (a\<lparr>tq_role := r\<rparr>) = tq_limit a" "tq_limit (a\<lparr>tq_cell := c\<rparr>) = tq_limit a"
  "tq_limit (a\<lparr>tq_head := h\<rparr>) = tq_limit a"
  by (simp_all add: tq_limit_def split: option.splits)

lemma vacant_simps [simp]:
  "vacant sz (a\<lparr>tq_role := r\<rparr>) = vacant sz a" "vacant sz (a\<lparr>tq_head := h\<rparr>) = vacant sz a"
  "vacant sz (a\<lparr>tq_tail := h\<rparr>) = vacant sz a" "vacant sz (a\<lparr>tq_in := vs\<rparr>) = vacant sz a"
  "vacant sz (a\<lparr>tq_last := l\<rparr>) = vacant sz a"
  by (simp_all add: vacant_def fun_eq_iff)

lemma tq_inv_leave:
  assumes inv: "tq_inv n sz a" and i: "tq_role a i = r0" "r0 \<noteq> Resting" "\<not> holds_ticket r"
    and ref: "\<And>p v. r0 = Pushing p v \<Longrightarrow> refused a p" "\<And>p. r0 = Popping p \<Longrightarrow> refused a p"
  shows "tq_inv n sz (with_role a i r)"
proof (rule tq_invI)
  let ?b = "with_role a i r"
  have old: "tq_role ?b j = Pushing p v \<Longrightarrow> tq_role a j = Pushing p v"
    "tq_role ?b j = Popping p \<Longrightarrow> tq_role a j = Popping p" for j p v
    using i(3) by (auto split: if_splits)
  show "tq_role ?b j = Resting" if "n \<le> j" for j
    using that active_below[OF inv, of i] tq_invD(1)[OF inv that] i(1,2) by auto
  show "p < tq_tail ?b \<and> tq_cell ?b p = Unused \<and>
      (p < tq_limit ?b \<and> p < length (tq_in ?b) \<and> tq_in ?b ! p = v \<or> tq_limit ?b + sz \<le> p)"
    if "tq_role ?b j = Pushing p v" for j p v
    using tq_invD(2,3,4)[OF inv old(1)[OF that]] by simp
  show "j = k" if "tq_role ?b j = Pushing p v" "tq_role ?b k = Pushing p w" for j k p v w
    by (rule tq_invD(5)[OF inv old(1)[OF that(1)] old(1)[OF that(2)]])
  show "p < tq_head ?b \<and> tq_cell ?b p \<noteq> Taken" if "tq_role ?b j = Popping p" for j p
    using tq_invD(6,7)[OF inv old(2)[OF that]] by simp
  show "j = k" if "tq_role ?b j = Popping p" "tq_role ?b k = Popping p" for j k p
    by (rule tq_invD(8)[OF inv old(2)[OF that(1)] old(2)[OF that(2)]])
  show "\<exists>j v. tq_role ?b j = Pushing p v" if p: "p < tq_limit ?b" "tq_cell ?b p = Unused" for p
  proof -
    obtain j v where j: "tq_role a j = Pushing p v"
      using tq_invD(9)[OF inv, of p] p by auto
    moreover have "j \<noteq> i" using j i(1) ref(1)[of p v] refused_limit[of a p] p(1) by auto
    ultimately show ?thesis by auto
  qed
  show "\<exists>j. tq_role ?b j = Popping p"
    if p: "p < tq_head ?b" "p < tq_limit ?b \<or> tq_last ?b = None" "tq_cell ?b p \<noteq> Taken" for p
  proof -
    obtain j where j: "tq_role a j = Popping p"
      using tq_invD(10)[OF inv, of p] p by auto
    moreover have "j \<noteq> i" using j i(1) ref(2)[of p] refused_limit[of a p] p(2) by auto
    ultimately show ?thesis by auto
  qed
  show "p < tq_limit ?b \<and> vacant sz ?b p" if "tq_cell ?b p \<noteq> Unused" for p
    using tq_invD(11,12)[OF inv, of p] that by simp
  show "tq_in ?b ! p = v" if "tq_cell ?b p = Stored v" for p v
    using tq_invD(13)[OF inv, of p v] that by simp
  show "case tq_last ?b of None \<Rightarrow> length (tq_in ?b) = tq_tail ?b
        | Some l \<Rightarrow> l \<le> length (tq_in ?b) \<and> l + sz \<le> tq_tail ?b"
    using tq_invD(14-16)[OF inv] by (simp split: option.splits)
  show "q < tq_head ?b" if "tq_cell ?b q = Taken" for q
    using tq_invD(17)[OF inv, of q] that by (auto split: if_splits)
qed

text \<open>A push that may store at its position was drawn before the closing.\<close>

lemma storable_below_limit:
  assumes inv: "tq_inv n sz a" and i: "tq_role a i = Pushing p v" "vacant sz a p"
  shows "p < tq_limit a" and "p < length (tq_in a)" and "tq_in a ! p = v"
proof -
  have "\<not> tq_limit a + sz \<le> p"
  proof
    assume le: "tq_limit a + sz \<le> p"
    then have "tq_cell a (p - sz) = Taken" using i(2) by (simp add: vacant_def)
    then have "p - sz < tq_limit a" using tq_invD(11)[OF inv, of "p - sz"] by simp
    with le show False by simp
  qed
  then show "p < tq_limit a" "p < length (tq_in a)" "tq_in a ! p = v"
    using tq_invD(4)[OF inv i(1)] by simp_all
qed

lemma tq_inv_fill:
  assumes inv: "tq_inv n sz a" and i: "tq_role a i = Pushing p v" "vacant sz a p" "\<not> holds_ticket r"
    and c: "c = Stored v \<or> c = Broken"
  shows "tq_inv n sz (with_role (with_cell a p c) i r)"
proof (rule tq_invI)
  let ?b = "with_role (with_cell a p c) i r"
  have old: "tq_role ?b j = Pushing q w \<Longrightarrow> tq_role a j = Pushing q w \<and> q \<noteq> p"
    "tq_role ?b j = Popping q \<Longrightarrow> tq_role a j = Popping q" for j q w
    using i(3) tq_invD(5)[OF inv, of j q w i v] i(1) by (auto split: if_splits)
  have lim: "tq_limit ?b = tq_limit a" by simp
  have u: "tq_cell a p = Unused" by (rule tq_invD(3)[OF inv i(1)])
  show "tq_role ?b j = Resting" if "n \<le> j" for j
    using that active_below[OF inv, of i] tq_invD(1)[OF inv that] i(1) by auto
  show "q < tq_tail ?b \<and> tq_cell ?b q = Unused \<and>
      (q < tq_limit ?b \<and> q < length (tq_in ?b) \<and> tq_in ?b ! q = w \<or> tq_limit ?b + sz \<le> q)"
    if "tq_role ?b j = Pushing q w" for j q w
    using tq_invD(2,3,4)[OF inv conjunct1[OF old(1)[OF that]]] old(1)[OF that] by (simp add: lim)
  show "j = k" if "tq_role ?b j = Pushing q w" "tq_role ?b k = Pushing q x" for j k q w x
    by (rule tq_invD(5)[OF inv conjunct1[OF old(1)[OF that(1)]] conjunct1[OF old(1)[OF that(2)]]])
  show "q < tq_head ?b \<and> tq_cell ?b q \<noteq> Taken" if "tq_role ?b j = Popping q" for j q
    using tq_invD(6,7)[OF inv old(2)[OF that]] c by auto
  show "j = k" if "tq_role ?b j = Popping q" "tq_role ?b k = Popping q" for j k q
    by (rule tq_invD(8)[OF inv old(2)[OF that(1)] old(2)[OF that(2)]])
  show "\<exists>j w. tq_role ?b j = Pushing q w" if q: "q < tq_limit ?b" "tq_cell ?b q = Unused" for q
  proof -
    have "q \<noteq> p" using q(2) c by auto
    then obtain j w where j: "tq_role a j = Pushing q w"
      using tq_invD(9)[OF inv, of q] q by (auto simp: lim)
    moreover have "j \<noteq> i" using j i(1) \<open>q \<noteq> p\<close> by auto
    ultimately show ?thesis by auto
  qed
  show "\<exists>j. tq_role ?b j = Popping q"
    if q: "q < tq_head ?b" "q < tq_limit ?b \<or> tq_last ?b = None" "tq_cell ?b q \<noteq> Taken" for q
  proof -
    have "tq_cell a q \<noteq> Taken" using q(3) u by (auto split: if_splits)
    then obtain j where j: "tq_role a j = Popping q"
      using tq_invD(10)[OF inv, of q] q by (auto simp: lim)
    moreover have "j \<noteq> i" using j i(1) by auto
    ultimately show ?thesis by auto
  qed
  show "q < tq_limit ?b \<and> vacant sz ?b q" if "tq_cell ?b q \<noteq> Unused" for q
    using tq_invD(11,12)[OF inv, of q] that storable_below_limit(1)[OF inv i(1,2)] i(2) u
    by (auto simp: lim vacant_def split: if_splits)
  show "tq_in ?b ! q = w" if "tq_cell ?b q = Stored w" for q w
    using tq_invD(13)[OF inv, of q w] that c storable_below_limit(3)[OF inv i(1,2)]
    by (auto split: if_splits)
  show "case tq_last ?b of None \<Rightarrow> length (tq_in ?b) = tq_tail ?b
        | Some l \<Rightarrow> l \<le> length (tq_in ?b) \<and> l + sz \<le> tq_tail ?b"
    using tq_invD(14-16)[OF inv] by (simp split: option.splits)
  show "q < tq_head ?b" if "tq_cell ?b q = Taken" for q
    using tq_invD(17)[OF inv, of q] that c by (auto split: if_splits)
qed

lemma tq_inv_vacate:
  assumes inv: "tq_inv n sz a" and i: "tq_role a i = Popping p" "tq_cell a p \<noteq> Unused" "\<not> holds_ticket r"
  shows "tq_inv n sz (with_role (with_cell a p Taken) i r)"
proof (rule tq_invI)
  let ?b = "with_role (with_cell a p Taken) i r"
  have old: "tq_role ?b j = Pushing q w \<Longrightarrow> tq_role a j = Pushing q w"
    "tq_role ?b j = Popping q \<Longrightarrow> tq_role a j = Popping q \<and> q \<noteq> p" for j q w
    using i(3) tq_invD(8)[OF inv, of j q i] i(1) by (auto split: if_splits)
  have lim: "tq_limit ?b = tq_limit a" by simp
  show "tq_role ?b j = Resting" if "n \<le> j" for j
    using that active_below[OF inv, of i] tq_invD(1)[OF inv that] i(1) by auto
  show "q < tq_tail ?b \<and> tq_cell ?b q = Unused \<and>
      (q < tq_limit ?b \<and> q < length (tq_in ?b) \<and> tq_in ?b ! q = w \<or> tq_limit ?b + sz \<le> q)"
    if "tq_role ?b j = Pushing q w" for j q w
    using tq_invD(2,3,4)[OF inv old(1)[OF that]] i(2) by (auto simp: lim)
  show "j = k" if "tq_role ?b j = Pushing q w" "tq_role ?b k = Pushing q x" for j k q w x
    by (rule tq_invD(5)[OF inv old(1)[OF that(1)] old(1)[OF that(2)]])
  show "q < tq_head ?b \<and> tq_cell ?b q \<noteq> Taken" if "tq_role ?b j = Popping q" for j q
    using tq_invD(6,7)[OF inv conjunct1[OF old(2)[OF that]]] old(2)[OF that] by simp
  show "j = k" if "tq_role ?b j = Popping q" "tq_role ?b k = Popping q" for j k q
    by (rule tq_invD(8)[OF inv conjunct1[OF old(2)[OF that(1)]] conjunct1[OF old(2)[OF that(2)]]])
  show "\<exists>j w. tq_role ?b j = Pushing q w" if q: "q < tq_limit ?b" "tq_cell ?b q = Unused" for q
  proof -
    have "q \<noteq> p" using q(2) by auto
    then obtain j w where j: "tq_role a j = Pushing q w"
      using tq_invD(9)[OF inv, of q] q by (auto simp: lim)
    moreover have "j \<noteq> i" using j i(1) by auto
    ultimately show ?thesis by auto
  qed
  show "\<exists>j. tq_role ?b j = Popping q"
    if q: "q < tq_head ?b" "q < tq_limit ?b \<or> tq_last ?b = None" "tq_cell ?b q \<noteq> Taken" for q
  proof -
    have qp: "q \<noteq> p" using q(3) by auto
    then obtain j where j: "tq_role a j = Popping q"
      using tq_invD(10)[OF inv, of q] q by (auto simp: lim)
    moreover have "j \<noteq> i" using j i(1) qp by auto
    ultimately show ?thesis by auto
  qed
  show "q < tq_limit ?b \<and> vacant sz ?b q" if "tq_cell ?b q \<noteq> Unused" for q
    using tq_invD(11,12)[OF inv, of q] that i(2) by (auto simp: lim vacant_def split: if_splits)
  show "tq_in ?b ! q = w" if "tq_cell ?b q = Stored w" for q w
    using tq_invD(13)[OF inv, of q w] that by (auto split: if_splits)
  show "case tq_last ?b of None \<Rightarrow> length (tq_in ?b) = tq_tail ?b
        | Some l \<Rightarrow> l \<le> length (tq_in ?b) \<and> l + sz \<le> tq_tail ?b"
    using tq_invD(14-16)[OF inv] by (simp split: option.splits)
  show "q < tq_head ?b" if "tq_cell ?b q = Taken" for q
    using tq_invD(17)[OF inv, of q] that tq_invD(6)[OF inv i(1)] by (auto split: if_splits)
qed

lemma tq_inv_draw_push:
  assumes inv: "tq_inv n sz a" and i: "tq_role a i = Resting" "i < n"
  shows "tq_inv n sz ((with_role a i (Pushing (tq_tail a) v))\<lparr>tq_in := tq_in a @ [v], tq_tail := Suc (tq_tail a)\<rparr>)"
proof (rule tq_invI)
  let ?b = "(with_role a i (Pushing (tq_tail a) v))\<lparr>tq_in := tq_in a @ [v], tq_tail := Suc (tq_tail a)\<rparr>"
  have role: "tq_role ?b j = Pushing p w \<Longrightarrow> j = i \<and> p = tq_tail a \<and> w = v \<or> j \<noteq> i \<and> tq_role a j = Pushing p w"
    "tq_role ?b j = Popping p \<Longrightarrow> tq_role a j = Popping p" for j p w
    by (auto split: if_splits)
  have lim: "tq_limit ?b = (if tq_last a = None then Suc (tq_tail a) else tq_limit a)"
    by (auto simp: tq_limit_def split: option.splits)
  have le: "tq_limit a \<le> tq_tail a" using tq_invD(16)[OF inv] by (fastforce simp: tq_limit_def split: option.splits)
  have unused: "tq_cell a p = Unused" if "tq_tail a \<le> p" for p
    using tq_invD(11)[OF inv, of p] that le by fastforce
  show "tq_role ?b j = Resting" if "n \<le> j" for j
    using that tq_invD(1)[OF inv that] i(2) by auto
  show "p < tq_tail ?b \<and> tq_cell ?b p = Unused \<and>
      (p < tq_limit ?b \<and> p < length (tq_in ?b) \<and> tq_in ?b ! p = w \<or> tq_limit ?b + sz \<le> p)"
    if "tq_role ?b j = Pushing p w" for j p w
    using role(1)[OF that]
  proof
    assume "j = i \<and> p = tq_tail a \<and> w = v"
    then show ?thesis
      using unused[of p] tq_invD(14,16)[OF inv]
      by (cases "tq_last a") (auto simp: lim tq_limit_def nth_append)
  next
    assume "j \<noteq> i \<and> tq_role a j = Pushing p w"
    then show ?thesis
      using tq_invD(2-4)[OF inv, of j p w] tq_invD(14)[OF inv]
      by (cases "tq_last a") (auto simp: lim nth_append tq_limit_def)
  qed
  show "j = k" if "tq_role ?b j = Pushing p w" "tq_role ?b k = Pushing p x" for j k p w x
    using role(1)[OF that(1)] role(1)[OF that(2)] tq_invD(2)[OF inv] tq_invD(5)[OF inv, of j p w k x]
    by fastforce
  show "p < tq_head ?b \<and> tq_cell ?b p \<noteq> Taken" if "tq_role ?b j = Popping p" for j p
    using tq_invD(6,7)[OF inv role(2)[OF that]] by simp
  show "j = k" if "tq_role ?b j = Popping p" "tq_role ?b k = Popping p" for j k p
    by (rule tq_invD(8)[OF inv role(2)[OF that(1)] role(2)[OF that(2)]])
  show "\<exists>j w. tq_role ?b j = Pushing p w" if p: "p < tq_limit ?b" "tq_cell ?b p = Unused" for p
  proof (cases "p < tq_limit a")
    case True
    then obtain j w where j: "tq_role a j = Pushing p w" using tq_invD(9)[OF inv, of p] p by auto
    moreover have "j \<noteq> i" using j i(1) by auto
    ultimately show ?thesis by auto
  next
    case False
    then have "p = tq_tail a" using p(1) unfolding lim by (auto simp: tq_limit_def split: if_splits option.splits)
    then have "tq_role ?b i = Pushing p v" by simp
    then show ?thesis by blast
  qed
  show "\<exists>j. tq_role ?b j = Popping p"
    if p: "p < tq_head ?b" "p < tq_limit ?b \<or> tq_last ?b = None" "tq_cell ?b p \<noteq> Taken" for p
  proof -
    obtain j where j: "tq_role a j = Popping p"
      using tq_invD(10)[OF inv, of p] p by (auto simp: lim split: if_splits)
    moreover have "j \<noteq> i" using j i(1) by auto
    ultimately show ?thesis by auto
  qed
  show "p < tq_limit ?b \<and> vacant sz ?b p" if "tq_cell ?b p \<noteq> Unused" for p
    using tq_invD(11,12)[OF inv, of p] that le by (auto simp: lim)
  show "tq_in ?b ! p = w" if "tq_cell ?b p = Stored w" for p w
  proof -
    have "p < length (tq_in a)"
      using tq_invD(11)[OF inv, of p] that tq_invD(14,15)[OF inv] by (fastforce simp: tq_limit_def split: option.splits)
    then show ?thesis using tq_invD(13)[OF inv, of p w] that by (simp add: nth_append)
  qed
  show "case tq_last ?b of None \<Rightarrow> length (tq_in ?b) = tq_tail ?b
        | Some l \<Rightarrow> l \<le> length (tq_in ?b) \<and> l + sz \<le> tq_tail ?b"
    using tq_invD(14-16)[OF inv] by (fastforce split: option.splits)
  show "p < tq_head ?b" if "tq_cell ?b p = Taken" for p
    using tq_invD(17)[OF inv, of p] that by simp
qed

lemma tq_inv_draw_pop:
  assumes inv: "tq_inv n sz a" and i: "tq_role a i = Resting" "i < n"
  shows "tq_inv n sz ((with_role a i (Popping (tq_head a)))\<lparr>tq_head := Suc (tq_head a)\<rparr>)"
proof (rule tq_invI)
  let ?b = "(with_role a i (Popping (tq_head a)))\<lparr>tq_head := Suc (tq_head a)\<rparr>"
  have role: "tq_role ?b j = Pushing p w \<Longrightarrow> tq_role a j = Pushing p w"
    "tq_role ?b j = Popping p \<Longrightarrow> j = i \<and> p = tq_head a \<or> j \<noteq> i \<and> tq_role a j = Popping p" for j p w
    by (auto split: if_splits)
  show "tq_role ?b j = Resting" if "n \<le> j" for j
    using that tq_invD(1)[OF inv that] i(2) by auto
  show "p < tq_tail ?b \<and> tq_cell ?b p = Unused \<and>
      (p < tq_limit ?b \<and> p < length (tq_in ?b) \<and> tq_in ?b ! p = w \<or> tq_limit ?b + sz \<le> p)"
    if "tq_role ?b j = Pushing p w" for j p w
    using tq_invD(2-4)[OF inv role(1)[OF that]] by simp
  show "j = k" if "tq_role ?b j = Pushing p w" "tq_role ?b k = Pushing p x" for j k p w x
    by (rule tq_invD(5)[OF inv role(1)[OF that(1)] role(1)[OF that(2)]])
  show "p < tq_head ?b \<and> tq_cell ?b p \<noteq> Taken" if "tq_role ?b j = Popping p" for j p
    using role(2)[OF that] tq_invD(6,7)[OF inv, of j p] tq_invD(17)[OF inv, of p] by auto
  show "j = k" if "tq_role ?b j = Popping p" "tq_role ?b k = Popping p" for j k p
    using role(2)[OF that(1)] role(2)[OF that(2)] tq_invD(6)[OF inv] tq_invD(8)[OF inv, of j p k] by fastforce
  show "\<exists>j w. tq_role ?b j = Pushing p w" if p: "p < tq_limit ?b" "tq_cell ?b p = Unused" for p
  proof -
    obtain j w where j: "tq_role a j = Pushing p w" using tq_invD(9)[OF inv, of p] p by auto
    moreover have "j \<noteq> i" using j i(1) by auto
    ultimately show ?thesis by auto
  qed
  show "\<exists>j. tq_role ?b j = Popping p"
    if p: "p < tq_head ?b" "p < tq_limit ?b \<or> tq_last ?b = None" "tq_cell ?b p \<noteq> Taken" for p
  proof (cases "p = tq_head a")
    case True
    then have "tq_role ?b i = Popping p" by simp
    then show ?thesis by blast
  next
    case False
    then obtain j where j: "tq_role a j = Popping p"
      using tq_invD(10)[OF inv, of p] p by auto
    moreover have "j \<noteq> i" using j i(1) by auto
    ultimately show ?thesis by auto
  qed
  show "p < tq_limit ?b \<and> vacant sz ?b p" if "tq_cell ?b p \<noteq> Unused" for p
    using tq_invD(11,12)[OF inv, of p] that by simp
  show "tq_in ?b ! p = w" if "tq_cell ?b p = Stored w" for p w
    using tq_invD(13)[OF inv, of p w] that by simp
  show "case tq_last ?b of None \<Rightarrow> length (tq_in ?b) = tq_tail ?b
        | Some l \<Rightarrow> l \<le> length (tq_in ?b) \<and> l + sz \<le> tq_tail ?b"
    using tq_invD(14-16)[OF inv] by (simp split: option.splits)
  show "p < tq_head ?b" if "tq_cell ?b p = Taken" for p
    using tq_invD(17)[OF inv, of p] that by simp
qed

lemma tq_inv_shut:
  assumes inv: "tq_inv n sz a" and l: "tq_last a = None"
  shows "tq_inv n sz (a\<lparr>tq_last := Some (tq_tail a), tq_tail := tq_tail a + sz\<rparr>)"
proof (rule tq_invI)
  let ?b = "a\<lparr>tq_last := Some (tq_tail a), tq_tail := tq_tail a + sz\<rparr>"
  have lim: "tq_limit ?b = tq_tail a" "tq_limit a = tq_tail a"
    using l by (simp_all add: tq_limit_def)
  show "p < tq_tail ?b \<and> tq_cell ?b p = Unused \<and>
      (p < tq_limit ?b \<and> p < length (tq_in ?b) \<and> tq_in ?b ! p = w \<or> tq_limit ?b + sz \<le> p)"
    if "tq_role ?b j = Pushing p w" for j p w
    using tq_invD(2-4)[OF inv, of j p w] that lim by auto
  show "\<exists>j w. tq_role ?b j = Pushing p w" if "p < tq_limit ?b" "tq_cell ?b p = Unused" for p
    using tq_invD(9)[OF inv, of p] that lim by simp
  show "\<exists>j. tq_role ?b j = Popping p"
    if "p < tq_head ?b" "p < tq_limit ?b \<or> tq_last ?b = None" "tq_cell ?b p \<noteq> Taken" for p
    using tq_invD(10)[OF inv, of p] that l by simp
  show "p < tq_limit ?b \<and> vacant sz ?b p" if "tq_cell ?b p \<noteq> Unused" for p
    using tq_invD(11,12)[OF inv, of p] that lim by simp
  show "j = k" if "tq_role ?b j = Pushing p w" "tq_role ?b k = Pushing p x" for j k p w x
    using that tq_invD(5)[OF inv, of j p w k x] by simp
  show "j = k" if "tq_role ?b j = Popping p" "tq_role ?b k = Popping p" for j k p
    using that tq_invD(8)[OF inv, of j p k] by simp
  show "p < tq_head ?b \<and> tq_cell ?b p \<noteq> Taken" if "tq_role ?b j = Popping p" for j p
    using that tq_invD(6,7)[OF inv, of j p] by simp
qed (use l tq_invD(1,13,14,17)[OF inv] in simp_all)

lemma tq_inv_step:
  assumes "tq_step sz a l b" and inv: "tq_inv n sz a"
    and new: "\<And>i v. l = [In i v] \<or> l = [Out i] \<Longrightarrow> i < n"
  shows "tq_inv n sz b"
  using assms(1) new
proof cases
  case (draw_push i v)
  then show ?thesis using new tq_inv_draw_push[OF inv] by simp
next
  case (draw_pop i)
  then show ?thesis using new tq_inv_draw_pop[OF inv] by simp
next
  case (shut i)
  then show ?thesis using tq_inv_shut[OF inv] by simp
next
  case (store i p v)
  then show ?thesis using tq_inv_fill[OF inv] by simp
next
  case (spoil i p v)
  then show ?thesis using tq_inv_fill[OF inv] by simp
next
  case (take i p v)
  then show ?thesis using tq_inv_vacate[OF inv] by simp
next
  case (drop i p v)
  then show ?thesis using tq_inv_vacate[OF inv] by simp
next
  case (skip i p)
  then show ?thesis using tq_inv_vacate[OF inv] by simp
qed (simp, erule tq_inv_leave[OF inv]; simp)+

subsection \<open>The slots of the ring serve one position each\<close>

text \<open>A position is served when everything before it in its slot has been taken, and it has not.\<close>

definition serves :: "nat \<Rightarrow> 'v tq \<Rightarrow> nat \<Rightarrow> bool" where
  "serves sz a p \<longleftrightarrow> vacant sz a p \<and> tq_cell a p \<noteq> Taken"

lemma taken_below:
  assumes inv: "tq_inv n sz a" and "vacant sz a p" and "0 < sz" and "q < p" and "q mod sz = p mod sz"
  shows "tq_cell a q = Taken"
  using assms(2,4,5)
proof (induction p rule: less_induct)
  case (less p)
  have ge: "sz \<le> p" using less.prems(2,3) by (metis mod_less not_less less_trans nat_neq_iff)
  with less.prems(1) have t: "tq_cell a (p - sz) = Taken" by (simp add: vacant_def)
  have m: "(p - sz) mod sz = p mod sz" using ge by (simp add: le_mod_geq)
  show ?case
  proof (cases "q = p - sz")
    case False
    have "sz dvd p - q" using less.prems(2,3) mod_eq_dvd_iff_nat[of q p sz] by simp
    then have "sz \<le> p - q" using less.prems(2) by (intro dvd_imp_le) simp_all
    with False less.prems(2) ge have lt: "q < p - sz" by linarith
    have "vacant sz a (p - sz)" using tq_invD(12)[OF inv, of "p - sz"] t by simp
    from less.IH[OF _ this lt] show ?thesis using ge assms(3) less.prems(3) m by simp
  qed (simp add: t)
qed

lemma serves_unique:
  assumes "tq_inv n sz a" and "0 < sz" and "serves sz a p" and "serves sz a q" and "p mod sz = q mod sz"
  shows "p = q"
  using assms taken_below[OF assms(1), of p q] taken_below[OF assms(1), of q p]
  by (metis nat_neq_iff serves_def)

lemma serves_least:
  assumes "tq_inv n sz a" and "0 < sz" and "serves sz a p" and "tq_cell a q \<noteq> Taken" and "p mod sz = q mod sz"
  shows "p \<le> q"
  using assms taken_below[OF assms(1), of p q] by (metis not_less serves_def)

text \<open>
  How far the positions in use can be ahead of the position that a slot serves: every position
  of the slot in between has a thread of its own that waits for it.
\<close>

lemma pigeonhole:
  fixes n :: nat
  assumes "\<And>k. k \<le> n \<Longrightarrow> \<exists>i < n. f i = Some (g k)" and "inj g"
  shows False
proof -
  have "g ` {..n} \<subseteq> (\<lambda>i. the (f i)) ` {..<n}"
  proof (rule image_subsetI)
    fix k
    assume "k \<in> {..n}"
    then obtain i where "i < n" "f i = Some (g k)" using assms(1)[of k] by auto
    then show "g k \<in> (\<lambda>i. the (f i)) ` {..<n}" by (intro image_eqI[of _ _ i]) simp_all
  qed
  then have "card (g ` {..n}) \<le> card {..<n}"
    by (rule surj_card_le[OF finite_lessThan])
  moreover have "card (g ` {..n}) = Suc n"
    using assms(2) by (simp add: card_image inj_on_subset)
  ultimately show False by simp
qed

lemma unused_above:
  assumes "tq_inv n sz a" and "0 < sz" and "serves sz a q" and "q < p" and "p mod sz = q mod sz"
  shows "tq_cell a p = Unused"
proof (rule ccontr)
  assume "tq_cell a p \<noteq> Unused"
  then have "vacant sz a p" by (rule tq_invD(12)[OF assms(1)])
  then have "tq_cell a q = Taken" using assms taken_below[OF assms(1), of p q] by simp
  then show False using assms(3) by (simp add: serves_def)
qed

lemma push_gap:
  assumes inv: "tq_inv n sz a" and sz: "0 < sz" and q: "serves sz a q"
  shows "tq_limit a \<le> q + sz * (n + 1)"
proof (rule ccontr)
  assume gt: "\<not> tq_limit a \<le> q + sz * (n + 1)"
  let ?f = "\<lambda>i. case tq_role a i of Pushing p v \<Rightarrow> Some p | _ \<Rightarrow> None" and ?g = "\<lambda>k. q + sz * (k + 1)"
  have "\<exists>i < n. ?f i = Some (?g k)" if "k \<le> n" for k
  proof -
    have "?g k \<le> q + sz * (n + 1)" using that by simp
    then have "?g k < tq_limit a" using gt by linarith
    moreover have "tq_cell a (?g k) = Unused"
    proof (rule unused_above[OF inv sz q])
      show "q < ?g k" using sz by simp
      show "?g k mod sz = q mod sz" by (rule mod_mult_self2)
    qed
    ultimately obtain i v where i: "tq_role a i = Pushing (?g k) v"
      using tq_invD(9)[OF inv] by blast
    then have "i < n" by (intro active_below[OF inv]) simp
    with i show ?thesis by auto
  qed
  moreover have "inj ?g" using sz by (auto simp: inj_def)
  ultimately show False by (rule pigeonhole)
qed

lemma pop_gap:
  assumes inv: "tq_inv n sz a" and sz: "0 < sz" and q: "serves sz a q"
    and p: "p < tq_head a" "p < tq_limit a \<or> tq_last a = None"
  shows "p < q + sz * n"
proof (rule ccontr)
  assume gt: "\<not> p < q + sz * n"
  let ?f = "\<lambda>i. case tq_role a i of Popping p \<Rightarrow> Some p | _ \<Rightarrow> None" and ?g = "\<lambda>k. q + sz * k"
  have "\<exists>i < n. ?f i = Some (?g k)" if "k \<le> n" for k
  proof -
    have le: "?g k \<le> p" using that gt by (meson add_left_mono le_trans mult_le_mono2 not_less)
    have "tq_cell a (?g k) \<noteq> Taken"
    proof (cases "k = 0")
      case True
      then show ?thesis using q by (simp add: serves_def)
    next
      case False
      then have "tq_cell a (?g k) = Unused"
        using sz by (intro unused_above[OF inv sz q]) (auto simp: mult.commute)
      then show ?thesis by simp
    qed
    moreover have "?g k < tq_head a" "?g k < tq_limit a \<or> tq_last a = None" using le p by linarith+
    ultimately obtain i where i: "tq_role a i = Popping (?g k)"
      using tq_invD(10)[OF inv] by blast
    then have "i < n" by (intro active_below[OF inv]) simp
    with i show ?thesis by auto
  qed
  moreover have "inj ?g" using sz by (auto simp: inj_def)
  ultimately show False by (rule pigeonhole)
qed

subsection \<open>Labels and states\<close>

text \<open>The values pushed and the threads that popped, in the order of their positions.\<close>

fun ins :: "'v label list \<Rightarrow> 'v list" where
  "ins [] = []"
| "ins (In i v # ls) = v # ins ls"
| "ins (_ # ls) = ins ls"

fun outs :: "'v label list \<Rightarrow> tid list" where
  "outs [] = []"
| "outs (Out i # ls) = i # outs ls"
| "outs (_ # ls) = outs ls"

fun is_shut :: "'v label \<Rightarrow> bool" where
  "is_shut (Shut i) = True"
| "is_shut _ = False"

definition before_shut :: "'v label list \<Rightarrow> 'v label list" where
  "before_shut ls = takeWhile (\<lambda>l. \<not> is_shut l) ls"

text \<open>The last position that a thread drew for a pop.\<close>

definition ticket_of_pop :: "'v label list \<Rightarrow> tid \<Rightarrow> nat \<Rightarrow> bool" where
  "ticket_of_pop ls i d \<longleftrightarrow>
     d < length (outs ls) \<and> outs ls ! d = i \<and> (\<forall>e. d < e \<and> e < length (outs ls) \<longrightarrow> outs ls ! e \<noteq> i)"

lemma ins_append [simp]: "ins (xs @ ys) = ins xs @ ins ys"
  by (induction xs rule: ins.induct) simp_all

lemma outs_append [simp]: "outs (xs @ ys) = outs xs @ outs ys"
  by (induction xs rule: outs.induct) simp_all

lemma ticket_of_pop_new: "ticket_of_pop (ls @ [Out i]) i (length (outs ls))"
  by (simp add: ticket_of_pop_def)

lemma ticket_of_pop_kept:
  "ticket_of_pop ls i d \<Longrightarrow> i \<notin> set (outs l) \<Longrightarrow> ticket_of_pop (ls @ l) i d"
  by (auto simp: ticket_of_pop_def nth_append) (metis nth_mem add_diff_inverse_nat nat_add_left_cancel_less)

definition tq_history :: "'v label list \<Rightarrow> 'v tq \<Rightarrow> bool" where
  "tq_history ls a \<longleftrightarrow>
     tq_in a = ins ls \<and> tq_head a = length (outs ls) \<and>
     (\<forall>i p. tq_role a i = Popping p \<longrightarrow> ticket_of_pop ls i p) \<and>
     (\<forall>i p v. tq_role a i = Took p v \<longrightarrow> ticket_of_pop ls i p \<and> p < length (ins ls) \<and> ins ls ! p = v) \<and>
     (\<forall>i r. tq_role a i = Returning r \<longrightarrow> r = Ret St_success None \<or> r = Threw) \<and>
     tq_last a = (if list_all (\<lambda>l. \<not> is_shut l) ls then None else Some (length (ins (before_shut ls))))"

lemma tq_historyD:
  assumes "tq_history ls a"
  shows "tq_in a = ins ls" and "tq_head a = length (outs ls)"
    and "tq_role a i = Popping p \<Longrightarrow> ticket_of_pop ls i p"
    and "tq_role a i = Took p v \<Longrightarrow> ticket_of_pop ls i p \<and> p < length (ins ls) \<and> ins ls ! p = v"
    and "tq_role a i = Returning r \<Longrightarrow> r = Ret St_success None \<or> r = Threw"
    and "tq_last a = (if list_all (\<lambda>l. \<not> is_shut l) ls then None else Some (length (ins (before_shut ls))))"
  using assms unfolding tq_history_def by blast+

lemma before_shut_kept:
  "\<not> list_all (\<lambda>l. \<not> is_shut l) ls \<Longrightarrow> before_shut (ls @ xs) = before_shut ls"
  by (auto simp: before_shut_def list_all_iff intro: takeWhile_append1)

lemma before_shut_none: "list_all (\<lambda>l. \<not> is_shut l) ls \<Longrightarrow> before_shut (ls @ Shut i # xs) = ls"
  by (auto simp: before_shut_def list_all_iff takeWhile_append)

lemma tq_history_init: "tq_history [] tq_init"
  by (simp add: tq_history_def tq_init_def)

lemma tq_history_step:
  assumes st: "tq_step sz a l b" and inv: "tq_inv n sz a" and h: "tq_history ls a"
  shows "tq_history (ls @ l) b"
  using st
proof cases
  case (draw_push i v)
  then show ?thesis
    using tq_historyD[OF h] unfolding tq_history_def
    by (auto simp: before_shut_kept nth_append intro!: ticket_of_pop_kept less_SucI)
next
  case (draw_pop i)
  then show ?thesis
    using tq_historyD[OF h] ticket_of_pop_new[of ls i] unfolding tq_history_def
    by (auto simp: before_shut_kept intro!: ticket_of_pop_kept)
next
  case (take i p v)
  then show ?thesis
    using tq_historyD[OF h] tq_invD(11,13)[OF inv, of p] tq_invD(14,15)[OF inv] unfolding tq_history_def
    by (auto simp: before_shut_kept tq_limit_def split: option.splits)
next
  case (shut i)
  then show ?thesis
    using tq_historyD[OF h] tq_invD(14)[OF inv] unfolding tq_history_def
    by (auto simp: before_shut_none intro!: ticket_of_pop_kept split: if_splits)
qed (use tq_historyD[OF h] in \<open>auto simp: tq_history_def before_shut_kept intro!: ticket_of_pop_kept split: if_splits\<close>)

fun label_tid :: "'v label \<Rightarrow> tid" where
  "label_tid (In i v) = i"
| "label_tid (Out i) = i"
| "label_tid (Shut i) = i"
| "label_tid (Res i r) = i"

lemma tq_trace_inv:
  assumes "tq_trace sz ls a" and "list_all (\<lambda>l. label_tid l < n) ls"
  shows "tq_inv n sz a \<and> tq_history ls a"
  using assms
proof induction
  case start
  then show ?case by (simp add: tq_inv_init tq_history_init)
next
  case (further ls a l b)
  then have inv: "tq_inv n sz a" and h: "tq_history ls a" by simp_all
  have "tq_inv n sz b"
    using further(4) by (intro tq_inv_step[OF further(2) inv]) auto
  then show ?case using tq_history_step[OF further(2) inv h] by simp
qed

lemma tq_step_labels: "tq_step sz a l b \<Longrightarrow> l = [] \<or> (\<exists>x. l = [x])"
  by (cases rule: tq_step.cases) auto

lemma tq_trace_split:
  assumes "tq_trace sz ls a" and "ls = xs @ l # ys"
  shows "\<exists>b c. tq_trace sz xs b \<and> tq_step sz b [l] c"
  using assms
proof (induction arbitrary: ys)
  case start
  then show ?case by simp
next
  case (further ls a k b)
  consider "k = []" | x where "k = [x]" using tq_step_labels[OF further(2)] by blast
  then show ?case
  proof cases
    case 1
    then show ?thesis using further by simp
  next
    case 2
    show ?thesis
    proof (cases ys rule: rev_cases)
      case Nil
      then have "xs = ls \<and> l = x" using further(4) 2 by simp
      then show ?thesis using further(1,2) 2 by blast
    next
      case (snoc zs z)
      then have "ls = xs @ l # zs" using further(4) 2 by simp
      then show ?thesis by (rule further(3))
    qed
  qed
qed

lemma tq_success:
  assumes tr: "tq_trace sz (xs @ Res i (Ret St_success (Some v)) # ys) a"
    and n: "list_all (\<lambda>l. label_tid l < n) xs"
  shows "\<exists>d. ticket_of_pop xs i d \<and> d < length (ins xs) \<and> ins xs ! d = v"
proof -
  obtain b c where b: "tq_trace sz xs b" and st: "tq_step sz b [Res i (Ret St_success (Some v))] c"
    using tq_trace_split[OF tr refl] by blast
  have h: "tq_history xs b" using tq_trace_inv[OF b n] by simp
  from st show ?thesis
    by cases (use tq_historyD(4)[OF h] tq_historyD(5)[OF h, of i] in fastforce)+
qed

text \<open>A push drawn after the closing whose result is still to come.\<close>

definition late_push :: "'v label list \<Rightarrow> tid \<Rightarrow> bool" where
  "late_push ls i \<longleftrightarrow>
     (\<exists>xs v ys. ls = xs @ In i v # ys \<and> list_ex is_shut xs \<and> (\<forall>r. Res i r \<notin> set ys))"

lemma late_push_snoc:
  assumes "late_push (ls @ [x]) i"
  shows "(\<exists>v. x = In i v \<and> list_ex is_shut ls) \<or> late_push ls i \<and> (\<forall>r. x \<noteq> Res i r)"
proof -
  obtain xs v ys where d: "ls @ [x] = xs @ In i v # ys" "list_ex is_shut xs" "\<forall>r. Res i r \<notin> set ys"
    using assms by (auto simp: late_push_def)
  show ?thesis
  proof (cases ys rule: rev_cases)
    case Nil
    then show ?thesis using d by simp
  next
    case (snoc zs z)
    then have "ls = xs @ In i v # zs" "x = z" using d(1) by auto
    then show ?thesis using d snoc by (auto simp: late_push_def)
  qed
qed

lemma tq_late_push:
  assumes "tq_trace sz ls a" and "list_all (\<lambda>l. label_tid l < n) ls" and "late_push ls i"
  shows "\<exists>p v. tq_role a i = Pushing p v \<and> tq_limit a + sz \<le> p \<and> tq_last a \<noteq> None"
  using assms
proof induction
  case start
  then show ?case by (simp add: late_push_def)
next
  case (further ls a l b)
  have inv: "tq_inv n sz a" and h: "tq_history ls a"
    using tq_trace_inv[OF further(1), of n] further(4) by simp_all
  have old: "\<exists>p v. tq_role a i = Pushing p v \<and> tq_limit a + sz \<le> p \<and> tq_last a \<noteq> None" if "late_push ls i"
    using further(3,4) that by simp
  have no_store: "\<not> vacant sz a p" if "tq_role a i = Pushing p v" "tq_limit a + sz \<le> p" for p v
    using storable_below_limit(1)[OF inv that(1)] that(2) by fastforce
  have lim: "tq_limit (a\<lparr>tq_role := ro, tq_in := vs, tq_tail := t\<rparr>) = tq_limit a" if "tq_last a \<noteq> None" for ro vs t
    using that by (auto simp: tq_limit_def)
  show ?case
    using further(2)
  proof cases
    case (draw_push j v)
    then consider "j = i" "list_ex is_shut ls" | "late_push ls i"
      using late_push_snoc[of ls "In j v" i] further(5) by auto
    then show ?thesis
    proof cases
      case 1
      then have "tq_last a = Some (length (ins (before_shut ls)))"
        using tq_historyD(6)[OF h] by (auto simp: list_all_iff list_ex_iff)
      then have "tq_limit a + sz \<le> tq_tail a" "tq_last a \<noteq> None"
        using tq_invD(16)[OF inv] by (auto simp: tq_limit_def)
      then show ?thesis using draw_push 1 by (simp add: lim)
    next
      case 2
      then show ?thesis using draw_push old by (auto simp: lim)
    qed
  qed (use further(5) old no_store in \<open>auto simp: refused_def dest!: late_push_snoc\<close>)
qed

lemma tq_late_push_refused:
  assumes tr: "tq_trace sz (xs @ Res i r # ys) a" and n: "list_all (\<lambda>l. label_tid l < n) xs"
    and late: "late_push xs i"
  shows "r = Ret St_closed None"
proof -
  obtain b c where b: "tq_trace sz xs b" and st: "tq_step sz b [Res i r] c"
    using tq_trace_split[OF tr refl] by blast
  obtain p v where "tq_role b i = Pushing p v"
    using tq_late_push[OF b n late] by blast
  with st show ?thesis by cases auto
qed

text \<open>A pop whose result is still to come.\<close>

definition pending_pop :: "'v label list \<Rightarrow> tid \<Rightarrow> bool" where
  "pending_pop ls i \<longleftrightarrow>
     (\<exists>xs ys. ls = xs @ Out i # ys \<and> list_all (\<lambda>l. label_tid l = i \<longrightarrow> is_shut l) ys)"

lemma pending_pop_snoc:
  assumes "pending_pop (ls @ [x]) i"
  shows "x = Out i \<or> pending_pop ls i \<and> (label_tid x = i \<longrightarrow> is_shut x)"
proof -
  obtain xs ys where d: "ls @ [x] = xs @ Out i # ys" "list_all (\<lambda>l. label_tid l = i \<longrightarrow> is_shut l) ys"
    using assms by (auto simp: pending_pop_def)
  show ?thesis
  proof (cases ys rule: rev_cases)
    case Nil
    then show ?thesis using d by simp
  next
    case (snoc zs z)
    then have "ls = xs @ Out i # zs" "x = z" using d(1) by auto
    then show ?thesis using d snoc by (auto simp: pending_pop_def)
  qed
qed

lemma tq_pending_pop:
  assumes "tq_trace sz ls a" and "pending_pop ls i"
  shows "tq_role a i \<noteq> Pushing p v"
  using assms
proof (induction arbitrary: p v)
  case start
  then show ?case by (simp add: pending_pop_def)
next
  case (further ls a l b)
  from further(2) show ?case
    by cases (use further(3,4) in \<open>auto dest!: pending_pop_snoc\<close>)
qed

lemma tq_pop_refused:
  assumes tr: "tq_trace sz (xs @ Res i (Ret St_closed None) # ys) a" and n: "list_all (\<lambda>l. label_tid l < n) xs"
    and pop: "pending_pop xs i"
  shows "\<exists>d. ticket_of_pop xs i d \<and> list_ex is_shut xs \<and> length (ins (before_shut xs)) \<le> d"
proof -
  obtain b c where b: "tq_trace sz xs b" and st: "tq_step sz b [Res i (Ret St_closed None)] c"
    using tq_trace_split[OF tr refl] by blast
  have h: "tq_history xs b" using tq_trace_inv[OF b n] by simp
  from st obtain p where p: "tq_role b i = Popping p" "refused b p"
    by cases (use tq_historyD(5)[OF h, of i "Ret St_closed None"] tq_pending_pop[OF b pop] in auto)
  then have "list_ex is_shut xs \<and> length (ins (before_shut xs)) \<le> p"
    using tq_historyD(6)[OF h] by (auto simp: refused_def list_all_iff list_ex_iff split: if_splits)
  then show ?thesis using tq_historyD(3)[OF h p(1)] by blast
qed

subsection \<open>Several steps\<close>

inductive tq_steps :: "nat \<Rightarrow> 'v tq \<Rightarrow> 'v label list \<Rightarrow> 'v tq \<Rightarrow> bool" for sz where
  steps_none: "tq_steps sz a [] a"
| steps_more: "tq_steps sz a ls b \<Longrightarrow> tq_step sz b l c \<Longrightarrow> tq_steps sz a (ls @ l) c"

lemma steps_one: "tq_step sz a l b \<Longrightarrow> tq_steps sz a l b"
  using steps_more[OF steps_none] by fastforce

lemma tq_trace_steps:
  assumes "tq_steps sz a l b" and "tq_trace sz ls a"
  shows "tq_trace sz (ls @ l) b"
  using assms
proof induction
  case (steps_more a k b l c)
  then show ?case using tq_trace.further[of sz "ls @ k" b l c] by simp
qed simp

lemma tq_steps_inv:
  assumes "tq_steps sz a l b" and "tq_inv n sz a" and "list_all (\<lambda>l. label_tid l < n) l"
  shows "tq_inv n sz b"
  using assms
proof induction
  case (steps_more a k b l c)
  then have "tq_inv n sz b" by simp
  then show ?case
    using steps_more.prems(2) by (intro tq_inv_step[OF steps_more.hyps(2)]) auto
qed simp

end
