(* ===== verification/Evenk_Basic.thy ===== *)
theory Evenk_Basic
  imports Evenk_Prelude
begin

text \<open>
  \<^verbatim>\<open>evenk/basic.h\<close>: exceptions and aligned allocation.

  A function that may throw returns a sum, with the exception on the left.  The allocator
  \<^verbatim>\<open>posix_memalign\<close> is a parameter: it maps the alignment and the size to a return code and
  the address it stores.  Its documentation promises zero and an address that is a multiple of
  the alignment, or a non-zero error code (\<open>memalign_spec\<close>).
\<close>

datatype exn =
    System_error int "string option"
  | Bad_alloc
  | Invalid_argument string

type_synonym 'a res = "exn + 'a"

definition cache_line_size :: "64 word" where
  "cache_line_size = 64"

definition throw_system_error :: "int \<Rightarrow> 'a res" where
  "throw_system_error err_num = Inl (System_error err_num None)"

definition throw_system_error_what :: "int \<Rightarrow> string \<Rightarrow> 'a res" where
  "throw_system_error_what err_num what = Inl (System_error err_num (Some what))"

type_synonym memalign = "64 word \<Rightarrow> 64 word \<Rightarrow> int \<times> 64 word"

definition aligned_alloc :: "memalign \<Rightarrow> 64 word \<Rightarrow> 64 word \<Rightarrow> 64 word res" where
  "aligned_alloc posix_memalign alignment size' =
     (let (rc, result) = posix_memalign alignment size' in
      if rc \<noteq> 0 then Inl Bad_alloc else Inr result)"

definition cache_aligned_alloc :: "memalign \<Rightarrow> 64 word \<Rightarrow> 64 word res" where
  "cache_aligned_alloc posix_memalign size' = aligned_alloc posix_memalign cache_line_size size'"

text \<open>What \<^verbatim>\<open>posix_memalign(3)\<close> documents of a successful call.\<close>

definition memalign_spec :: "memalign \<Rightarrow> bool" where
  "memalign_spec posix_memalign \<longleftrightarrow>
     (\<forall>a n r. posix_memalign a n = (0, r) \<longrightarrow> unat a dvd unat r)"

end
