(* ===== verification/Evenk_Bounded_Queue.thy ===== *)
theory Evenk_Bounded_Queue
  imports Evenk_Bounded_Slot Evenk_Ticket_Queue Evenk_Basic
begin

text \<open>
  \<^verbatim>\<open>evenk/bounded_queue.h\<close>, class template \<open>ring\<close> (and \<open>mpmc\<close>, its instance with two
  atomic counters).

  \<open>ring_step\<close> is the next atomic access of a thread.  Its parameters are the slot class
  (\<open>stepf\<close>, in the library \<open>slot_step k\<close>), the back-off policy (\<open>bk\<close>) and the value that a
  move leaves behind (\<open>mv\<close>).  A thread that is inside an operation of a slot is at a position
  that holds the position in that operation; the slot operation is executed by \<open>stepf\<close>.
  Assigning a value, which is user code, may throw: this is the choice \<open>env_fail\<close> of the
  environment in that step.

  The overloads of \<open>wait_push\<close>, \<open>try_push\<close> and \<open>put_value\<close> for lvalues and rvalues differ in
  how the value is assigned only, and are one operation here; the overloads of \<open>wait_tail\<close>
  and \<open>wait_head\<close> without a back-off are the ones with a back-off, entered with
  \<open>waiting\<close> set.
\<close>

subsection \<open>State\<close>

record 'v ring_slot = slot +
  slot_value :: 'v

text \<open>
  The local variables of \<open>wait_push\<close> and \<open>wait_pop\<close> with the helpers they call: the ticket, the
  caller's back-off, the copy of it that the helper works with, and \<open>waiting\<close>.
\<close>

record 'b frame =
  fr_count :: count_t
  fr_arg :: "'b option"
  fr_backoff :: "'b option"
  fr_waiting :: bool

definition new_frame :: "count_t \<Rightarrow> 'b option \<Rightarrow> 'b frame" where
  "new_frame count b = \<lparr>fr_count = count, fr_arg = b, fr_backoff = b, fr_waiting = (b = None)\<rparr>"

definition fr_token :: "'b frame \<Rightarrow> token_t" where
  "fr_token f = fr_count f AND ticket_mask"

text \<open>How \<open>wait_pop\<close> or \<open>try_pop\<close> goes on after it has given the slot away.\<close>

datatype 'v pop_exit = Exit_value 'v | Exit_throw | Exit_again | Exit_empty

datatype ('v, 'b) ring_pc =
    R_Idle "'v op_result option"            \<comment> \<open>outside, with the last result\<close>
  | Push_fetch 'v "'b option"               \<comment> \<open>\<open>wait_push\<close>: at \<open>tail_.fetch_add(1)\<close>\<close>
  | Push_slot 'v "'b frame" slot_pc         \<comment> \<open>\<open>wait_tail\<close>: in \<open>slot.load()\<close> or \<open>slot.wait(t)\<close>\<close>
  | Push_past 'v "'b frame" token_t         \<comment> \<open>\<open>wait_tail\<close>: at \<open>is_past_last(count)\<close>\<close>
  | Push_backoff 'v "'b frame" token_t      \<comment> \<open>\<open>wait_tail\<close>: at \<open>backoff()\<close>\<close>
  | Push_put 'v "'b frame"                  \<comment> \<open>\<open>put_value\<close>: at the assignment\<close>
  | Push_wake "'b frame" bool slot_pc       \<comment> \<open>\<open>put_value\<close>: in \<open>slot.wake\<close>; whether it rethrows\<close>
  | Pop_fetch "'b option"                   \<comment> \<open>\<open>wait_pop\<close>: at \<open>head_.fetch_add(1)\<close>\<close>
  | Pop_slot bool "'b frame" slot_pc        \<comment> \<open>\<open>wait_head\<close>: in a slot operation; in the second loop?\<close>
  | Pop_past bool "'b frame" token_t
  | Pop_backoff bool "'b frame" token_t
  | Pop_get "'b frame"                      \<comment> \<open>\<open>get_value\<close>: at the assignment\<close>
  | Pop_wake "'v pop_exit" "'b frame" slot_pc
  | Try_push_load 'v                        \<comment> \<open>\<open>try_push\<close>: at \<open>tail_.load\<close>\<close>
  | Try_push_slot 'v count_t                \<comment> \<open>\<open>try_push\<close>: at \<open>slot.load()\<close>\<close>
  | Try_push_past count_t                   \<comment> \<open>\<open>try_push\<close>: at \<open>is_past_last(count)\<close>\<close>
  | Try_push_inc 'v count_t                 \<comment> \<open>\<open>try_push\<close>: at \<open>head_.try_increment(count)\<close>\<close>
  | Try_pop_load
  | Try_pop_slot count_t
  | Try_pop_past count_t
  | Try_pop_inc count_t token_t
  | Close_cas                               \<comment> \<open>\<open>close\<close>: at \<open>closed_.compare_exchange_strong\<close>\<close>
  | Close_fetch                             \<comment> \<open>\<open>close\<close>: at \<open>tail_.fetch_add(size)\<close>\<close>
  | Close_last count_t                      \<comment> \<open>\<open>close\<close>: at \<open>last_ = ...\<close>\<close>
  | Close_store                             \<comment> \<open>\<open>close\<close>: at \<open>closed_.store(closed)\<close>\<close>
  | Close_slot count_t slot_pc              \<comment> \<open>\<open>close\<close>: in \<open>slot.close()\<close>, with the loop index\<close>

record ('v, 'b) ring_state =
  rg_slots :: "nat \<Rightarrow> 'v ring_slot"
  rg_mask :: count_t
  rg_closed :: close_t
  rg_last :: count_t
  rg_head :: count_t
  rg_tail :: count_t
  rg_pcs :: "tid \<Rightarrow> ('v, 'b) ring_pc"

subsection \<open>Construction\<close>

definition ring_create :: "memalign \<Rightarrow> 64 word \<Rightarrow> 64 word \<Rightarrow> 64 word res" where
  "ring_create posix_memalign slot_bytes sz =
     (if sz < ucast min_size then Inl (Invalid_argument ''bounded_queue size must be at least16'')
      else if sz AND (sz - 1) \<noteq> 0 then Inl (Invalid_argument ''bounded_queue size must be a power of two'')
      else cache_aligned_alloc posix_memalign (sz * slot_bytes))"

text \<open>The constructor leaves \<open>last_\<close> uninitialised; \<open>last0\<close> is what it happens to be.\<close>

definition ring_init :: "'v \<Rightarrow> count_t \<Rightarrow> count_t \<Rightarrow> ('v, 'b) ring_state" where
  "ring_init v0 last0 sz =
     \<lparr>rg_slots = (\<lambda>i. \<lparr>token = of_nat i AND ticket_mask, sleepers = {}, slot_value = v0\<rparr>),
      rg_mask = sz - 1, rg_closed = Open, rg_last = last0, rg_head = 0, rg_tail = 0,
      rg_pcs = (\<lambda>_. R_Idle None)\<rparr>"

definition ring_ctor ::
  "memalign \<Rightarrow> 64 word \<Rightarrow> 'v \<Rightarrow> count_t \<Rightarrow> count_t \<Rightarrow> (64 word \<times> ('v, 'b) ring_state) res" where
  "ring_ctor posix_memalign slot_bytes v0 last0 sz =
     (case ring_create posix_memalign slot_bytes (ucast sz) of
        Inl e \<Rightarrow> Inl e
      | Inr ring \<Rightarrow> Inr (ring, ring_init v0 last0 sz))"

text \<open>The destructor: the indices of the slots that \<open>destroy\<close> destroys, in order, before it frees the ring.\<close>

definition ring_destroy :: "('v, 'b) ring_state \<Rightarrow> nat list" where
  "ring_destroy s = [0..<unat (rg_mask s + 1)]"

subsection \<open>State operations\<close>

definition is_closed :: "('v, 'b) ring_state \<Rightarrow> bool" where
  "is_closed s \<longleftrightarrow> rg_closed s \<noteq> Open"

definition is_empty :: "('v, 'b) ring_state \<Rightarrow> bool" where
  "is_empty s \<longleftrightarrow> sint (rg_tail s - rg_head s) \<le> 0"

text \<open>The signed difference is converted back to unsigned by the comparison with \<open>mask_\<close>.\<close>

definition is_full :: "('v, 'b) ring_state \<Rightarrow> bool" where
  "is_full s \<longleftrightarrow> rg_mask s < rg_tail s - rg_head s"

definition is_past_last :: "('v, 'b) ring_state \<Rightarrow> count_t \<Rightarrow> bool" where
  "is_past_last s count \<longleftrightarrow> rg_closed s = Closed \<and> sint (rg_last s - count) \<le> 0"

definition slot_index :: "('v, 'b) ring_state \<Rightarrow> count_t \<Rightarrow> nat" where
  "slot_index s count = unat (count AND rg_mask s)"

subsection \<open>The steps of a thread\<close>

abbreviation ring_goto ::
  "('v, 'b) ring_state \<Rightarrow> tid \<Rightarrow> ('v, 'b) ring_pc \<Rightarrow> ('v, 'b) ring_state" where
  "ring_goto s i p \<equiv> s\<lparr>rg_pcs := (rg_pcs s)(i := p)\<rparr>"

abbreviation ring_return ::
  "('v, 'b) ring_state \<Rightarrow> tid \<Rightarrow> queue_op_status \<Rightarrow> 'v option \<Rightarrow> ('v, 'b) ring_state" where
  "ring_return s i st v \<equiv> ring_goto s i (R_Idle (Some (Ret st v)))"

type_synonym 'v slot_stepf =
  "tid \<Rightarrow> env \<Rightarrow> slot_pc \<Rightarrow> 'v ring_slot \<Rightarrow> ('v ring_slot \<times> slot_out) option"

text \<open>One access of a slot operation; \<open>nxt\<close> and \<open>fin\<close> say where it leaves the thread.\<close>

definition on_slot ::
  "'v slot_stepf \<Rightarrow> tid \<Rightarrow> env \<Rightarrow> nat \<Rightarrow> slot_pc \<Rightarrow> (slot_pc \<Rightarrow> ('v, 'b) ring_pc) \<Rightarrow>
   (token_t \<Rightarrow> ('v, 'b) ring_pc) \<Rightarrow> ('v, 'b) ring_pc \<Rightarrow> ('v, 'b) ring_state \<Rightarrow>
   ('v, 'b) ring_state option" where
  "on_slot stepf i e j p nxt got fin s =
     (case stepf i e p (rg_slots s j) of
        None \<Rightarrow> None
      | Some (sl, out) \<Rightarrow>
          Some ((ring_goto s i (case out of Next q \<Rightarrow> nxt q | Got t \<Rightarrow> got t | Finished \<Rightarrow> fin))
                  \<lparr>rg_slots := (rg_slots s)(j := sl)\<rparr>))"

text \<open>The tests of \<open>wait_tail\<close> and \<open>wait_head\<close> on the token they have read.\<close>

definition tail_test :: "'v \<Rightarrow> 'b frame \<Rightarrow> token_t \<Rightarrow> ('v, 'b) ring_pc" where
  "tail_test v f t = (if t AND ticket_mask \<noteq> fr_token f then Push_past v f t else Push_put v f)"

text \<open>\<open>head_next f m\<close>: what \<open>slot.wake(token + mask_ + 1)\<close> stores.\<close>

definition head_next :: "'b frame \<Rightarrow> count_t \<Rightarrow> token_t" where
  "head_next f m = fr_token f + m + 1"

definition head_test2 :: "count_t \<Rightarrow> 'b frame \<Rightarrow> token_t \<Rightarrow> ('v, 'b) ring_pc" where
  "head_test2 m f t =
     (if t AND status_mask = 0 then Pop_past True f t
      else if t AND status_valid = 0 then Pop_wake Exit_again f (At_wake (head_next f m))
      else Pop_get f)"

definition head_test :: "bool \<Rightarrow> count_t \<Rightarrow> 'b frame \<Rightarrow> token_t \<Rightarrow> ('v, 'b) ring_pc" where
  "head_test second m f t =
     (if \<not> second \<and> t AND ticket_mask \<noteq> fr_token f then Pop_past False f t else head_test2 m f t)"

text \<open>
  The assignments of \<open>put_value\<close> and \<open>get_value\<close>, which may throw; the thread then wakes the slot with
  the token that says how the assignment ended.  \<open>mv\<close> is what moving out leaves in the slot.
\<close>

definition put_value ::
  "tid \<Rightarrow> bool \<Rightarrow> 'v \<Rightarrow> 'b frame \<Rightarrow> ('v, 'b) ring_state \<Rightarrow> ('v, 'b) ring_state option" where
  [simp]: "put_value i fail v f s =
     (if fail
      then Some (ring_goto s i (Push_wake f True (At_wake (fr_token f OR status_invalid))))
      else (let j = slot_index s (fr_count f) in
            Some ((ring_goto s i (Push_wake f False (At_wake (fr_token f OR status_valid))))
                    \<lparr>rg_slots := (rg_slots s)(j := (rg_slots s j)\<lparr>slot_value := v\<rparr>)\<rparr>)))"

definition get_value ::
  "('v \<Rightarrow> 'v) \<Rightarrow> tid \<Rightarrow> bool \<Rightarrow> 'b frame \<Rightarrow> ('v, 'b) ring_state \<Rightarrow> ('v, 'b) ring_state option" where
  [simp]: "get_value mv i fail f s =
     (let j = slot_index s (fr_count f); v = slot_value (rg_slots s j) in
      if fail
      then Some (ring_goto s i (Pop_wake Exit_throw f (At_wake (head_next f (rg_mask s)))))
      else Some ((ring_goto s i (Pop_wake (Exit_value v) f (At_wake (head_next f (rg_mask s)))))
                   \<lparr>rg_slots := (rg_slots s)(j := (rg_slots s j)\<lparr>slot_value := mv v\<rparr>)\<rparr>))"

fun exit_pc :: "'v pop_exit \<Rightarrow> 'b frame \<Rightarrow> ('v, 'b) ring_pc" where
  "exit_pc (Exit_value v) f = R_Idle (Some (Ret St_success (Some v)))"
| "exit_pc Exit_throw f = R_Idle (Some Threw)"
| "exit_pc Exit_again f = Pop_fetch (fr_arg f)"
| "exit_pc Exit_empty f = R_Idle (Some (Ret St_empty None))"

fun ring_exec ::
  "'v slot_stepf \<Rightarrow> ('b \<Rightarrow> bool \<times> 'b) \<Rightarrow> ('v \<Rightarrow> 'v) \<Rightarrow> tid \<Rightarrow> env \<Rightarrow> ('v, 'b) ring_pc \<Rightarrow>
   ('v, 'b) ring_state \<Rightarrow> ('v, 'b) ring_state option" where
  "ring_exec stepf bk mv i e (R_Idle r) s = None"
| "ring_exec stepf bk mv i e (Push_fetch v b) s =
     (let (count, tail) = atomic_fetch_add 1 (rg_tail s) in
      Some ((ring_goto s i (Push_slot v (new_frame count b) At_load))\<lparr>rg_tail := tail\<rparr>))"
| "ring_exec stepf bk mv i e (Push_slot v f p) s =
     on_slot stepf i e (slot_index s (fr_count f)) p (Push_slot v f) (tail_test v f) (Push_slot v f p) s"
| "ring_exec stepf bk mv i e (Push_past v f t) s =
     (if is_past_last s (fr_count f) then Some (ring_return s i St_closed None)
      else if fr_waiting f then Some (ring_goto s i (Push_slot v f (At_wait t)))
      else Some (ring_goto s i (Push_backoff v f t)))"
| "ring_exec stepf bk mv i e (Push_backoff v f t) s =
     (case fr_backoff f of
        None \<Rightarrow> None
      | Some b \<Rightarrow>
          (let (waiting, b') = bk b in
           Some (ring_goto s i (Push_slot v (f\<lparr>fr_backoff := Some b', fr_waiting := waiting\<rparr>) At_load))))"
| "ring_exec stepf bk mv i e (Push_put v f) s =
     put_value i (env_fail e) v f s"
| "ring_exec stepf bk mv i e (Push_wake f threw p) s =
     on_slot stepf i e (slot_index s (fr_count f)) p (Push_wake f threw) (\<lambda>_. Push_wake f threw p)
       (R_Idle (Some (if threw then Threw else Ret St_success None))) s"
| "ring_exec stepf bk mv i e (Pop_fetch b) s =
     (let (count, head) = atomic_fetch_add 1 (rg_head s) in
      Some ((ring_goto s i (Pop_slot False (new_frame count b) At_load))\<lparr>rg_head := head\<rparr>))"
| "ring_exec stepf bk mv i e (Pop_slot second f p) s =
     on_slot stepf i e (slot_index s (fr_count f)) p (Pop_slot second f)
       (head_test second (rg_mask s) f) (Pop_slot second f p) s"
| "ring_exec stepf bk mv i e (Pop_past second f t) s =
     (if is_past_last s (fr_count f) then Some (ring_return s i St_closed None)
      else if fr_waiting f then Some (ring_goto s i (Pop_slot second f (At_wait t)))
      else Some (ring_goto s i (Pop_backoff second f t)))"
| "ring_exec stepf bk mv i e (Pop_backoff second f t) s =
     (case fr_backoff f of
        None \<Rightarrow> None
      | Some b \<Rightarrow>
          (let (waiting, b') = bk b in
           Some (ring_goto s i (Pop_slot second (f\<lparr>fr_backoff := Some b', fr_waiting := waiting\<rparr>) (At_wait t)))))"
| "ring_exec stepf bk mv i e (Pop_get f) s =
     get_value mv i (env_fail e) f s"
| "ring_exec stepf bk mv i e (Pop_wake ex f p) s =
     on_slot stepf i e (slot_index s (fr_count f)) p (Pop_wake ex f) (\<lambda>_. Pop_wake ex f p) (exit_pc ex f) s"
| "ring_exec stepf bk mv i e (Try_push_load v) s =
     Some (ring_goto s i (Try_push_slot v (atomic_load (rg_tail s))))"
| "ring_exec stepf bk mv i e (Try_push_slot v count) s =
     on_slot stepf i e (slot_index s count) At_load (\<lambda>_. Try_push_slot v count)
       (\<lambda>t. if t AND ticket_mask \<noteq> count AND ticket_mask then Try_push_past count else Try_push_inc v count)
       (Try_push_slot v count) s"
| "ring_exec stepf bk mv i e (Try_push_past count) s =
     Some (ring_return s i (if is_past_last s count then St_closed else St_empty) None)"
| "ring_exec stepf bk mv i e (Try_push_inc v count) s =
     (let (ok, head) = atomic_try_increment count (rg_head s) in
      if ok then Some ((ring_goto s i (Push_put v (new_frame count None)))\<lparr>rg_head := head\<rparr>)
      else Some (ring_return s i St_full None))"
| "ring_exec stepf bk mv i e Try_pop_load s =
     Some (ring_goto s i (Try_pop_slot (atomic_load (rg_head s))))"
| "ring_exec stepf bk mv i e (Try_pop_slot count) s =
     on_slot stepf i e (slot_index s count) At_load (\<lambda>_. Try_pop_slot count)
       (\<lambda>t. if t AND ticket_mask \<noteq> count AND ticket_mask \<or> t AND status_mask = 0
            then Try_pop_past count else Try_pop_inc count t)
       (Try_pop_slot count) s"
| "ring_exec stepf bk mv i e (Try_pop_past count) s =
     Some (ring_return s i (if is_past_last s count then St_closed else St_empty) None)"
| "ring_exec stepf bk mv i e (Try_pop_inc count t) s =
     (let (ok, head) = atomic_try_increment count (rg_head s); f = new_frame count None in
      if \<not> ok then Some (ring_return s i St_empty None)
      else Some ((ring_goto s i
             (if t AND status_valid = 0 then Pop_wake Exit_empty f (At_wake (head_next f (rg_mask s)))
              else Pop_get f))\<lparr>rg_head := head\<rparr>))"
| "ring_exec stepf bk mv i e Close_cas s =
     (if rg_closed s = Closing then Some ((ring_return s i St_success None)\<lparr>rg_closed := Open\<rparr>)
      else Some (ring_goto s i Close_fetch))"
| "ring_exec stepf bk mv i e Close_fetch s =
     (let (count, tail) = atomic_fetch_add (rg_mask s + 1) (rg_tail s) in
      Some ((ring_goto s i (Close_last count))\<lparr>rg_tail := tail\<rparr>))"
| "ring_exec stepf bk mv i e (Close_last count) s =
     Some ((ring_goto s i Close_store)\<lparr>rg_last := count\<rparr>)"
| "ring_exec stepf bk mv i e Close_store s =
     Some ((ring_goto s i (Close_slot 0 At_close))\<lparr>rg_closed := Closed\<rparr>)"
| "ring_exec stepf bk mv i e (Close_slot k p) s =
     (if k < rg_mask s + 1
      then on_slot stepf i e (slot_index s (rg_last s + k)) p (Close_slot k) (\<lambda>_. Close_slot k p)
             (Close_slot (k + 1) At_close) s
      else Some (ring_return s i St_success None))"

datatype ('v, 'b) ring_event =
    Ring_push tid 'v "'b option"
  | Ring_pop tid "'b option"
  | Ring_try_push tid 'v
  | Ring_try_pop tid
  | Ring_close tid
  | Ring_go tid env

fun ring_tid :: "('v, 'b) ring_event \<Rightarrow> tid" where
  "ring_tid (Ring_push i v b) = i"
| "ring_tid (Ring_pop i b) = i"
| "ring_tid (Ring_try_push i v) = i"
| "ring_tid (Ring_try_pop i) = i"
| "ring_tid (Ring_close i) = i"
| "ring_tid (Ring_go i e) = i"

fun ring_idle :: "('v, 'b) ring_pc \<Rightarrow> bool" where
  "ring_idle (R_Idle r) = True"
| "ring_idle _ = False"

definition ring_call ::
  "('v, 'b) ring_state \<Rightarrow> tid \<Rightarrow> ('v, 'b) ring_pc \<Rightarrow> ('v, 'b) ring_state option" where
  "ring_call s i p = (if ring_idle (rg_pcs s i) then Some (ring_goto s i p) else None)"

fun ring_step ::
  "'v slot_stepf \<Rightarrow> ('b \<Rightarrow> bool \<times> 'b) \<Rightarrow> ('v \<Rightarrow> 'v) \<Rightarrow> ('v, 'b) ring_event \<Rightarrow>
   ('v, 'b) ring_state \<Rightarrow> ('v, 'b) ring_state option" where
  "ring_step stepf bk mv (Ring_push i v b) s = ring_call s i (Push_fetch v b)"
| "ring_step stepf bk mv (Ring_pop i b) s = ring_call s i (Pop_fetch b)"
| "ring_step stepf bk mv (Ring_try_push i v) s = ring_call s i (Try_push_load v)"
| "ring_step stepf bk mv (Ring_try_pop i) s = ring_call s i Try_pop_load"
| "ring_step stepf bk mv (Ring_close i) s = ring_call s i Close_cas"
| "ring_step stepf bk mv (Ring_go i e) s = ring_exec stepf bk mv i e (rg_pcs s i) s"

text \<open>The basic operations throw the status of the waiting ones unless it is success.\<close>

definition ring_push_basic :: "queue_op_status \<Rightarrow> queue_op_status + unit" where
  "ring_push_basic status = (if status \<noteq> St_success then Inl status else Inr ())"

definition ring_value_pop :: "queue_op_status \<Rightarrow> 'v \<Rightarrow> queue_op_status + 'v" where
  "ring_value_pop status value = (if status \<noteq> St_success then Inl status else Inr value)"

end
