(* ===== verification/Evenk_Bounded_Tokens.thy ===== *)
theory Evenk_Bounded_Tokens
  imports Evenk_Bounded_Queue
begin

text \<open>
  The encoding of positions and cells in the tokens of \<^verbatim>\<open>evenk/bounded_queue.h\<close>.

  A slot of a ring of size \<open>2 ^ K\<close> with \<open>4 \<le> K\<close> serves positions that agree in their low
  \<open>K\<close> bits.  The token drops the low four bits of the position to make room for the status
  bits; the index of the slot makes up for them.
\<close>

definition ticket :: "nat \<Rightarrow> token_t" where
  "ticket p = of_nat p AND ticket_mask"

fun cell_word :: "nat \<Rightarrow> 'v cell \<Rightarrow> token_t" where
  "cell_word p Unused = ticket p"
| "cell_word p (Stored v) = ticket p OR status_valid"
| "cell_word p Broken = ticket p OR status_invalid"
| "cell_word p Taken = ticket p"

subsection \<open>The parts of a token\<close>

lemma ticket_mask_eq: "ticket_mask = NOT (mask 4)"
  by (simp add: status_defs mask_eq_exp_minus_1)

lemma bit_status:
  "bit status_valid n \<longleftrightarrow> n = 0" "bit status_invalid n \<longleftrightarrow> n = 1"
  "bit status_waiting n \<longleftrightarrow> n = 2" "bit status_closed n \<longleftrightarrow> n = 3"
proof -
  have w: "status_valid = 2 ^ 0" "status_invalid = 2 ^ 1" "status_waiting = 2 ^ 2" "status_closed = 2 ^ 3"
    by (simp_all add: status_defs)
  show "bit status_valid n \<longleftrightarrow> n = 0" "bit status_invalid n \<longleftrightarrow> n = 1"
    "bit status_waiting n \<longleftrightarrow> n = 2" "bit status_closed n \<longleftrightarrow> n = 3"
    unfolding w bit_exp_iff by auto
qed

lemma bit_status_mask: "bit status_mask n \<longleftrightarrow> n < 2"
  by (auto simp: status_mask_def bit_or_iff bit_status)

lemma bit_ticket_mask: "bit ticket_mask n \<longleftrightarrow> 4 \<le> n \<and> n < 32"
  by (auto simp: ticket_mask_eq bit_not_iff bit_mask_iff)

lemma bit_ticket: "bit (ticket p) n \<longleftrightarrow> bit (of_nat p :: token_t) n \<and> 4 \<le> n \<and> n < 32"
  by (auto simp: ticket_def bit_and_iff bit_ticket_mask)

lemmas bit_token = bit_status bit_status_mask bit_ticket_mask bit_ticket bit_and_iff bit_or_iff bit_not_iff

lemma core_reads:
  "core t AND ticket_mask = t AND ticket_mask" "core t AND status_mask = t AND status_mask"
  "core t AND status_valid = t AND status_valid"
  unfolding core_def by (rule bit_word_eqI; auto simp: bit_token)+

lemma core_cell_word [simp]: "core (cell_word p c) = cell_word p c"
  by (cases c; simp; intro bit_word_eqI; auto simp: core_def bit_token)

lemma cell_word_ticket [simp]: "cell_word p c AND ticket_mask = ticket p"
  by (cases c; simp; intro bit_word_eqI; auto simp: bit_token)

lemma status_nonzero: "status_valid \<noteq> 0" "status_invalid \<noteq> 0"
  by (simp_all add: status_defs)

lemma ticket_status [simp]: "ticket p AND status_mask = 0" "ticket p AND status_valid = 0"
  by (intro bit_word_eqI; auto simp: bit_token)+

lemma cell_word_status:
  "cell_word p c AND status_mask = 0 \<longleftrightarrow> c = Unused \<or> c = Taken"
  "cell_word p c AND status_valid = 0 \<longleftrightarrow> (\<forall>v. c \<noteq> Stored v)"
proof -
  have "(ticket p OR status_valid) AND status_mask = status_valid"
    "(ticket p OR status_invalid) AND status_mask = status_invalid"
    "(ticket p OR status_valid) AND status_valid = status_valid"
    "(ticket p OR status_invalid) AND status_valid = 0"
    by (intro bit_word_eqI; auto simp: bit_token)+
  then show "cell_word p c AND status_mask = 0 \<longleftrightarrow> c = Unused \<or> c = Taken"
    "cell_word p c AND status_valid = 0 \<longleftrightarrow> (\<forall>v. c \<noteq> Stored v)"
    by (cases c; simp add: status_nonzero)+
qed

text \<open>\<open>put_value\<close> adds the status in one overload and ors it in the others.\<close>

lemma put_token_add: "ticket p + status_valid = ticket p OR status_valid"
proof -
  have "ticket p AND status_valid = 0" by simp
  then show ?thesis by (rule disjunctive_add_eq_or)
qed

subsection \<open>Positions, slots and tickets\<close>

lemma low_mask: "(2 ^ K - 1 :: token_t) = mask K"
  by (simp add: mask_eq_exp_minus_1)

lemma take_bit_of_nat_word: "take_bit k (of_nat p :: 'a::len word) = of_nat (p mod 2 ^ k)"
  using of_nat_take_bit[of k p, where 'a = "'a word"] by (simp only: take_bit_eq_mod[of k p])

lemma index_of_position:
  assumes "K < 32"
  shows "unat (of_nat p AND (2 ^ K - 1) :: count_t) = p mod 2 ^ K"
proof -
  have "(of_nat p AND (2 ^ K - 1) :: count_t) = of_nat (p mod 2 ^ K)"
    unfolding low_mask by (simp only: take_bit_eq_mask[symmetric] take_bit_of_nat_word)
  moreover have "p mod 2 ^ K < 2 ^ 32"
    using assms by (meson mod_less_divisor order_less_trans power_strict_increasing_iff one_less_numeral_iff
        semiring_norm(76) zero_less_numeral zero_less_power)
  ultimately show ?thesis by (simp add: unat_of_nat)
qed

lemma ticket_decides:
  assumes K: "4 \<le> K" and same: "p mod 2 ^ K = q mod 2 ^ K" and w: "p \<le> q" "q < p + 2 ^ 32"
  shows "ticket p = ticket q \<longleftrightarrow> p = q"
proof
  assume t: "ticket p = ticket q"
  have "p mod 2 ^ 4 = q mod 2 ^ 4"
    using same K by (metis le_imp_power_dvd mod_mod_cancel)
  then have low: "take_bit 4 (of_nat p :: token_t) = take_bit 4 (of_nat q)"
    by (simp only: take_bit_of_nat_word)
  have "(of_nat p :: token_t) = of_nat q"
  proof (rule bit_word_eqI)
    fix n
    assume "n < LENGTH(32)"
    then show "bit (of_nat p :: token_t) n \<longleftrightarrow> bit (of_nat q :: token_t) n"
      using arg_cong[OF t, of "\<lambda>w. bit w n"] arg_cong[OF low, of "\<lambda>w. bit w n"]
      by (cases "n < 4") (auto simp: bit_ticket bit_take_bit_iff)
  qed
  then show "p = q"
    using of_nat_eq_window[of p q, where 'a = 32] w by simp
qed simp

lemma ticket_next:
  assumes "4 \<le> K" and "K < 32"
  shows "ticket p + (2 ^ K - 1) + 1 = ticket (p + 2 ^ K)"
proof -
  have t: "ticket p = of_nat p - take_bit 4 (of_nat p)" for p
  proof -
    have "ticket p AND take_bit 4 (of_nat p) = 0" "ticket p OR take_bit 4 (of_nat p) = of_nat p"
      by (intro bit_word_eqI; auto simp: bit_ticket bit_and_iff bit_or_iff bit_take_bit_iff)+
    then have "ticket p + take_bit 4 (of_nat p) = of_nat p" by (simp only: disjunctive_add_eq_or)
    then show ?thesis by (simp only: eq_diff_eq)
  qed
  have "take_bit 4 (of_nat (p + 2 ^ K) :: token_t) = take_bit 4 (of_nat p)"
  proof -
    have "(p + 2 ^ K) mod 2 ^ 4 = p mod 2 ^ 4"
      using assms(1) by (metis le_imp_power_dvd mod_add_self2 mod_add_right_eq dvd_imp_mod_0 add.right_neutral)
    then show ?thesis
      by (simp only: take_bit_of_nat_word)
  qed
  then show ?thesis by (simp add: t)
qed

end
