(* ===== verification/Evenk_Bounded_Refinement.thy ===== *)
theory Evenk_Bounded_Refinement
  imports Evenk_Bounded_Tokens
begin

text \<open>
  The ring of \<^verbatim>\<open>evenk/bounded_queue.h\<close> refines the ticket queue.

  \<open>ring_rel\<close> relates a state of the ring to a state of the specification: the 32-bit counters
  are the unbounded ones modulo \<open>2 ^ 32\<close>, the token of each slot encodes the position that the
  slot serves and what is in it, and the position of each thread in the code agrees with its
  role.  Every step of the ring is matched by steps of the specification with the same labels,
  as long as the ring is used by few enough threads, is closed at most once, and is not used
  too often after that (the code says so itself of its test \<open>is_past_last\<close>).
\<close>

subsection \<open>Labels\<close>

definition ring_label :: "tid \<Rightarrow> ('v, 'b) ring_pc \<Rightarrow> ('v, 'b) ring_pc \<Rightarrow> 'v label list" where
  "ring_label i p q =
     (case p of
        Push_fetch v b \<Rightarrow> [In i v]
      | Pop_fetch b \<Rightarrow> [Out i]
      | Close_fetch \<Rightarrow> [Shut i]
      | R_Idle r \<Rightarrow> [] | Close_cas \<Rightarrow> [] | Close_slot k x \<Rightarrow> []
      | _ \<Rightarrow> (case q of R_Idle (Some r) \<Rightarrow> [Res i r] | _ \<Rightarrow> []))"

fun ring_trace ::
  "'v slot_stepf \<Rightarrow> ('b \<Rightarrow> bool \<times> 'b) \<Rightarrow> ('v \<Rightarrow> 'v) \<Rightarrow> ('v, 'b) ring_event list \<Rightarrow>
   ('v, 'b) ring_state \<Rightarrow> 'v label list" where
  "ring_trace stepf bk mv [] s = []"
| "ring_trace stepf bk mv (e # es) s =
     (case ring_step stepf bk mv e s of
        None \<Rightarrow> []
      | Some s' \<Rightarrow> ring_label (ring_tid e) (rg_pcs s (ring_tid e)) (rg_pcs s' (ring_tid e))
                   @ ring_trace stepf bk mv es s')"

subsection \<open>The relation\<close>

fun closing :: "('v, 'b) ring_pc \<Rightarrow> bool" where
  "closing Close_cas = True"
| "closing Close_fetch = True"
| "closing (Close_last c) = True"
| "closing Close_store = True"
| "closing (Close_slot k p) = True"
| "closing _ = False"

fun moved :: "('v, 'b) ring_pc \<Rightarrow> bool" where
  "moved (Pop_wake ex f p) = True"
| "moved _ = False"

fun exit_cell :: "'v pop_exit \<Rightarrow> 'v cell \<Rightarrow> bool" where
  "exit_cell (Exit_value v) c \<longleftrightarrow> c = Stored v"
| "exit_cell Exit_throw c \<longleftrightarrow> (\<exists>v. c = Stored v)"
| "exit_cell Exit_again c \<longleftrightarrow> c = Broken"
| "exit_cell Exit_empty c \<longleftrightarrow> False"

fun exit_role :: "'v pop_exit \<Rightarrow> 'v role \<Rightarrow> bool" where
  "exit_role (Exit_value v) r \<longleftrightarrow> (\<exists>p. r = Took p v)"
| "exit_role Exit_throw r \<longleftrightarrow> r = Returning Threw"
| "exit_role Exit_again r \<longleftrightarrow> r = Resting"
| "exit_role Exit_empty r \<longleftrightarrow> False"

abbreviation pushing :: "'v tq \<Rightarrow> tid \<Rightarrow> 'b frame \<Rightarrow> nat \<Rightarrow> 'v \<Rightarrow> bool" where
  "pushing a i f q v \<equiv> tq_role a i = Pushing q v \<and> fr_count f = of_nat q"

abbreviation popping :: "'v tq \<Rightarrow> tid \<Rightarrow> 'b frame \<Rightarrow> nat \<Rightarrow> bool" where
  "popping a i f q \<equiv> tq_role a i = Popping q \<and> fr_count f = of_nat q"

abbreviation quiet :: "slot_pc \<Rightarrow> bool" where
  "quiet p \<equiv> \<not> slot_reads p \<and> \<not> slot_writes p"

fun pc_rel :: "nat \<Rightarrow> 'v tq \<Rightarrow> (nat \<Rightarrow> 'v) \<Rightarrow> count_t \<Rightarrow> tid \<Rightarrow> ('v, 'b) ring_pc \<Rightarrow> bool" where
  "pc_rel sz a vals l i (R_Idle r) \<longleftrightarrow> tq_role a i = Resting"
| "pc_rel sz a vals l i (Push_fetch v b) \<longleftrightarrow> tq_role a i = Resting"
| "pc_rel sz a vals l i (Push_slot v f p) \<longleftrightarrow> slot_reads p \<and> (\<exists>q. pushing a i f q v)"
| "pc_rel sz a vals l i (Push_past v f t) \<longleftrightarrow> (\<exists>q. pushing a i f q v)"
| "pc_rel sz a vals l i (Push_backoff v f t) \<longleftrightarrow> (\<exists>q. pushing a i f q v)"
| "pc_rel sz a vals l i (Push_put v f) \<longleftrightarrow> (\<exists>q. pushing a i f q v \<and> vacant sz a q)"
| "pc_rel sz a vals l i (Push_wake f threw p) \<longleftrightarrow>
     (\<exists>q v. pushing a i f q v \<and> vacant sz a q \<and>
        p = At_wake (ticket q OR (if threw then status_invalid else status_valid)) \<and>
        (\<not> threw \<longrightarrow> vals (q mod sz) = v)) \<or>
     quiet p \<and> tq_role a i = Returning (if threw then Threw else Ret St_success None)"
| "pc_rel sz a vals l i (Pop_fetch b) \<longleftrightarrow> tq_role a i = Resting"
| "pc_rel sz a vals l i (Pop_slot second f p) \<longleftrightarrow>
     slot_reads p \<and> (\<exists>q. popping a i f q \<and> (second \<longrightarrow> vacant sz a q))"
| "pc_rel sz a vals l i (Pop_past second f t) \<longleftrightarrow> (\<exists>q. popping a i f q \<and> (second \<longrightarrow> vacant sz a q))"
| "pc_rel sz a vals l i (Pop_backoff second f t) \<longleftrightarrow> (\<exists>q. popping a i f q \<and> (second \<longrightarrow> vacant sz a q))"
| "pc_rel sz a vals l i (Pop_get f) \<longleftrightarrow> (\<exists>q v. popping a i f q \<and> tq_cell a q = Stored v)"
| "pc_rel sz a vals l i (Pop_wake ex f p) \<longleftrightarrow>
     (\<exists>q. popping a i f q \<and> exit_cell ex (tq_cell a q) \<and> p = At_wake (ticket (q + sz))) \<or>
     quiet p \<and> exit_role ex (tq_role a i)"
| "pc_rel sz a vals l i Close_cas \<longleftrightarrow> tq_role a i = Resting \<and> tq_last a = None"
| "pc_rel sz a vals l i Close_fetch \<longleftrightarrow> tq_role a i = Resting \<and> tq_last a = None"
| "pc_rel sz a vals l i (Close_last c) \<longleftrightarrow>
     tq_role a i = Resting \<and> (\<exists>k. tq_last a = Some k \<and> c = of_nat k)"
| "pc_rel sz a vals l i Close_store \<longleftrightarrow>
     tq_role a i = Resting \<and> (\<exists>k. tq_last a = Some k \<and> l = of_nat k)"
| "pc_rel sz a vals l i (Close_slot c p) \<longleftrightarrow> quiet p \<and> tq_role a i = Resting \<and> tq_last a \<noteq> None"
| "pc_rel sz a vals l i (Try_push_load v) \<longleftrightarrow> False"
| "pc_rel sz a vals l i (Try_push_slot v c) \<longleftrightarrow> False"
| "pc_rel sz a vals l i (Try_push_past c) \<longleftrightarrow> False"
| "pc_rel sz a vals l i (Try_push_inc v c) \<longleftrightarrow> False"
| "pc_rel sz a vals l i Try_pop_load \<longleftrightarrow> False"
| "pc_rel sz a vals l i (Try_pop_slot c) \<longleftrightarrow> False"
| "pc_rel sz a vals l i (Try_pop_past c) \<longleftrightarrow> False"
| "pc_rel sz a vals l i (Try_pop_inc c t) \<longleftrightarrow> False"

abbreviation ring_values :: "('v, 'b) ring_state \<Rightarrow> nat \<Rightarrow> 'v" where
  "ring_values s \<equiv> \<lambda>j. slot_value (rg_slots s j)"

definition slots_rel :: "nat \<Rightarrow> 'v tq \<Rightarrow> (nat \<Rightarrow> 'v ring_slot) \<Rightarrow> bool" where
  "slots_rel sz a slots \<longleftrightarrow>
     (\<forall>j < sz. \<exists>p. p mod sz = j \<and> serves sz a p \<and> core (token (slots j)) = cell_word p (tq_cell a p))"

definition values_rel :: "nat \<Rightarrow> 'v tq \<Rightarrow> (nat \<Rightarrow> 'v) \<Rightarrow> (tid \<Rightarrow> ('v, 'b) ring_pc) \<Rightarrow> bool" where
  "values_rel sz a vals pcs \<longleftrightarrow>
     (\<forall>p v. tq_cell a p = Stored v \<longrightarrow>
        vals (p mod sz) = v \<or> (\<exists>i. tq_role a i = Popping p \<and> moved (pcs i)))"

definition ring_rel :: "nat \<Rightarrow> 'v tq \<Rightarrow> ('v, 'b) ring_state \<Rightarrow> bool" where
  "ring_rel K a s \<longleftrightarrow>
     rg_mask s = 2 ^ K - 1 \<and> rg_tail s = of_nat (tq_tail a) \<and> rg_head s = of_nat (tq_head a) \<and>
     slots_rel (2 ^ K) a (rg_slots s) \<and> values_rel (2 ^ K) a (ring_values s) (rg_pcs s) \<and>
     rg_closed s \<noteq> Closing \<and>
     (rg_closed s = Closed \<longrightarrow> (\<exists>l. tq_last a = Some l \<and> rg_last s = of_nat l)) \<and>
     (\<forall>i j. closing (rg_pcs s i) \<longrightarrow> closing (rg_pcs s j) \<longrightarrow> i = j) \<and>
     (\<forall>i. pc_rel (2 ^ K) a (ring_values s) (rg_last s) i (rg_pcs s i))"

lemma ring_relD:
  assumes "ring_rel K a s"
  shows "rg_mask s = 2 ^ K - 1" and "rg_tail s = of_nat (tq_tail a)" and "rg_head s = of_nat (tq_head a)"
    and "slots_rel (2 ^ K) a (rg_slots s)" and "values_rel (2 ^ K) a (ring_values s) (rg_pcs s)"
    and "rg_closed s \<noteq> Closing"
    and "rg_closed s = Closed \<Longrightarrow> \<exists>l. tq_last a = Some l \<and> rg_last s = of_nat l"
    and "closing (rg_pcs s i) \<Longrightarrow> closing (rg_pcs s j) \<Longrightarrow> i = j"
    and "pc_rel (2 ^ K) a (ring_values s) (rg_last s) i (rg_pcs s i)"
  using assms unfolding ring_rel_def by blast+

text \<open>What a step of thread \<open>i\<close> must respect for the other threads to stay related.\<close>

lemma pc_rel_other:
  assumes "pc_rel sz a vals l j p" and "tq_role b j = tq_role a j"
    and "\<And>q. vacant sz a q \<Longrightarrow> vacant sz b q"
    and "\<And>q. tq_role a j = Popping q \<Longrightarrow> tq_cell a q \<noteq> Unused \<Longrightarrow> tq_cell b q = tq_cell a q"
    and "\<And>q v. tq_role a j = Pushing q v \<Longrightarrow> vacant sz a q \<Longrightarrow> vals' (q mod sz) = vals (q mod sz)"
    and "closing p \<Longrightarrow> tq_last b = tq_last a \<and> l' = l"
  shows "pc_rel sz b vals' l' j p"
proof (cases p)
  case (Pop_wake ex f sp)
  have "exit_cell ex (tq_cell b q)" if "exit_cell ex (tq_cell a q)" "tq_role a j = Popping q" for q
  proof -
    have "tq_cell a q \<noteq> Unused" using that(1) by (cases ex) auto
    with assms(4)[OF that(2)] that(1) show ?thesis by simp
  qed
  then show ?thesis using assms(1,2) Pop_wake by auto
next
  case (Pop_get f)
  then show ?thesis using assms(1,2) assms(4) by fastforce
qed (use assms in \<open>auto split: if_splits\<close>)

subsection \<open>The 32-bit tests decide\<close>

text \<open>After the closing the counters have advanced by at most \<open>m\<close> draws of each kind.\<close>

definition in_window :: "nat \<Rightarrow> nat \<Rightarrow> nat \<Rightarrow> 'v tq \<Rightarrow> bool" where
  "in_window n sz m a \<longleftrightarrow>
     (case tq_last a of None \<Rightarrow> True | Some l \<Rightarrow> tq_tail a \<le> l + sz + m \<and> tq_head a \<le> l + n + m)"

definition ring_ok :: "nat \<Rightarrow> nat \<Rightarrow> nat \<Rightarrow> 'v tq \<Rightarrow> bool" where
  "ring_ok n K m a \<longleftrightarrow> tq_inv n (2 ^ K) a \<and> in_window n (2 ^ K) m a \<and>
     4 \<le> K \<and> K < 32 \<and> 2 ^ K * (n + 2) + m < 2 ^ 31"

lemma ring_okD:
  assumes "ring_ok n K m a"
  shows "tq_inv n (2 ^ K) a" and "in_window n (2 ^ K) m a" and "4 \<le> K" and "K < 32"
    and "2 ^ K * (n + 2) + m < 2 ^ 31"
  using assms by (simp_all add: ring_ok_def)

lemma limit_last: "tq_last a = Some l \<Longrightarrow> tq_limit a = l" "tq_last a = None \<Longrightarrow> tq_limit a = tq_tail a"
  by (simp_all add: tq_limit_def)

lemma two32: "(2::nat) ^ 31 + 2 ^ 31 = 2 ^ 32"
  by simp

lemma push_window:
  assumes ok: "ring_ok n K m a" and i: "tq_role a i = Pushing p v"
    and q: "serves (2 ^ K) a q" "q mod 2 ^ K = p mod 2 ^ K"
  shows "q \<le> p" and "p < q + 2 ^ 32"
proof -
  note inv = ring_okD(1)[OF ok]
  show "q \<le> p" using serves_least[OF inv _ q(1) _ q(2)] tq_invD(3)[OF inv i] by simp
  have "tq_limit a \<le> q + 2 ^ K * (n + 1)" by (rule push_gap[OF inv _ q(1)]) simp
  moreover have "tq_tail a \<le> tq_limit a + 2 ^ K + m"
    using ring_okD(2)[OF ok] limit_last[of a] by (cases "tq_last a") (auto simp: in_window_def)
  ultimately have "p < q + 2 ^ K * (n + 1) + 2 ^ K + m"
    using tq_invD(2)[OF inv i] by linarith
  also have "\<dots> = q + (2 ^ K * (n + 2) + m)" by (simp add: algebra_simps)
  finally show "p < q + 2 ^ 32" using ring_okD(5)[OF ok] two32 by linarith
qed

lemma pop_window:
  assumes ok: "ring_ok n K m a" and i: "tq_role a i = Popping p"
    and q: "serves (2 ^ K) a q" "q mod 2 ^ K = p mod 2 ^ K"
  shows "q \<le> p" and "p < q + 2 ^ 32"
proof -
  note inv = ring_okD(1)[OF ok] and b = ring_okD(5)[OF ok]
  show "q \<le> p" using serves_least[OF inv _ q(1) _ q(2)] tq_invD(7)[OF inv i] by simp
  have exp: "2 ^ K * (n + 2) = 2 ^ K * n + 2 ^ K * 2" "2 ^ K * (n + 1) = 2 ^ K * n + (2 ^ K :: nat)"
    "n \<le> 2 ^ K * n"
    by (simp_all add: algebra_simps)
  show "p < q + 2 ^ 32"
  proof (cases "p < tq_limit a \<or> tq_last a = None")
    case True
    have "p < q + 2 ^ K * n"
      by (rule pop_gap[OF inv _ q(1) tq_invD(6)[OF inv i] True]) simp
    moreover have "2 ^ K * n \<le> 2 ^ K * (n + 2) + m" by simp
    ultimately show ?thesis using b two32 by linarith
  next
    case False
    then obtain l where l: "tq_last a = Some l" by auto
    have "l \<le> q + 2 ^ K * (n + 1)" using push_gap[OF inv _ q(1)] limit_last(1)[OF l] by simp
    moreover have "tq_head a \<le> l + n + m" using ring_okD(2)[OF ok] l by (simp add: in_window_def)
    ultimately show ?thesis using tq_invD(6)[OF inv i] b exp two32 by linarith
  qed
qed

lemma slot_of_position:
  assumes ok: "ring_ok n K m a" and rel: "ring_rel K a s"
  obtains q where "slot_index s (of_nat p) = p mod 2 ^ K" and "q mod 2 ^ K = p mod 2 ^ K"
    and "serves (2 ^ K) a q" and "core (token (rg_slots s (p mod 2 ^ K))) = cell_word q (tq_cell a q)"
proof -
  have "slot_index s (of_nat p) = p mod 2 ^ K"
    unfolding slot_index_def ring_relD(1)[OF rel] by (rule index_of_position[OF ring_okD(4)[OF ok]])
  moreover obtain q where "q mod 2 ^ K = p mod 2 ^ K" "serves (2 ^ K) a q"
      "core (token (rg_slots s (p mod 2 ^ K))) = cell_word q (tq_cell a q)"
    using ring_relD(4)[OF rel] unfolding slots_rel_def by (meson mod_less_divisor zero_less_numeral zero_less_power)
  ultimately show thesis using that by blast
qed

text \<open>A thread that finds its ticket in its slot is served.\<close>

lemma push_served:
  assumes ok: "ring_ok n K m a" and rel: "ring_rel K a s" and i: "tq_role a i = Pushing p v"
    and t: "core t = core (token (rg_slots s (slot_index s (of_nat p))))" "t AND ticket_mask = ticket p"
  shows "serves (2 ^ K) a p"
proof -
  obtain q where q: "slot_index s (of_nat p) = p mod 2 ^ K" "q mod 2 ^ K = p mod 2 ^ K" "serves (2 ^ K) a q"
      "core (token (rg_slots s (p mod 2 ^ K))) = cell_word q (tq_cell a q)"
    by (rule slot_of_position[OF ok rel])
  have "ticket q = ticket p" using t q(1,4) core_reads(1)[of t] by simp
  then have "q = p"
    using ticket_decides[OF ring_okD(3)[OF ok] q(2)] push_window[OF ok i q(3,2)] by simp
  then show ?thesis using q(3) by simp
qed

lemma pop_served:
  assumes ok: "ring_ok n K m a" and rel: "ring_rel K a s" and i: "tq_role a i = Popping p"
    and t: "core t = core (token (rg_slots s (slot_index s (of_nat p))))"
    and d: "t AND ticket_mask = ticket p \<or> vacant (2 ^ K) a p"
  shows "serves (2 ^ K) a p" and "core t = cell_word p (tq_cell a p)"
proof -
  note inv = ring_okD(1)[OF ok]
  obtain q where q: "slot_index s (of_nat p) = p mod 2 ^ K" "q mod 2 ^ K = p mod 2 ^ K" "serves (2 ^ K) a q"
      "core (token (rg_slots s (p mod 2 ^ K))) = cell_word q (tq_cell a q)"
    by (rule slot_of_position[OF ok rel])
  have "q = p"
    using d
  proof
    assume "t AND ticket_mask = ticket p"
    then have "ticket q = ticket p" using t q(1,4) core_reads(1)[of t] by simp
    then show ?thesis
      using ticket_decides[OF ring_okD(3)[OF ok] q(2)] pop_window[OF ok i q(3,2)] by simp
  next
    assume "vacant (2 ^ K) a p"
    then have "serves (2 ^ K) a p" using tq_invD(7)[OF inv i] by (simp add: serves_def)
    then show ?thesis using serves_unique[OF inv _ q(3) _ q(2)] by simp
  qed
  then show "serves (2 ^ K) a p" "core t = cell_word p (tq_cell a p)" using q t by simp_all
qed

lemma sint_of_nat_small: "k < 2 ^ 31 \<Longrightarrow> sint (of_nat k :: 32 word) = int k"
  by (simp add: signed_of_nat signed_take_bit_int_eq_self)

text \<open>A thread that is turned away by \<open>is_past_last\<close> may be refused.\<close>

lemma past_refused:
  assumes ok: "ring_ok n K m a" and rel: "ring_rel K a s" and past: "is_past_last s (of_nat p)"
    and q: "serves (2 ^ K) a q" "q \<le> p"
  shows "refused a p"
proof -
  obtain l where l: "tq_last a = Some l" "rg_last s = of_nat l"
    using past ring_relD(7)[OF rel] by (auto simp: is_past_last_def)
  have "l \<le> p"
  proof (rule ccontr)
    assume "\<not> l \<le> p"
    then have pl: "p < l" by simp
    have "l \<le> q + 2 ^ K * (n + 1)" using push_gap[OF ring_okD(1)[OF ok] _ q(1)] limit_last(1)[OF l(1)] by simp
    moreover have "2 ^ K * (n + 1) \<le> 2 ^ K * (n + 2)" by simp
    ultimately have lt: "l - p < 2 ^ 31" using q(2) ring_okD(5)[OF ok] by linarith
    have "rg_last s - of_nat p = (of_nat (l - p) :: count_t)" using pl l(2) by (simp add: of_nat_diff)
    moreover have "sint (of_nat (l - p) :: count_t) = int (l - p)"
      using lt by (rule sint_of_nat_small)
    ultimately show False using past pl by (simp add: is_past_last_def)
  qed
  then show ?thesis using l(1) by (simp add: refused_def)
qed

subsection \<open>Moves of one thread\<close>

definition sim :: "nat \<Rightarrow> 'v tq \<Rightarrow> 'v label list \<Rightarrow> ('v, 'b) ring_state \<Rightarrow> bool" where
  "sim K a l s' \<longleftrightarrow> (\<exists>b. tq_steps (2 ^ K) a l b \<and> ring_rel K b s')"

lemma sim_none: "ring_rel K a s' \<Longrightarrow> sim K a [] s'"
  using steps_none by (auto simp: sim_def)

lemma sim_one: "tq_step (2 ^ K) a l b \<Longrightarrow> ring_rel K b s' \<Longrightarrow> sim K a l s'"
  unfolding sim_def using steps_one by blast

lemma sim_two:
  "tq_step (2 ^ K) a [] b \<Longrightarrow> tq_step (2 ^ K) b l c \<Longrightarrow> ring_rel K c s' \<Longrightarrow> sim K a l s'"
  using steps_more[OF steps_one] by (fastforce simp: sim_def)

lemma ring_rel_move:
  assumes rel: "ring_rel K a s"
    and m: "rg_mask s' = rg_mask s" and t: "rg_tail s' = of_nat (tq_tail b)" "rg_head s' = of_nat (tq_head b)"
    and sl: "slots_rel (2 ^ K) b (rg_slots s')" and va: "values_rel (2 ^ K) b (ring_values s') (rg_pcs s')"
    and cl: "rg_closed s' \<noteq> Closing" "rg_closed s' = Closed \<Longrightarrow> \<exists>l. tq_last b = Some l \<and> rg_last s' = of_nat l"
    and pcs: "rg_pcs s' = (rg_pcs s)(i := p')" "closing p' \<Longrightarrow> closing (rg_pcs s i) \<or> (\<forall>j. \<not> closing (rg_pcs s j))"
    and new: "pc_rel (2 ^ K) b (ring_values s') (rg_last s') i p'"
    and others: "\<And>j. j \<noteq> i \<Longrightarrow> tq_role b j = tq_role a j"
      "\<And>j q. j \<noteq> i \<Longrightarrow> tq_role a j = Popping q \<Longrightarrow> tq_cell a q \<noteq> Unused \<Longrightarrow> tq_cell b q = tq_cell a q"
      "\<And>j q v. j \<noteq> i \<Longrightarrow> tq_role a j = Pushing q v \<Longrightarrow> vacant (2 ^ K) a q \<Longrightarrow>
         ring_values s' (q mod 2 ^ K) = ring_values s (q mod 2 ^ K)"
      "\<And>j. j \<noteq> i \<Longrightarrow> closing (rg_pcs s j) \<Longrightarrow> tq_last b = tq_last a \<and> rg_last s' = rg_last s"
    and vac: "\<And>q. vacant (2 ^ K) a q \<Longrightarrow> vacant (2 ^ K) b q"
  shows "ring_rel K b s'"
  unfolding ring_rel_def
proof (intro conjI allI impI)
  show "rg_mask s' = 2 ^ K - 1" using m ring_relD(1)[OF rel] by simp
  show "j = k" if "closing (rg_pcs s' j)" "closing (rg_pcs s' k)" for j k
    using that pcs ring_relD(8)[OF rel] by (auto split: if_splits)
  show "pc_rel (2 ^ K) b (ring_values s') (rg_last s') j (rg_pcs s' j)" for j
  proof (cases "j = i")
    case False
    then show ?thesis
      using pc_rel_other[OF ring_relD(9)[OF rel, of j] others(1) vac others(2) others(3) others(4)] pcs(1) by simp
  qed (simp add: pcs new)
qed (use t sl va cl in simp_all)

lemma rel_stay:
  assumes rel: "ring_rel K a s"
    and sl: "\<And>j. core (token (sl j)) = core (token (rg_slots s j))"
      "\<And>j. slot_value (sl j) = slot_value (rg_slots s j)"
    and pc: "pc_rel (2 ^ K) a (ring_values s) (rg_last s) i p'" "closing p' \<Longrightarrow> closing (rg_pcs s i) \<or> (\<forall>j. \<not> closing (rg_pcs s j))"
      "\<And>q. tq_role a i = Popping q \<Longrightarrow> moved (rg_pcs s i) \<Longrightarrow> moved p'"
  shows "ring_rel K a ((ring_goto s i p')\<lparr>rg_slots := sl\<rparr>)"
proof (rule ring_rel_move[OF rel, where i = i and p' = p'])
  show "slots_rel (2 ^ K) a (rg_slots ((ring_goto s i p')\<lparr>rg_slots := sl\<rparr>))"
    using ring_relD(4)[OF rel] by (simp add: slots_rel_def sl)
  show "values_rel (2 ^ K) a (ring_values ((ring_goto s i p')\<lparr>rg_slots := sl\<rparr>))
      (rg_pcs ((ring_goto s i p')\<lparr>rg_slots := sl\<rparr>))"
    using ring_relD(5)[OF rel] pc(3) by (fastforce simp: values_rel_def sl)
qed (use ring_relD[OF rel] pc in \<open>simp_all add: sl\<close>)

lemma rel_goto:
  assumes rel: "ring_rel K a s"
    and pc: "pc_rel (2 ^ K) a (ring_values s) (rg_last s) i p'" "closing p' \<Longrightarrow> closing (rg_pcs s i) \<or> (\<forall>j. \<not> closing (rg_pcs s j))"
      "\<And>q. tq_role a i = Popping q \<Longrightarrow> moved (rg_pcs s i) \<Longrightarrow> moved p'"
  shows "ring_rel K a (ring_goto s i p')"
  using rel_stay[OF rel _ _ pc, of "rg_slots s"] by simp

lemma slot_value_more: "slot.more x = slot.more y \<Longrightarrow> slot_value x = slot_value y"
  by (cases x; cases y) simp

lemma serves_cells: "tq_cell b = tq_cell a \<Longrightarrow> serves sz b = serves sz a"
  by (simp add: serves_def vacant_def fun_eq_iff)

lemma vacant_cells: "tq_cell b = tq_cell a \<Longrightarrow> vacant sz b = vacant sz a"
  by (simp add: vacant_def fun_eq_iff)

lemma slots_rel_cells:
  assumes "slots_rel sz a slots" and "tq_cell b = tq_cell a" and "\<And>j. core (token (sl j)) = core (token (slots j))"
  shows "slots_rel sz b sl"
  using assms by (simp add: slots_rel_def serves_cells[OF assms(2)])

lemma values_rel_cells:
  assumes "values_rel sz a vals pcs" and "tq_cell b = tq_cell a"
    and "\<And>j q. tq_role a j = Popping q \<Longrightarrow> moved (pcs j) \<Longrightarrow> tq_role b j = Popping q \<and> moved (pcs' j)"
  shows "values_rel sz b vals pcs'"
  using assms unfolding values_rel_def by metis

text \<open>A step that changes the role of the thread only, and no cell.\<close>

lemma rel_role:
  assumes rel: "ring_rel K a s" and b: "b = with_role a i r"
    and sl: "\<And>j. core (token (sl j)) = core (token (rg_slots s j))"
      "\<And>j. slot_value (sl j) = slot_value (rg_slots s j)"
    and pc: "pc_rel (2 ^ K) b (ring_values s) (rg_last s) i p'" "\<not> closing p'"
    and unmoved: "\<And>q. tq_role a i = Popping q \<Longrightarrow> \<not> moved (rg_pcs s i)"
  shows "ring_rel K b ((ring_goto s i p')\<lparr>rg_slots := sl\<rparr>)" (is "ring_rel K b ?s")
proof (rule ring_rel_move[OF rel, where i = i and p' = p'])
  show "slots_rel (2 ^ K) b (rg_slots ?s)"
    using slots_rel_cells[OF ring_relD(4)[OF rel], of b sl] b sl by simp
  have "values_rel (2 ^ K) b (ring_values s) (rg_pcs ?s)"
    using unmoved b by (intro values_rel_cells[OF ring_relD(5)[OF rel]]) auto
  then show "values_rel (2 ^ K) b (ring_values ?s) (rg_pcs ?s)" by (simp add: sl)
qed (use ring_relD(2,3,6,7)[OF rel] pc b in \<open>simp_all add: sl\<close>)

lemma rel_draw_push:
  assumes rel: "ring_rel K a s" and i: "tq_role a i = Resting"
  shows "ring_rel K ((with_role a i (Pushing (tq_tail a) v))\<lparr>tq_in := tq_in a @ [v], tq_tail := Suc (tq_tail a)\<rparr>)
    ((ring_goto s i (Push_slot v (new_frame (rg_tail s) bk) At_load))\<lparr>rg_tail := rg_tail s + 1\<rparr>)"
    (is "ring_rel K ?b ?s")
proof (rule ring_rel_move[OF rel, where i = i and p' = "Push_slot v (new_frame (rg_tail s) bk) At_load"])
  show "slots_rel (2 ^ K) ?b (rg_slots ?s)"
    using slots_rel_cells[OF ring_relD(4)[OF rel], of ?b "rg_slots s"] by simp
  have "values_rel (2 ^ K) ?b (ring_values s) (rg_pcs ?s)"
    using i by (intro values_rel_cells[OF ring_relD(5)[OF rel]]) auto
  then show "values_rel (2 ^ K) ?b (ring_values ?s) (rg_pcs ?s)" by simp
qed (use ring_relD(2,3,6,7)[OF rel] i in \<open>simp_all add: new_frame_def add.commute\<close>)

lemma rel_draw_pop:
  assumes rel: "ring_rel K a s" and i: "tq_role a i = Resting"
  shows "ring_rel K ((with_role a i (Popping (tq_head a)))\<lparr>tq_head := Suc (tq_head a)\<rparr>)
    ((ring_goto s i (Pop_slot False (new_frame (rg_head s) bk) At_load))\<lparr>rg_head := rg_head s + 1\<rparr>)"
    (is "ring_rel K ?b ?s")
proof (rule ring_rel_move[OF rel, where i = i and p' = "Pop_slot False (new_frame (rg_head s) bk) At_load"])
  show "slots_rel (2 ^ K) ?b (rg_slots ?s)"
    using slots_rel_cells[OF ring_relD(4)[OF rel], of ?b "rg_slots s"] by simp
  have "values_rel (2 ^ K) ?b (ring_values s) (rg_pcs ?s)"
    using i by (intro values_rel_cells[OF ring_relD(5)[OF rel]]) auto
  then show "values_rel (2 ^ K) ?b (ring_values ?s) (rg_pcs ?s)" by simp
qed (use ring_relD(2,3,6,7)[OF rel] i in \<open>simp_all add: new_frame_def add.commute\<close>)

lemma rel_shut:
  assumes rel: "ring_rel K a s" and i: "tq_role a i = Resting" "tq_last a = None" "closing (rg_pcs s i)"
  shows "ring_rel K (a\<lparr>tq_last := Some (tq_tail a), tq_tail := tq_tail a + 2 ^ K\<rparr>)
    ((ring_goto s i (Close_last (rg_tail s)))\<lparr>rg_tail := rg_tail s + (rg_mask s + 1)\<rparr>)"
    (is "ring_rel K ?b ?s")
proof (rule ring_rel_move[OF rel, where i = i and p' = "Close_last (rg_tail s)"])
  show "slots_rel (2 ^ K) ?b (rg_slots ?s)"
    using slots_rel_cells[OF ring_relD(4)[OF rel], of ?b "rg_slots s"] by simp
  have "values_rel (2 ^ K) ?b (ring_values s) (rg_pcs ?s)"
    using i by (intro values_rel_cells[OF ring_relD(5)[OF rel]]) auto
  then show "values_rel (2 ^ K) ?b (ring_values ?s) (rg_pcs ?s)" by simp
  show "tq_last ?b = tq_last a \<and> rg_last ?s = rg_last s" if "j \<noteq> i" "closing (rg_pcs s j)" for j
    using that ring_relD(8)[OF rel that(2) i(3)] by simp
qed (use ring_relD(1-3,6,7)[OF rel] i in simp_all)

text \<open>A step that stores the token of a slot: the cell of the position that the slot serves changes.\<close>

lemma slots_rel_store:
  assumes rel: "slots_rel sz a slots" and sz: "0 < sz"
    and cells: "\<And>p. p mod sz \<noteq> q mod sz \<Longrightarrow> tq_cell b p = tq_cell a p"
    and new: "r mod sz = q mod sz" "serves sz b r" "core (token sl) = cell_word r (tq_cell b r)"
  shows "slots_rel sz b (slots(q mod sz := sl))"
  unfolding slots_rel_def
proof (intro allI impI)
  fix j
  assume j: "j < sz"
  show "\<exists>p. p mod sz = j \<and> serves sz b p \<and>
      core (token ((slots(q mod sz := sl)) j)) = cell_word p (tq_cell b p)"
  proof (cases "j = q mod sz")
    case True
    then show ?thesis using new by auto
  next
    case False
    obtain p where p: "p mod sz = j" "serves sz a p" "core (token (slots j)) = cell_word p (tq_cell a p)"
      using rel j by (auto simp: slots_rel_def)
    have "tq_cell b p = tq_cell a p" using cells p(1) False by simp
    moreover have "tq_cell b (p - sz) = tq_cell a (p - sz)" if "sz \<le> p"
      using cells[of "p - sz"] p(1) False that by (simp add: le_mod_geq)
    ultimately have "serves sz b p \<and> tq_cell b p = tq_cell a p"
      using p(2) by (cases "sz \<le> p") (auto simp: serves_def vacant_def)
    with p False show ?thesis by auto
  qed
qed

lemma popper_kept:
  "\<exists>j. f j = x \<and> moved (pcs j) \<Longrightarrow> f i \<noteq> x \<Longrightarrow> \<exists>j. (f(i := r)) j = x \<and> moved ((pcs(i := p')) j)"
  by (metis fun_upd_other)

lemma rel_fill:
  assumes ok: "ring_ok n K m a" and rel: "ring_rel K a s"
    and i: "tq_role a i = Pushing q v" "vacant (2 ^ K) a q" "\<not> closing p'" "\<not> closing (rg_pcs s i)"
    and c: "c = Stored v \<and> ring_values s (q mod 2 ^ K) = v \<or> c = Broken"
    and sl: "core (token sl) = cell_word q c" "slot_value sl = ring_values s (q mod 2 ^ K)"
    and b: "b = with_role (with_cell a q c) i r"
    and pc: "pc_rel (2 ^ K) b (ring_values s) (rg_last s) i p'"
  shows "ring_rel K b ((ring_goto s i p')\<lparr>rg_slots := (rg_slots s)(q mod 2 ^ K := sl)\<rparr>)" (is "ring_rel K b ?s")
proof (rule ring_rel_move[OF rel, where i = i and p' = p'])
  note inv = ring_okD(1)[OF ok]
  have u: "tq_cell a q = Unused" by (rule tq_invD(3)[OF inv i(1)])
  have vals: "ring_values ?s = ring_values s" using sl(2) by (auto simp: fun_eq_iff)
  have vac: "vacant (2 ^ K) b p" if "vacant (2 ^ K) a p" for p
    using that u b by (auto simp: vacant_def)
  show "slots_rel (2 ^ K) b (rg_slots ?s)"
  proof -
    have "serves (2 ^ K) b q" using vac[OF i(2)] c b by (auto simp: serves_def)
    then have "slots_rel (2 ^ K) b ((rg_slots s)(q mod 2 ^ K := sl))"
      using b sl(1) by (intro slots_rel_store[OF ring_relD(4)[OF rel], of q b q]) auto
    then show ?thesis by simp
  qed
  have "values_rel (2 ^ K) b (ring_values s) (rg_pcs ?s)"
    unfolding values_rel_def
  proof (intro allI impI)
    fix p w
    assume p: "tq_cell b p = Stored w"
    show "ring_values s (p mod 2 ^ K) = w \<or> (\<exists>j. tq_role b j = Popping p \<and> moved (rg_pcs ?s j))"
    proof (cases "p = q")
      case True
      then show ?thesis using p c b by auto
    next
      case False
      then have "ring_values s (p mod 2 ^ K) = w \<or> (\<exists>j. tq_role a j = Popping p \<and> moved (rg_pcs s j))"
        using p b ring_relD(5)[OF rel] by (simp add: values_rel_def)
      then show ?thesis
      proof
        assume "\<exists>j. tq_role a j = Popping p \<and> moved (rg_pcs s j)"
        from popper_kept[OF this, of i r p'] i(1) show ?thesis by (simp add: b)
      qed simp
    qed
  qed
  then show "values_rel (2 ^ K) b (ring_values ?s) (rg_pcs ?s)" by (simp only: vals)
  show "pc_rel (2 ^ K) b (ring_values ?s) (rg_last ?s) i p'" using pc unfolding vals by simp
  show "ring_values ?s (p mod 2 ^ K) = ring_values s (p mod 2 ^ K)" for p using sl(2) by auto
  show "tq_cell b p = tq_cell a p" if "tq_cell a p \<noteq> Unused" for p
    using that u b by auto
  show "vacant (2 ^ K) a p \<Longrightarrow> vacant (2 ^ K) b p" for p by (rule vac)
qed (use ring_relD(2,3,6,7)[OF rel] i b in simp_all)

lemma rel_vacate:
  assumes ok: "ring_ok n K m a" and rel: "ring_rel K a s"
    and i: "tq_role a i = Popping q" "tq_cell a q \<noteq> Unused" "\<not> closing p'"
    and sl: "core (token sl) = ticket (q + 2 ^ K)" "slot_value sl = ring_values s (q mod 2 ^ K)"
    and b: "b = with_role (with_cell a q Taken) i r"
    and pc: "pc_rel (2 ^ K) b (ring_values s) (rg_last s) i p'"
  shows "ring_rel K b ((ring_goto s i p')\<lparr>rg_slots := (rg_slots s)(q mod 2 ^ K := sl)\<rparr>)" (is "ring_rel K b ?s")
proof (rule ring_rel_move[OF rel, where i = i and p' = p'])
  note inv = ring_okD(1)[OF ok]
  have vals: "ring_values ?s = ring_values s" using sl(2) by (auto simp: fun_eq_iff)
  have sv: "serves (2 ^ K) a q"
    using tq_invD(7)[OF inv i(1)] tq_invD(12)[OF inv i(2)] by (simp add: serves_def)
  have next_unused: "tq_cell a (q + 2 ^ K) = Unused"
    by (rule unused_above[OF inv _ sv]) simp_all
  show "slots_rel (2 ^ K) b (rg_slots ?s)"
  proof -
    have "serves (2 ^ K) b (q + 2 ^ K)" using next_unused b by (simp add: serves_def vacant_def)
    then have "slots_rel (2 ^ K) b ((rg_slots s)(q mod 2 ^ K := sl))"
      using b sl(1) next_unused by (intro slots_rel_store[OF ring_relD(4)[OF rel], of q b "q + 2 ^ K"]) auto
    then show ?thesis by simp
  qed
  have "values_rel (2 ^ K) b (ring_values s) (rg_pcs ?s)"
    unfolding values_rel_def
  proof (intro allI impI)
    fix p w
    assume p: "tq_cell b p = Stored w"
    then have pq: "p \<noteq> q" using b by auto
    then have "ring_values s (p mod 2 ^ K) = w \<or> (\<exists>j. tq_role a j = Popping p \<and> moved (rg_pcs s j))"
      using p b ring_relD(5)[OF rel] by (simp add: values_rel_def)
    then show "ring_values s (p mod 2 ^ K) = w \<or> (\<exists>j. tq_role b j = Popping p \<and> moved (rg_pcs ?s j))"
    proof
      assume "\<exists>j. tq_role a j = Popping p \<and> moved (rg_pcs s j)"
      from popper_kept[OF this, of i r p'] i(1) pq show ?thesis by (simp add: b)
    qed simp
  qed
  then show "values_rel (2 ^ K) b (ring_values ?s) (rg_pcs ?s)" by (simp only: vals)
  show "pc_rel (2 ^ K) b (ring_values ?s) (rg_last ?s) i p'" using pc unfolding vals by simp
  show "ring_values ?s (p mod 2 ^ K) = ring_values s (p mod 2 ^ K)" for p using sl(2) by auto
  show "tq_cell b p = tq_cell a p" if "j \<noteq> i" "tq_role a j = Popping p" for j p
    using that tq_invD(8)[OF inv i(1), of j] b by auto
  show "vacant (2 ^ K) a p \<Longrightarrow> vacant (2 ^ K) b p" for p using b by (auto simp: vacant_def)
qed (use ring_relD(2,3,6,7)[OF rel] i b in simp_all)

subsection \<open>Every step of the ring is matched\<close>

lemma token_read:
  assumes "ring_rel K a s" and "ring_ok n K m a"
  shows "slot_index s (of_nat q) = q mod 2 ^ K" and "fr_count f = of_nat q \<Longrightarrow> fr_token f = ticket q"
  using slot_of_position[OF assms(2,1)] by (blast, simp add: fr_token_def ticket_def)

lemma steps_append:
  assumes "tq_steps sz b l c" and "tq_steps sz a k b"
  shows "tq_steps sz a (k @ l) c"
  using assms
proof induction
  case (steps_more b ls c l d)
  then show ?case using tq_steps.steps_more[of sz a "k @ ls" c l d] by simp
qed simp

text \<open>How a consumer leaves: it takes, drops or skips the cell, and then returns or draws again.\<close>

lemma exit_step:
  assumes "tq_role a i = Popping q" and "exit_cell ex (tq_cell a q)"
  shows "\<exists>r. exit_role ex r \<and> tq_step sz a [] (with_role (with_cell a q Taken) i r)"
  using assms tq_step.take[OF assms(1)] tq_step.drop[OF assms(1)] tq_step.skip[OF assms(1)]
  by (cases ex) auto

lemma exit_return:
  assumes "exit_role ex (tq_role b i)"
  shows "tq_steps sz b (ring_label i (Pop_wake ex f p) (exit_pc ex f)) (with_role b i Resting)"
proof (cases ex)
  case (Exit_value v)
  with assms obtain q where "tq_role b i = Took q v" by auto
  from steps_one[OF tq_step.return_value[OF this]] show ?thesis using Exit_value by (simp add: ring_label_def)
next
  case Exit_throw
  then show ?thesis using assms by (auto simp: ring_label_def intro!: steps_one tq_step.return)
next
  case Exit_again
  then have "with_role b i Resting = b" using assms by (simp add: fun_upd_idem)
  then show ?thesis using Exit_again steps_none[of sz b] by (simp add: ring_label_def)
qed (use assms in simp)

lemma head_next_ticket:
  assumes "ring_ok n K m a" and "ring_rel K a s" and "fr_count f = of_nat q"
  shows "head_next f (rg_mask s) = ticket (q + 2 ^ K)"
  unfolding head_next_def ring_relD(1)[OF assms(2)] token_read(2)[OF assms(2,1,3)]
  by (rule ticket_next[OF ring_okD(3,4)[OF assms(1)]])

text \<open>The tests of \<open>wait_head\<close> find out what is in the cell.\<close>

lemma head_test_rel:
  assumes ok: "ring_ok n K m a" and rel: "ring_rel K a s"
    and q: "tq_role a i = Popping q" "fr_count f = of_nat q" "second \<longrightarrow> vacant (2 ^ K) a q"
    and t: "core t = core (token (rg_slots s (slot_index s (of_nat q))))"
  shows "pc_rel (2 ^ K) a (ring_values s) (rg_last s) i (head_test second (rg_mask s) f t)"
proof (cases "\<not> second \<and> t AND ticket_mask \<noteq> fr_token f")
  case True
  then show ?thesis using q by (simp add: head_test_def)
next
  case False
  then have "t AND ticket_mask = ticket q \<or> vacant (2 ^ K) a q"
    using q(3) token_read(2)[OF rel ok q(2)] by auto
  from pop_served[OF ok rel q(1) t this]
  have sv: "vacant (2 ^ K) a q" "tq_cell a q \<noteq> Taken" and w: "core t = cell_word q (tq_cell a q)"
    by (simp_all add: serves_def)
  have s: "t AND status_mask = 0 \<longleftrightarrow> tq_cell a q = Unused"
    "t AND status_valid = 0 \<longleftrightarrow> (\<forall>v. tq_cell a q \<noteq> Stored v)"
    using core_reads(2,3)[of t] w sv(2) cell_word_status[of q "tq_cell a q"] by auto
  show ?thesis
    using False q(1,2) sv s head_next_ticket[OF ok rel q(2)]
    by (cases "tq_cell a q") (auto simp: head_test_def head_test2_def)
qed

text \<open>The thread that is served at a position may write the value of its slot.\<close>

lemma rel_write_value:
  fixes s :: "('v, 'b) ring_state" and x :: 'v
  assumes ok: "ring_ok n K m a" and rel: "ring_rel K a s" and p: "serves (2 ^ K) a p"
    and i: "tq_role a i = Pushing p v \<or> tq_role a i = Popping p \<and> tq_cell a p \<noteq> Unused \<and> moved p'"
    and pc: "pc_rel (2 ^ K) a ((ring_values s)(p mod 2 ^ K := x)) (rg_last s) i p'" "\<not> closing p'"
  shows "ring_rel K a ((ring_goto s i p')
    \<lparr>rg_slots := (rg_slots s)(p mod 2 ^ K := (rg_slots s (p mod 2 ^ K))\<lparr>slot_value := x\<rparr>)\<rparr>)" (is "ring_rel K a ?s")
proof (rule ring_rel_move[OF rel, where i = i and p' = p'])
  note inv = ring_okD(1)[OF ok]
  have vals: "ring_values ?s = (ring_values s)(p mod 2 ^ K := x)" by (auto simp: fun_eq_iff)
  have other: "q mod 2 ^ K \<noteq> p mod 2 ^ K" if "serves (2 ^ K) a q" "q \<noteq> p" for q
    using serves_unique[OF inv _ that(1) p] that(2) by auto
  show "slots_rel (2 ^ K) a (rg_slots ?s)"
    using ring_relD(4)[OF rel] by (auto simp: slots_rel_def)
  have "values_rel (2 ^ K) a ((ring_values s)(p mod 2 ^ K := x)) (rg_pcs ?s)"
    unfolding values_rel_def
  proof (intro allI impI)
    fix q w
    assume q: "tq_cell a q = Stored w"
    let ?kept = "\<lambda>vals pcs. vals (q mod 2 ^ K) = w \<or> (\<exists>j. tq_role a j = Popping q \<and> moved (pcs j))"
    show "?kept ((ring_values s)(p mod 2 ^ K := x)) (rg_pcs ?s)"
    proof (cases "q = p")
      case True
      then have "tq_role a i = Popping q \<and> moved (rg_pcs ?s i)"
        using i q tq_invD(3)[OF inv, of i p v] by auto
      then show ?thesis by blast
    next
      case False
      have "serves (2 ^ K) a q" using tq_invD(12)[OF inv, of q] q by (simp add: serves_def)
      from other[OF this False] ring_relD(5)[OF rel]
      have "((ring_values s)(p mod 2 ^ K := x)) (q mod 2 ^ K) = w \<or> (\<exists>j. tq_role a j = Popping q \<and> moved (rg_pcs s j))"
        using q by (simp add: values_rel_def)
      moreover have "moved (rg_pcs ?s j)" if "tq_role a j = Popping q" "moved (rg_pcs s j)" for j
        using that i False by (cases "j = i") auto
      ultimately show ?thesis by blast
    qed
  qed
  then show "values_rel (2 ^ K) a (ring_values ?s) (rg_pcs ?s)" by (simp only: vals)
  show "pc_rel (2 ^ K) a (ring_values ?s) (rg_last ?s) i p'" using pc(1) unfolding vals by simp
  show "ring_values ?s (q mod 2 ^ K) = ring_values s (q mod 2 ^ K)"
    if "j \<noteq> i" "tq_role a j = Pushing q w" "vacant (2 ^ K) a q" for j q w
  proof -
    have "serves (2 ^ K) a q" using that(3) tq_invD(3)[OF inv that(2)] by (simp add: serves_def)
    moreover have "q \<noteq> p" using that(1,2) i tq_invD(5)[OF inv, of i p v j w] tq_invD(3)[OF inv that(2)] by auto
    ultimately show ?thesis using other by simp
  qed
qed (use ring_relD(2,3,6,7)[OF rel] pc in simp_all)

text \<open>The two stores of \<open>close\<close>.\<close>

lemma rel_close_store:
  assumes rel: "ring_rel K a s" and i: "closing (rg_pcs s i)" "tq_role a i = Resting"
    and l: "tq_last a = Some l" "last' = of_nat l" and c: "c' = rg_closed s \<or> c' = Closed"
    and pc: "pc_rel (2 ^ K) a (ring_values s) last' i p'"
  shows "ring_rel K a ((ring_goto s i p')\<lparr>rg_last := last', rg_closed := c'\<rparr>)" (is "ring_rel K a ?s")
proof (rule ring_rel_move[OF rel, where i = i and p' = p'])
  have "values_rel (2 ^ K) a (ring_values s) (rg_pcs ?s)"
    using i(2) by (intro values_rel_cells[OF ring_relD(5)[OF rel]]) auto
  then show "values_rel (2 ^ K) a (ring_values ?s) (rg_pcs ?s)" by simp
  show "tq_last a = tq_last a \<and> rg_last ?s = rg_last s" if "j \<noteq> i" "closing (rg_pcs s j)" for j
    using that ring_relD(8)[OF rel that(2) i(1)] by simp
  show "rg_closed ?s \<noteq> Closing" using c ring_relD(6)[OF rel] by auto
qed (use ring_relD(2-4)[OF rel] i l pc in simp_all)

fun ring_try :: "('v, 'b) ring_event \<Rightarrow> bool" where
  "ring_try (Ring_try_push i v) = True"
| "ring_try (Ring_try_pop i) = True"
| "ring_try _ = False"

fun ring_closes :: "('v, 'b) ring_event \<Rightarrow> bool" where
  "ring_closes (Ring_close i) = True"
| "ring_closes _ = False"

lemma ring_rel_init:
  assumes "K < 32"
  shows "ring_rel K tq_init (ring_init v0 last0 (2 ^ K))"
proof -
  have "slots_rel (2 ^ K) tq_init (rg_slots (ring_init v0 last0 (2 ^ K)))"
    unfolding slots_rel_def
  proof (intro allI impI)
    fix j :: nat
    assume j: "j < 2 ^ K"
    have "core (ticket j) = ticket j" using core_cell_word[of j "Unused :: 'a cell"] by simp
    with j have "j mod 2 ^ K = j \<and> serves (2 ^ K) tq_init j \<and>
        core (token (rg_slots (ring_init v0 last0 (2 ^ K)) j)) = cell_word j (tq_cell tq_init j)"
      by (simp add: serves_def vacant_def tq_init_def ring_init_def ticket_def)
    then show "\<exists>p. p mod 2 ^ K = j \<and> serves (2 ^ K) tq_init p \<and>
        core (token (rg_slots (ring_init v0 last0 (2 ^ K)) j)) = cell_word p (tq_cell tq_init p)"
      by blast
  qed
  then show ?thesis
    by (simp add: ring_rel_def ring_init_def tq_init_def values_rel_def)
qed

text \<open>The window after the closing.\<close>

lemma head_ahead:
  assumes inv: "tq_inv n sz a" and l: "tq_last a = None"
  shows "tq_head a \<le> tq_tail a + n"
proof (rule ccontr)
  assume gt: "\<not> tq_head a \<le> tq_tail a + n"
  let ?f = "\<lambda>i. case tq_role a i of Popping p \<Rightarrow> Some p | _ \<Rightarrow> None" and ?g = "\<lambda>k. tq_tail a + k"
  have "\<exists>i < n. ?f i = Some (?g k)" if "k \<le> n" for k
  proof -
    have "tq_cell a (?g k) = Unused" using tq_invD(11)[OF inv, of "?g k"] limit_last(2)[OF l] by fastforce
    moreover have "?g k < tq_head a" using gt that by linarith
    ultimately obtain i where i: "tq_role a i = Popping (?g k)"
      using tq_invD(10)[OF inv, of "?g k"] l by auto
    then have "i < n" by (intro active_below[OF inv]) simp
    with i show ?thesis by auto
  qed
  moreover have "inj ?g" by (auto simp: inj_def)
  ultimately show False by (rule pigeonhole)
qed

lemma window_step:
  assumes "tq_step sz a l b" and "tq_inv n sz a" and "in_window n sz m a"
  shows "in_window n sz (m + length l) b"
  using assms(1)
proof cases
  case (shut i)
  then show ?thesis using head_ahead[OF assms(2)] by (auto simp: in_window_def)
qed (use assms(3) in \<open>auto simp: in_window_def split: option.splits\<close>)

lemma window_steps:
  assumes "tq_steps sz a l b" and "tq_inv n sz a" and "in_window n sz m a" and "list_all (\<lambda>l. label_tid l < n) l"
  shows "in_window n sz (m + length l) b"
  using assms
proof induction
  case (steps_more a k b l c)
  then have "in_window n sz (m + length k) b" "tq_inv n sz b"
    using tq_steps_inv[OF steps_more.hyps(1)] by simp_all
  from window_step[OF steps_more.hyps(2) this(2,1)] show ?case by (simp add: add.assoc)
qed simp

text \<open>What a step does to the labels and to the closing threads.\<close>

lemma ring_label_tid: "l \<in> set (ring_label i p q) \<Longrightarrow> label_tid l = i"
  by (cases p) (auto simp: ring_label_def split: ring_pc.splits option.splits)

lemma ring_label_length: "length (ring_label i p q) \<le> 1"
  by (cases p) (auto simp: ring_label_def split: ring_pc.splits option.splits)

lemma ring_label_shut: "\<not> closing p \<Longrightarrow> list_all (\<lambda>l. \<not> is_shut l) (ring_label i p q)"
  by (cases p) (auto simp: ring_label_def split: ring_pc.splits option.splits)

lemma exit_pc_not_closing [simp]: "\<not> closing (exit_pc ex f)"
  by (cases ex) auto

lemma exec_pcs:
  assumes "ring_exec stepf bk mv i e p s = Some s'"
  shows "j \<noteq> i \<Longrightarrow> rg_pcs s' j = rg_pcs s j" and "\<not> closing p \<Longrightarrow> \<not> closing (rg_pcs s' i)"
proof -
  have "\<exists>q. rg_pcs s' = (rg_pcs s)(i := q) \<and> (\<not> closing p \<longrightarrow> \<not> closing q)"
    using assms
    by (cases p) (auto simp: on_slot_def Let_def tail_test_def head_test_def head_test2_def atomic_fetch_add_def
        atomic_try_increment_def split: option.splits prod.splits if_splits slot_out.splits
        intro: exI[of _ "exit_pc _ _"])
  then show "j \<noteq> i \<Longrightarrow> rg_pcs s' j = rg_pcs s j" "\<not> closing p \<Longrightarrow> \<not> closing (rg_pcs s' i)" by auto
qed

lemma step_closing:
  assumes "ring_step stepf bk mv e s = Some s'" and "\<not> ring_closes e" and "\<forall>j. \<not> closing (rg_pcs s j)"
  shows "\<not> closing (rg_pcs s' j)"
proof (cases e)
  case (Ring_go i env)
  then show ?thesis using exec_pcs[of stepf bk mv i env] assms by (cases "j = i") auto
qed (use assms in \<open>auto simp: ring_call_def split: if_splits\<close>)

text \<open>The labels so far are a trace of the specification that ends in a related state.\<close>

definition tracks :: "nat \<Rightarrow> nat \<Rightarrow> nat \<Rightarrow> 'v label list \<Rightarrow> ('v, 'b) ring_state \<Rightarrow> bool" where
  "tracks n K m ls s \<longleftrightarrow>
     (\<exists>a. tq_trace (2 ^ K) ls a \<and> ring_ok n K m a \<and> ring_rel K a s \<and> list_all (\<lambda>l. label_tid l < n) ls)"

lemma ring_trace_append:
  assumes "run (ring_step stepf bk mv) xs s = Some t"
  shows "ring_trace stepf bk mv (xs @ ys) s = ring_trace stepf bk mv xs s @ ring_trace stepf bk mv ys t"
  using assms by (induction xs arbitrary: s) (auto split: option.splits)

lemma tracks_init:
  fixes v0 :: 'v
  assumes "4 \<le> K" and "K < 32" and "2 ^ K * (n + 2) < (2::nat) ^ 31"
  shows "tracks n K 0 [] (ring_init v0 last0 (2 ^ K) :: ('v, 'b) ring_state)"
proof -
  have "in_window n (2 ^ K) 0 (tq_init :: 'v tq)" by (simp add: in_window_def tq_init_def)
  then have "ring_ok n K 0 (tq_init :: 'v tq)" using tq_inv_init[of n "2 ^ K", where 'a = 'v] assms by (simp add: ring_ok_def)
  moreover have "ring_rel K tq_init (ring_init v0 last0 (2 ^ K) :: ('v, 'b) ring_state)"
    by (rule ring_rel_init[OF assms(2)])
  moreover have "tq_trace (2 ^ K) [] (tq_init :: 'v tq)" by (rule tq_trace.start)
  ultimately show ?thesis unfolding tracks_def by auto
qed

locale ring_slots = slot_ops stepf for stepf :: "'v slot_stepf"
begin

lemma on_slot_read:
  assumes "on_slot stepf i e j p nxt got fin s = Some s'" and "slot_reads p"
  obtains (got) sl t where "s' = (ring_goto s i (got t))\<lparr>rg_slots := (rg_slots s)(j := sl)\<rparr>"
      "core (token sl) = core (token (rg_slots s j))" "slot_value sl = ring_values s j"
      "core t = core (token (rg_slots s j))"
    | (more) sl q where "s' = (ring_goto s i (nxt q))\<lparr>rg_slots := (rg_slots s)(j := sl)\<rparr>"
      "core (token sl) = core (token (rg_slots s j))" "slot_value sl = ring_values s j" "slot_reads q"
proof -
  obtain sl out where st: "stepf i e p (rg_slots s j) = Some (sl, out)"
    and s': "s' = (ring_goto s i (case out of Next q \<Rightarrow> nxt q | Got t \<Rightarrow> got t | Finished \<Rightarrow> fin))
                  \<lparr>rg_slots := (rg_slots s)(j := sl)\<rparr>"
    using assms(1) by (auto simp: on_slot_def split: option.splits prod.splits)
  have "\<not> slot_writes p" using assms(2) by (cases p) auto
  then have "core (token sl) = core (token (rg_slots s j))" "slot_value sl = ring_values s j"
    using core_kept[OF st] slot_value_more[OF more_kept[OF st]] by simp_all
  note kept = this
  from st assms(2) show thesis
  proof (cases rule: reads_out)
    case (got t)
    then show thesis using that(1)[of sl t] s' kept by simp
  next
    case (more q)
    then show thesis using that(2)[of sl q] s' kept by simp
  qed
qed

lemma on_slot_quiet:
  assumes "on_slot stepf i e j p nxt got fin s = Some s'" and "quiet p"
  obtains (fin) sl where "s' = (ring_goto s i fin)\<lparr>rg_slots := (rg_slots s)(j := sl)\<rparr>"
      "core (token sl) = core (token (rg_slots s j))" "slot_value sl = ring_values s j"
    | (more) sl q where "s' = (ring_goto s i (nxt q))\<lparr>rg_slots := (rg_slots s)(j := sl)\<rparr>"
      "core (token sl) = core (token (rg_slots s j))" "slot_value sl = ring_values s j" "quiet q"
proof -
  obtain sl out where st: "stepf i e p (rg_slots s j) = Some (sl, out)"
    and s': "s' = (ring_goto s i (case out of Next q \<Rightarrow> nxt q | Got t \<Rightarrow> got t | Finished \<Rightarrow> fin))
                  \<lparr>rg_slots := (rg_slots s)(j := sl)\<rparr>"
    using assms(1) by (auto simp: on_slot_def split: option.splits prod.splits)
  have "core (token sl) = core (token (rg_slots s j))" "slot_value sl = ring_values s j"
    using core_kept[OF st] slot_value_more[OF more_kept[OF st]] assms(2) by simp_all
  then show thesis
    using that s' others_finish[OF st] assms(2) by auto
qed

lemma on_slot_wake:
  assumes "on_slot stepf i e j (At_wake t) nxt got fin s = Some s'"
  obtains (fin) sl where "s' = (ring_goto s i fin)\<lparr>rg_slots := (rg_slots s)(j := sl)\<rparr>"
      "token sl = t" "slot_value sl = ring_values s j"
    | (more) sl q where "s' = (ring_goto s i (nxt q))\<lparr>rg_slots := (rg_slots s)(j := sl)\<rparr>"
      "token sl = t" "slot_value sl = ring_values s j" "quiet q"
proof -
  obtain sl out where st: "stepf i e (At_wake t) (rg_slots s j) = Some (sl, out)"
    and s': "s' = (ring_goto s i (case out of Next q \<Rightarrow> nxt q | Got t \<Rightarrow> got t | Finished \<Rightarrow> fin))
                  \<lparr>rg_slots := (rg_slots s)(j := sl)\<rparr>"
    using assms(1) by (auto simp: on_slot_def split: option.splits prod.splits)
  show thesis
    using that s' others_finish[OF st] wake_stores[OF st] slot_value_more[OF more_kept[OF st]] by auto
qed

lemma sim_push_slot:
  assumes ok: "ring_ok n K m a" and rel: "ring_rel K a s" and pc: "rg_pcs s i = Push_slot v f p"
    and st: "ring_exec stepf bk mv i e (Push_slot v f p) s = Some s'"
  shows "sim K a (ring_label i (Push_slot v f p) (rg_pcs s' i)) s'"
proof -
  obtain q where q: "slot_reads p" "tq_role a i = Pushing q v" "fr_count f = of_nat q"
    using ring_relD(9)[OF rel, of i] pc by auto
  let ?j = "slot_index s (fr_count f)"
  have "on_slot stepf i e ?j p (Push_slot v f) (tail_test v f) (Push_slot v f p) s = Some s'"
    using st by simp
  then show ?thesis using q(1)
  proof (cases rule: on_slot_read)
    case (got sl t)
    have "pc_rel (2 ^ K) a (ring_values s) (rg_last s) i (tail_test v f t)"
      using q(2,3) push_served[OF ok rel q(2), of t] got(4) token_read(2)[OF rel ok q(3)]
      by (auto simp: tail_test_def serves_def)
    then have "ring_rel K a s'"
      using got q(2) unfolding got(1) by (intro rel_stay[OF rel]) (auto simp: tail_test_def split: if_splits)
    then show ?thesis
      using got(1) by (auto simp: ring_label_def tail_test_def intro: sim_none)
  next
    case (more sl r)
    then have "ring_rel K a s'"
      using q unfolding more(1) by (intro rel_stay[OF rel]) auto
    then show ?thesis
      using more(1) by (auto simp: ring_label_def intro: sim_none)
  qed
qed

lemma sim_push_past:
  assumes ok: "ring_ok n K m a" and rel: "ring_rel K a s" and pc: "rg_pcs s i = Push_past v f t"
    and st: "ring_exec stepf bk mv i e (Push_past v f t) s = Some s'"
  shows "sim K a (ring_label i (Push_past v f t) (rg_pcs s' i)) s'"
proof -
  obtain p where p: "tq_role a i = Pushing p v" "fr_count f = of_nat p"
    using ring_relD(9)[OF rel, of i] pc by auto
  show ?thesis
  proof (cases "is_past_last s (fr_count f)")
    case True
    obtain q where q: "q mod 2 ^ K = p mod 2 ^ K" "serves (2 ^ K) a q" by (rule slot_of_position[OF ok rel])
    have "refused a p"
      using past_refused[OF ok rel _ q(2) push_window(1)[OF ok p(1) q(2,1)]] True p(2) by simp
    then have "tq_step (2 ^ K) a [Res i (Ret St_closed None)] (with_role a i Resting)"
      by (rule tq_step.refuse_push[OF p(1)])
    moreover have "ring_rel K (with_role a i Resting) (ring_return s i St_closed None)"
      using rel_role[OF rel refl, of "rg_slots s" i Resting "R_Idle (Some (Ret St_closed None))"] p(1) by simp
    ultimately show ?thesis using st True by (auto simp: ring_label_def intro: sim_one)
  next
    case False
    then have "ring_rel K a s'"
      using st p by (auto split: if_splits intro!: rel_goto[OF rel])
    then show ?thesis using st False by (auto simp: ring_label_def split: if_splits intro: sim_none)
  qed
qed

lemma sim_push_put:
  assumes ok: "ring_ok n K m a" and rel: "ring_rel K a s" and pc: "rg_pcs s i = Push_put v f"
    and st: "ring_exec stepf bk mv i e (Push_put v f) s = Some s'"
  shows "sim K a (ring_label i (Push_put v f) (rg_pcs s' i)) s'"
proof -
  obtain p where p: "tq_role a i = Pushing p v" "fr_count f = of_nat p" "vacant (2 ^ K) a p"
    using ring_relD(9)[OF rel, of i] pc by auto
  note tok = token_read(2)[OF rel ok p(2)] and idx = token_read(1)[OF rel ok, of p]
  have sv: "serves (2 ^ K) a p" using p(3) tq_invD(3)[OF ring_okD(1)[OF ok] p(1)] by (simp add: serves_def)
  have "ring_rel K a s'"
  proof (cases "env_fail e")
    case True
    then show ?thesis using st p tok by (auto intro!: rel_goto[OF rel])
  next
    case False
    let ?p' = "Push_wake f False (At_wake (ticket p OR status_valid))"
    have "pc_rel (2 ^ K) a ((ring_values s)(p mod 2 ^ K := v)) (rg_last s) i ?p'"
      using p by simp
    with rel_write_value[OF ok rel sv disjI1[OF p(1)] this] show ?thesis
      using st False p(2) tok idx by (simp add: Let_def)
  qed
  then show ?thesis using st by (auto simp: ring_label_def Let_def split: if_splits intro: sim_none)
qed

lemma sim_pop_get:
  assumes ok: "ring_ok n K m a" and rel: "ring_rel K a s" and pc: "rg_pcs s i = Pop_get f"
    and st: "ring_exec stepf bk mv i e (Pop_get f) s = Some s'"
  shows "sim K a (ring_label i (Pop_get f) (rg_pcs s' i)) s'"
proof -
  note inv = ring_okD(1)[OF ok]
  obtain p v where p: "tq_role a i = Popping p" "fr_count f = of_nat p" "tq_cell a p = Stored v"
    using ring_relD(9)[OF rel, of i] pc by auto
  note nxt = head_next_ticket[OF ok rel p(2)] and idx = token_read(1)[OF rel ok, of p]
  have sv: "serves (2 ^ K) a p" using p(3) tq_invD(12)[OF inv, of p] by (simp add: serves_def)
  have val: "ring_values s (p mod 2 ^ K) = v"
  proof -
    have "\<not> (tq_role a j = Popping p \<and> moved (rg_pcs s j))" for j
      using tq_invD(8)[OF inv p(1), of j] pc by auto
    then show ?thesis using ring_relD(5)[OF rel] p(3) by (auto simp: values_rel_def)
  qed
  have "ring_rel K a s'"
  proof (cases "env_fail e")
    case True
    then show ?thesis using st p nxt by (auto simp: Let_def intro!: rel_goto[OF rel])
  next
    case False
    let ?p' = "Pop_wake (Exit_value v) f (At_wake (ticket (p + 2 ^ K)))"
    have "pc_rel (2 ^ K) a ((ring_values s)(p mod 2 ^ K := mv v)) (rg_last s) i ?p'"
      using p by simp
    with rel_write_value[OF ok rel sv _ this] show ?thesis
      using st False p val nxt idx by (simp add: Let_def)
  qed
  then show ?thesis using st by (auto simp: ring_label_def Let_def split: if_splits intro: sim_none)
qed

lemma sim_push_wake:
  assumes ok: "ring_ok n K m a" and rel: "ring_rel K a s" and pc: "rg_pcs s i = Push_wake f threw p"
    and st: "ring_exec stepf bk mv i e (Push_wake f threw p) s = Some s'"
  shows "sim K a (ring_label i (Push_wake f threw p) (rg_pcs s' i)) s'"
proof -
  let ?r = "if threw then Threw else Ret St_success None :: 'v op_result"
  have st': "on_slot stepf i e (slot_index s (fr_count f)) p (Push_wake f threw) (\<lambda>_. Push_wake f threw p)
      (R_Idle (Some ?r)) s = Some s'"
    using st by simp
  have "pc_rel (2 ^ K) a (ring_values s) (rg_last s) i (Push_wake f threw p)"
    using ring_relD(9)[OF rel, of i] pc by simp
  then consider
    (before) q v where "tq_role a i = Pushing q v" "fr_count f = of_nat q" "vacant (2 ^ K) a q"
      "p = At_wake (ticket q OR (if threw then status_invalid else status_valid))"
      "\<not> threw \<longrightarrow> ring_values s (q mod 2 ^ K) = v"
    | (after) "quiet p" "tq_role a i = Returning ?r"
    by (simp only: pc_rel.simps) blast
  then show ?thesis
  proof cases
    case before
    let ?c = "if threw then Broken else Stored v" and ?j = "q mod 2 ^ K"
    let ?b = "with_role (with_cell a q ?c) i (Returning ?r)"
    have step: "tq_step (2 ^ K) a [] ?b"
      using tq_step.store[OF before(1,3)] tq_step.spoil[OF before(1,3)] by simp
    have w: "core (ticket q OR (if threw then status_invalid else status_valid)) = cell_word q ?c"
      using core_cell_word[of q "Broken :: 'v cell"] core_cell_word[of q "Stored v"] by simp
    have fill: "ring_rel K (with_role (with_cell a q ?c) i r) ((ring_goto s i p')\<lparr>rg_slots := (rg_slots s)(?j := sl)\<rparr>)"
      if "pc_rel (2 ^ K) (with_role (with_cell a q ?c) i r) (ring_values s) (rg_last s) i p'" "\<not> closing p'"
        "token sl = ticket q OR (if threw then status_invalid else status_valid)" "slot_value sl = ring_values s ?j"
      for r p' sl
      using rel_fill[OF ok rel before(1,3) that(2) _ _ _ that(4) refl that(1)] that(3) w before(5) pc by simp
    from st'[unfolded before(2,4) token_read(1)[OF rel ok]] show ?thesis
    proof (cases rule: on_slot_wake)
      case (fin sl)
      have "tq_step (2 ^ K) ?b [Res i ?r] (with_role (with_cell a q ?c) i Resting)"
        using tq_step.return[of ?b i ?r "2 ^ K"] by simp
      moreover have "ring_rel K (with_role (with_cell a q ?c) i Resting) s'"
        unfolding fin(1) by (rule fill) (use fin in simp_all)
      ultimately show ?thesis using fin(1) step by (simp add: ring_label_def sim_two)
    next
      case (more sl x)
      have "ring_rel K ?b s'" unfolding more(1) by (rule fill) (use more in simp_all)
      then show ?thesis using more(1) step by (simp add: ring_label_def sim_one)
    qed
  next
    case after
    from st' after(1) show ?thesis
    proof (cases rule: on_slot_quiet)
      case (fin sl)
      have "tq_step (2 ^ K) a [Res i ?r] (with_role a i Resting)" by (rule tq_step.return[OF after(2)])
      moreover have "ring_rel K (with_role a i Resting) s'"
        unfolding fin(1) using fin after(2) by (intro rel_role[OF rel refl]) auto
      ultimately show ?thesis using fin(1) by (simp add: ring_label_def sim_one)
    next
      case (more sl x)
      have "ring_rel K a s'"
        unfolding more(1) using more after by (intro rel_stay[OF rel]) auto
      then show ?thesis using more(1) by (simp add: ring_label_def sim_none)
    qed
  qed
qed

lemma sim_pop_slot:
  assumes ok: "ring_ok n K m a" and rel: "ring_rel K a s" and pc: "rg_pcs s i = Pop_slot second f p"
    and st: "ring_exec stepf bk mv i e (Pop_slot second f p) s = Some s'"
  shows "sim K a (ring_label i (Pop_slot second f p) (rg_pcs s' i)) s'"
proof -
  obtain q where q: "slot_reads p" "tq_role a i = Popping q" "fr_count f = of_nat q" "second \<longrightarrow> vacant (2 ^ K) a q"
    using ring_relD(9)[OF rel, of i] pc by auto
  note tok = token_read(2)[OF rel ok q(3)]
  have "on_slot stepf i e (slot_index s (of_nat q)) p (Pop_slot second f) (head_test second (rg_mask s) f)
      (Pop_slot second f p) s = Some s'"
    using st q(3) by simp
  then show ?thesis using q(1)
  proof (cases rule: on_slot_read)
    case (got sl t)
    let ?p' = "head_test second (rg_mask s) f t"
    have "pc_rel (2 ^ K) a (ring_values s) (rg_last s) i ?p'"
      using head_test_rel[OF ok rel q(2,3,4) got(4)] .
    then have "ring_rel K a s'"
      using got pc unfolding got(1)
      by (intro rel_stay[OF rel]) (auto simp: head_test_def head_test2_def split: if_splits)
    then show ?thesis
      using got(1) by (auto simp: ring_label_def head_test_def head_test2_def intro: sim_none)
  next
    case (more sl r)
    then have "ring_rel K a s'"
      using q pc unfolding more(1) by (intro rel_stay[OF rel]) auto
    then show ?thesis
      using more(1) by (auto simp: ring_label_def intro: sim_none)
  qed
qed

lemma sim_pop_past:
  assumes ok: "ring_ok n K m a" and rel: "ring_rel K a s" and pc: "rg_pcs s i = Pop_past second f t"
    and st: "ring_exec stepf bk mv i e (Pop_past second f t) s = Some s'"
  shows "sim K a (ring_label i (Pop_past second f t) (rg_pcs s' i)) s'"
proof -
  obtain p where p: "tq_role a i = Popping p" "fr_count f = of_nat p" "second \<longrightarrow> vacant (2 ^ K) a p"
    using ring_relD(9)[OF rel, of i] pc by auto
  show ?thesis
  proof (cases "is_past_last s (fr_count f)")
    case True
    obtain q where q: "q mod 2 ^ K = p mod 2 ^ K" "serves (2 ^ K) a q" by (rule slot_of_position[OF ok rel])
    have "refused a p"
      using past_refused[OF ok rel _ q(2) pop_window(1)[OF ok p(1) q(2,1)]] True p(2) by simp
    then have "tq_step (2 ^ K) a [Res i (Ret St_closed None)] (with_role a i Resting)"
      by (rule tq_step.refuse_pop[OF p(1)])
    moreover have "ring_rel K (with_role a i Resting) (ring_return s i St_closed None)"
      using rel_role[OF rel refl, of "rg_slots s" i Resting "R_Idle (Some (Ret St_closed None))"] p(1) pc by simp
    ultimately show ?thesis using st True by (auto simp: ring_label_def intro: sim_one)
  next
    case False
    then have "ring_rel K a s'"
      using st p pc by (auto split: if_splits intro!: rel_goto[OF rel])
    then show ?thesis using st False by (auto simp: ring_label_def split: if_splits intro: sim_none)
  qed
qed

lemma sim_pop_wake:
  assumes ok: "ring_ok n K m a" and rel: "ring_rel K a s" and pc: "rg_pcs s i = Pop_wake ex f p"
    and st: "ring_exec stepf bk mv i e (Pop_wake ex f p) s = Some s'"
  shows "sim K a (ring_label i (Pop_wake ex f p) (rg_pcs s' i)) s'"
proof -
  have st': "on_slot stepf i e (slot_index s (fr_count f)) p (Pop_wake ex f) (\<lambda>_. Pop_wake ex f p)
      (exit_pc ex f) s = Some s'"
    using st by simp
  have "pc_rel (2 ^ K) a (ring_values s) (rg_last s) i (Pop_wake ex f p)"
    using ring_relD(9)[OF rel, of i] pc by simp
  then consider
    (before) q where "tq_role a i = Popping q" "fr_count f = of_nat q" "exit_cell ex (tq_cell a q)"
      "p = At_wake (ticket (q + 2 ^ K))"
    | (after) "quiet p" "exit_role ex (tq_role a i)"
    by (simp only: pc_rel.simps) blast
  then show ?thesis
  proof cases
    case before
    obtain r where r: "exit_role ex r" "tq_step (2 ^ K) a [] (with_role (with_cell a q Taken) i r)"
      using exit_step[OF before(1,3)] by blast
    have u: "tq_cell a q \<noteq> Unused" using before(3) by (cases ex) auto
    have vac: "ring_rel K (with_role (with_cell a q Taken) i r') ((ring_goto s i p')\<lparr>rg_slots := (rg_slots s)(q mod 2 ^ K := sl)\<rparr>)"
      if "pc_rel (2 ^ K) (with_role (with_cell a q Taken) i r') (ring_values s) (rg_last s) i p'" "\<not> closing p'"
        "token sl = ticket (q + 2 ^ K)" "slot_value sl = ring_values s (q mod 2 ^ K)" for r' p' sl
      using rel_vacate[OF ok rel before(1) u that(2) _ that(4) refl that(1)] that(3)
        core_cell_word[of "q + 2 ^ K" "Unused :: 'v cell"] by simp
    from st'[unfolded before(2,4) token_read(1)[OF rel ok]] show ?thesis
    proof (cases rule: on_slot_wake)
      case (fin sl)
      let ?b = "with_role (with_cell a q Taken) i r"
      have "tq_steps (2 ^ K) ?b (ring_label i (Pop_wake ex f p) (exit_pc ex f)) (with_role ?b i Resting)"
        by (rule exit_return) (simp add: r(1))
      from steps_append[OF this steps_one[OF r(2)]]
      have "tq_steps (2 ^ K) a (ring_label i (Pop_wake ex f p) (exit_pc ex f)) (with_role (with_cell a q Taken) i Resting)"
        by simp
      moreover have "ring_rel K (with_role (with_cell a q Taken) i Resting) s'"
        unfolding fin(1) by (rule vac) (use fin in \<open>cases ex; simp\<close>)+
      ultimately show ?thesis using fin(1) by (auto simp: sim_def)
    next
      case (more sl x)
      have "ring_rel K (with_role (with_cell a q Taken) i r) s'"
        unfolding more(1) by (rule vac) (use more r(1) in simp_all)
      then show ?thesis using more(1) r(2) by (simp add: ring_label_def sim_one)
    qed
  next
    case after
    from st' after(1) show ?thesis
    proof (cases rule: on_slot_quiet)
      case (fin sl)
      have "ring_rel K (with_role a i Resting) s'"
        unfolding fin(1) using fin after(2) by (intro rel_role[OF rel refl]) (cases ex; auto)+
      then show ?thesis using fin(1) exit_return[OF after(2)] by (auto simp: sim_def)
    next
      case (more sl x)
      have "ring_rel K a s'"
        unfolding more(1) using more after pc by (intro rel_stay[OF rel]) auto
      then show ?thesis using more(1) by (simp add: ring_label_def sim_none)
    qed
  qed
qed

lemma sim_close_slot:
  assumes rel: "ring_rel K a s" and pc: "rg_pcs s i = Close_slot k p"
    and st: "ring_exec stepf bk mv i e (Close_slot k p) s = Some s'"
  shows "sim K a (ring_label i (Close_slot k p) (rg_pcs s' i)) s'"
proof -
  have q: "quiet p" "tq_role a i = Resting" "tq_last a \<noteq> None"
    using ring_relD(9)[OF rel, of i] pc by auto
  have "ring_rel K a s'"
  proof (cases "k < rg_mask s + 1")
    case True
    then have "on_slot stepf i e (slot_index s (rg_last s + k)) p (Close_slot k) (\<lambda>_. Close_slot k p)
        (Close_slot (k + 1) At_close) s = Some s'"
      using st by simp
    then show ?thesis using q(1)
    proof (cases rule: on_slot_quiet)
      case (fin sl)
      then show ?thesis unfolding fin(1) using fin q pc by (intro rel_stay[OF rel]) auto
    next
      case (more sl x)
      then show ?thesis unfolding more(1) using more q pc by (intro rel_stay[OF rel]) auto
    qed
  next
    case False
    then show ?thesis using st q by (auto intro!: rel_goto[OF rel])
  qed
  then show ?thesis by (simp add: ring_label_def sim_none)
qed

lemma sim_exec:
  assumes ok: "ring_ok n K m a" and rel: "ring_rel K a s"
    and st: "ring_exec stepf bk mv i e (rg_pcs s i) s = Some s'"
  shows "sim K a (ring_label i (rg_pcs s i) (rg_pcs s' i)) s'"
proof -
  note pr = ring_relD(9)[OF rel, of i]
  show ?thesis
  proof (cases "rg_pcs s i")
    case (Push_fetch v b)
    with pr have i: "tq_role a i = Resting" by simp
    then show ?thesis
      using st Push_fetch sim_one[OF tq_step.draw_push[OF i] rel_draw_push[OF rel i]]
      by (auto simp: ring_label_def atomic_fetch_add_def)
  next
    case (Pop_fetch b)
    with pr have i: "tq_role a i = Resting" by simp
    then show ?thesis
      using st Pop_fetch sim_one[OF tq_step.draw_pop[OF i] rel_draw_pop[OF rel i]]
      by (auto simp: ring_label_def atomic_fetch_add_def)
  next
    case Close_fetch
    with pr have i: "tq_role a i = Resting" "tq_last a = None" by simp_all
    then show ?thesis
      using st Close_fetch sim_one[OF tq_step.shut[OF i(2)] rel_shut[OF rel i]]
      by (auto simp: ring_label_def atomic_fetch_add_def)
  next
    case (Close_last c)
    with pr obtain l where "tq_role a i = Resting" "tq_last a = Some l" "c = of_nat l" by auto
    with st Close_last rel_close_store[OF rel, of i l c "rg_closed s" Close_store] show ?thesis
      by (auto simp: ring_label_def intro: sim_none)
  next
    case Close_store
    with pr obtain l where l: "tq_role a i = Resting" "tq_last a = Some l" "rg_last s = of_nat l" by auto
    have "ring_rel K a ((ring_goto s i (Close_slot 0 At_close))\<lparr>rg_last := rg_last s, rg_closed := Closed\<rparr>)"
      by (rule rel_close_store[OF rel _ l]) (use Close_store l in simp_all)
    with st Close_store show ?thesis
      by (auto simp: ring_label_def intro: sim_none)
  next
    case Close_cas
    with pr st ring_relD(6)[OF rel] rel_goto[OF rel, of i Close_fetch] show ?thesis
      by (auto simp: ring_label_def intro: sim_none)
  next
    case (Push_backoff v f t)
    with pr st show ?thesis
      by (auto simp: ring_label_def split: option.splits prod.splits intro!: sim_none rel_goto[OF rel])
  next
    case (Pop_backoff second f t)
    with pr st show ?thesis
      by (auto simp: ring_label_def split: option.splits prod.splits intro!: sim_none rel_goto[OF rel])
  qed (use pr st sim_push_slot[OF ok rel] sim_push_past[OF ok rel] sim_push_put[OF ok rel]
      sim_push_wake[OF ok rel] sim_pop_slot[OF ok rel] sim_pop_past[OF ok rel] sim_pop_get[OF ok rel]
      sim_pop_wake[OF ok rel] sim_close_slot[OF rel] in simp_all)
qed

text \<open>
  A call of an operation other than \<open>try_push\<close> and \<open>try_pop\<close> keeps the relation; a call of
  \<open>close\<close> does so if it is the first.
\<close>

lemma sim_step:
  assumes ok: "ring_ok n K m a" and rel: "ring_rel K a s" and e: "\<not> ring_try e"
    and cl: "\<And>i. e = Ring_close i \<Longrightarrow> tq_last a = None \<and> (\<forall>j. \<not> closing (rg_pcs s j))"
    and st: "ring_step stepf bk mv e s = Some s'"
  shows "sim K a (ring_label (ring_tid e) (rg_pcs s (ring_tid e)) (rg_pcs s' (ring_tid e))) s'"
proof (cases e)
  case (Ring_go i env)
  then show ?thesis using sim_exec[OF ok rel] st by simp
next
  case (Ring_close i)
  then obtain r where r: "rg_pcs s i = R_Idle r" and s': "s' = ring_goto s i Close_cas"
    using st by (cases "rg_pcs s i") (auto simp: ring_call_def)
  then have "tq_role a i = Resting" using ring_relD(9)[OF rel, of i] by simp
  then have "ring_rel K a (ring_goto s i Close_cas)"
    using cl[OF Ring_close] by (intro rel_goto[OF rel]) simp_all
  then show ?thesis using Ring_close r s' by (simp add: ring_label_def sim_none)
qed (use st e ring_relD(9)[OF rel, of "ring_tid e"] in
      \<open>auto simp: ring_call_def ring_label_def split: if_splits elim!: ring_idle.elims
        intro!: sim_none rel_goto[OF rel]\<close>)

abbreviation step_label :: "('v, 'b) ring_event \<Rightarrow> ('v, 'b) ring_state \<Rightarrow> ('v, 'b) ring_state \<Rightarrow> 'v label list" where
  "step_label e s s' \<equiv> ring_label (ring_tid e) (rg_pcs s (ring_tid e)) (rg_pcs s' (ring_tid e))"

lemma track_step:
  assumes tr: "tracks n K m ls s" and e: "ring_tid e < n" "\<not> ring_try e"
    and cl: "ring_closes e \<Longrightarrow> \<not> list_ex is_shut ls \<and> (\<forall>j. \<not> closing (rg_pcs s j))"
    and st: "ring_step stepf bk mv e s = Some s'"
    and b: "2 ^ K * (n + 2) + m' < 2 ^ 31"
      "m' = m + length (step_label e s s') \<or> \<not> list_ex is_shut (ls @ step_label e s s')"
  shows "tracks n K m' (ls @ step_label e s s') s'"
proof -
  obtain a where a: "tq_trace (2 ^ K) ls a" "ring_ok n K m a" "ring_rel K a s" "list_all (\<lambda>l. label_tid l < n) ls"
    using tr by (auto simp: tracks_def)
  note inv = ring_okD(1)[OF a(2)]
  have "tq_last a = None" if "ring_closes e"
    using cl[OF that] tq_historyD(6)[OF conjunct2[OF tq_trace_inv[OF a(1,4)]]]
    by (auto simp: list_all_iff list_ex_iff)
  then have "sim K a (step_label e s s') s'"
    using cl by (intro sim_step[OF a(2,3) e(2) _ st]) auto
  then obtain b where b': "tq_steps (2 ^ K) a (step_label e s s') b" "ring_rel K b s'"
    by (auto simp: sim_def)
  have l: "list_all (\<lambda>l. label_tid l < n) (step_label e s s')"
    using ring_label_tid[of _ "ring_tid e"] e(1) by (fastforce simp: list_all_iff)
  have tr': "tq_trace (2 ^ K) (ls @ step_label e s s') b" by (rule tq_trace_steps[OF b'(1) a(1)])
  have ls': "list_all (\<lambda>l. label_tid l < n) (ls @ step_label e s s')" using a(4) l by simp
  have inv': "tq_inv n (2 ^ K) b" by (rule tq_steps_inv[OF b'(1) inv l])
  have "in_window n (2 ^ K) m' b"
    using b(2)
  proof
    assume "m' = m + length (step_label e s s')"
    then show ?thesis using window_steps[OF b'(1) inv ring_okD(2)[OF a(2)] l] by simp
  next
    assume "\<not> list_ex is_shut (ls @ step_label e s s')"
    then have "tq_last b = None"
      using tq_historyD(6)[OF conjunct2[OF tq_trace_inv[OF tr' ls']]] by (auto simp: list_all_iff list_ex_iff)
    then show ?thesis by (simp add: in_window_def)
  qed
  then have "ring_ok n K m' b" using inv' ring_okD(3,4)[OF a(2)] b(1) by (simp add: ring_ok_def)
  with tr' b'(2) ls' show ?thesis unfolding tracks_def by blast
qed

text \<open>Before the closing, however long it takes.\<close>

lemma track_open:
  assumes "tracks n K 0 ls s" and "list_all (\<lambda>e. ring_tid e < n \<and> \<not> ring_try e \<and> \<not> ring_closes e) es"
    and "\<not> list_ex is_shut ls" and "\<forall>j. \<not> closing (rg_pcs s j)"
    and "run (ring_step stepf bk mv) es s = Some s'"
  shows "tracks n K 0 (ls @ ring_trace stepf bk mv es s) s' \<and>
    \<not> list_ex is_shut (ls @ ring_trace stepf bk mv es s) \<and> (\<forall>j. \<not> closing (rg_pcs s' j))"
  using assms
proof (induction es arbitrary: ls s)
  case (Cons e es)
  obtain t where t: "ring_step stepf bk mv e s = Some t" "run (ring_step stepf bk mv) es t = Some s'"
    using Cons.prems(5) by (auto split: option.splits)
  have ns: "\<not> list_ex is_shut (ls @ step_label e s t)"
    using Cons.prems(3,4) ring_label_shut[of "rg_pcs s (ring_tid e)"] by (auto simp: list_all_iff list_ex_iff)
  have bd: "2 ^ K * (n + 2) + 0 < (2::nat) ^ 31"
    using Cons.prems(1) ring_okD(5) unfolding tracks_def by blast
  have "tracks n K 0 (ls @ step_label e s t) t"
    using Cons.prems(2) ns by (intro track_step[OF Cons.prems(1) _ _ _ t(1) bd]) auto
  moreover have "\<forall>j. \<not> closing (rg_pcs t j)"
    using step_closing[OF t(1)] Cons.prems(2,4) by auto
  ultimately show ?case
    using Cons.IH[of "ls @ step_label e s t" t] Cons.prems(2) ns t by simp
qed simp

text \<open>After the closing, for a bounded number of steps.\<close>

lemma track_closed:
  assumes "tracks n K m ls s" and "list_all (\<lambda>e. ring_tid e < n \<and> \<not> ring_try e \<and> \<not> ring_closes e) es"
    and "run (ring_step stepf bk mv) es s = Some s'" and "2 ^ K * (n + 2) + m + length es < 2 ^ 31"
  shows "\<exists>m'. tracks n K m' (ls @ ring_trace stepf bk mv es s) s'"
  using assms
proof (induction es arbitrary: ls s m)
  case (Cons e es)
  obtain t where t: "ring_step stepf bk mv e s = Some t" "run (ring_step stepf bk mv) es t = Some s'"
    using Cons.prems(3) by (auto split: option.splits)
  have l: "length (step_label e s t) \<le> 1" by (rule ring_label_length)
  have "tracks n K (m + length (step_label e s t)) (ls @ step_label e s t) t"
    using Cons.prems(1,2,4) l by (intro track_step[OF Cons.prems(1) _ _ _ t(1)]) auto
  from Cons.IH[OF this _ t(2)] show ?case using Cons.prems(2,4) t(1) l by simp
qed auto

lemma ring_tracks:
  assumes K: "4 \<le> K" "K < 32" and ev: "list_all (\<lambda>e. ring_tid e < n \<and> \<not> ring_try e) (es1 @ es2)"
    and cl: "list_all (\<lambda>e. \<not> ring_closes e) es1" "length (filter ring_closes es2) \<le> 1"
    and b: "2 ^ K * (n + 2) + length es2 < 2 ^ 31"
    and run: "run (ring_step stepf bk mv) (es1 @ es2) (ring_init v0 last0 (2 ^ K)) = Some s"
  shows "\<exists>m. tracks n K m (ring_trace stepf bk mv (es1 @ es2) (ring_init v0 last0 (2 ^ K))) s"
proof -
  let ?s0 = "ring_init v0 last0 (2 ^ K)" and ?step = "ring_step stepf bk mv"
  have init: "tracks n K 0 [] ?s0" using K b by (intro tracks_init) simp_all
  have idle: "\<forall>j. \<not> closing (rg_pcs ?s0 j)" by (simp add: ring_init_def)
  have op: "tracks n K 0 (ring_trace stepf bk mv es ?s0) s' \<and>
      \<not> list_ex is_shut (ring_trace stepf bk mv es ?s0) \<and> (\<forall>j. \<not> closing (rg_pcs s' j))"
    if "list_all (\<lambda>e. ring_tid e < n \<and> \<not> ring_try e \<and> \<not> ring_closes e) es" "run ?step es ?s0 = Some s'" for es s'
    using track_open[OF init that(1) _ idle that(2)] by simp
  show ?thesis
  proof (cases "list_ex ring_closes es2")
    case False
    have "list_all (\<lambda>e. ring_tid e < n \<and> \<not> ring_try e \<and> \<not> ring_closes e) (es1 @ es2)"
      using ev cl(1) False by (auto simp: list_all_iff list_ex_iff)
    from op[OF this run] show ?thesis by blast
  next
    case True
    then obtain xs e ys where es2: "es2 = xs @ e # ys" "ring_closes e" "\<forall>x \<in> set xs. \<not> ring_closes x"
      using split_list_first_prop[of es2 ring_closes] by (auto simp: list_ex_iff)
    have ys: "list_all (\<lambda>e. \<not> ring_closes e) ys"
      using cl(2) es2 by (auto simp: list_all_iff filter_empty_conv)
    obtain t where t: "run ?step (es1 @ xs) ?s0 = Some t" "run ?step (e # ys) t = Some s"
      using run es2(1) by (auto simp: run_append bind_eq_Some_conv)
    obtain u where u: "?step e t = Some u" "run ?step ys u = Some s"
      using t(2) by (auto split: option.splits)
    have xs: "list_all (\<lambda>e. ring_tid e < n \<and> \<not> ring_try e \<and> \<not> ring_closes e) (es1 @ xs)"
      using ev cl(1) es2 by (auto simp: list_all_iff)
    have ys': "list_all (\<lambda>e. ring_tid e < n \<and> \<not> ring_try e \<and> \<not> ring_closes e) ys" "ring_tid e < n" "\<not> ring_try e"
      using ev ys es2(1) by (auto simp: list_all_iff)
    let ?ls = "ring_trace stepf bk mv (es1 @ xs) ?s0"
    note o = op[OF xs t(1)]
    have len: "length (step_label e t u) \<le> 1" by (rule ring_label_length)
    have "tracks n K (length (step_label e t u)) (?ls @ step_label e t u) u"
      using o ys'(2,3) b len es2(1) by (intro track_step[of n K 0 ?ls t e bk mv, OF _ _ _ _ u(1)]) auto
    from track_closed[OF this ys'(1) u(2)] b len es2(1)
    have "\<exists>m. tracks n K m ((?ls @ step_label e t u) @ ring_trace stepf bk mv ys u) s" by simp
    moreover have "ring_trace stepf bk mv (es1 @ es2) ?s0 = (?ls @ step_label e t u) @ ring_trace stepf bk mv ys u"
      using ring_trace_append[OF t(1), of "e # ys"] u(1) es2(1) by simp
    ultimately show ?thesis by simp
  qed
qed

end

end
