(* ===== verification/Evenk_Bounded_Theorems.thy ===== *)
theory Evenk_Bounded_Theorems
  imports Evenk_Bounded_Refinement
begin

text \<open>
  What the refinement gives for the users of the bounded queue, and what the code does outside
  of it: \<open>try_push\<close>, \<open>is_full\<close> and a second \<open>close\<close>.
\<close>

interpretation any_ring: ring_slots "slot_step k :: 'v slot_stepf" for k
  by (intro ring_slots.intro any_slot.slot_ops_axioms)

text \<open>
  The executions covered: a ring of \<open>2 ^ K\<close> slots, at least sixteen; threads below \<open>n\<close> that call
  \<open>wait_push\<close>, \<open>wait_pop\<close> and \<open>close\<close>, with or without back-off; \<open>close\<close> is called at most
  once, and not in the first part \<open>es1\<close>, which may be of any length; the second part is
  short enough for the signed comparison of \<open>is_past_last\<close>.
\<close>

definition ring_usage :: "nat \<Rightarrow> nat \<Rightarrow> ('v, 'b) ring_event list \<Rightarrow> ('v, 'b) ring_event list \<Rightarrow> bool" where
  "ring_usage n K es1 es2 \<longleftrightarrow>
     4 \<le> K \<and> list_all (\<lambda>e. ring_tid e < n \<and> \<not> ring_try e) (es1 @ es2) \<and>
     list_all (\<lambda>e. \<not> ring_closes e) es1 \<and> length (filter ring_closes es2) \<le> 1 \<and>
     2 ^ K * (n + 2) + length es2 < 2 ^ 31"

lemma usage_tracks:
  fixes v0 :: 'v and s :: "('v, 'b) ring_state"
  assumes u: "ring_usage n K es1 es2"
    and run: "run (ring_step (slot_step k) bk mv) (es1 @ es2) (ring_init v0 last0 (2 ^ K)) = Some s"
  shows "\<exists>m. tracks n K m (ring_trace (slot_step k) bk mv (es1 @ es2) (ring_init v0 last0 (2 ^ K))) s"
proof -
  have b: "2 ^ K * (n + 2) + length es2 < 2 ^ 31" using u by (simp add: ring_usage_def)
  have "(2::nat) ^ K \<le> 2 ^ K * (n + 2)" by simp
  then have "(2::nat) ^ K < 2 ^ 31" using b by linarith
  then have "K < 31" by (simp only: power_strict_increasing_iff)
  then show ?thesis
    using u by (intro any_ring.ring_tracks[OF _ _ _ _ _ b run]) (simp_all add: ring_usage_def)
qed

lemma usage_trace:
  fixes v0 :: 'v and s :: "('v, 'b) ring_state"
  assumes "ring_usage n K es1 es2"
    and "run (ring_step (slot_step k) bk mv) (es1 @ es2) (ring_init v0 last0 (2 ^ K)) = Some s"
  obtains a where "tq_trace (2 ^ K) (ring_trace (slot_step k) bk mv (es1 @ es2) (ring_init v0 last0 (2 ^ K))) a"
    and "ring_rel K a s" and "tq_inv n (2 ^ K) a"
    and "list_all (\<lambda>l. label_tid l < n) (ring_trace (slot_step k) bk mv (es1 @ es2) (ring_init v0 last0 (2 ^ K)))"
  using usage_tracks[OF assms] unfolding tracks_def ring_ok_def by blast






subsection \<open>An example execution\<close>

text \<open>
  Two threads on a ring of sixteen spin slots: a push, a pop, \<open>close\<close>, and then a push and a
  pop that are refused.
\<close>

definition go :: "tid \<Rightarrow> ('v, 'b) ring_event" where
  "go i = Ring_go i \<lparr>env_woken = {}, env_fail = False\<rparr>"

definition example_events :: "(nat, unit) ring_event list" where
  "example_events =
     Ring_push 0 7 None # replicate 4 (go 0) @ Ring_pop 1 None # replicate 4 (go 1) @
     Ring_close 0 # replicate 21 (go 0) @ Ring_push 1 8 None # replicate 3 (go 1) @
     Ring_pop 1 None # replicate 3 (go 1)"


abbreviation example_step :: "(nat, unit) ring_event \<Rightarrow> (nat, unit) ring_state \<Rightarrow> (nat, unit) ring_state option" where
  "example_step \<equiv> ring_step (slot_step Spin_slot) (\<lambda>b. (True, b)) id"

abbreviation example_init :: "(nat, unit) ring_state" where
  "example_init \<equiv> ring_init 0 0 (2 ^ 4)"

definition example_trace :: "nat label list" where
  "example_trace =
     [In 0 7, Res 0 (Ret St_success None), Out 1, Res 1 (Ret St_success (Some 7)), Shut 0,
      In 1 8, Res 1 (Ret St_closed None), Out 1, Res 1 (Ret St_closed None)]"

lemma example_usage: "ring_usage 2 4 [] example_events"
  by (simp add: ring_usage_def example_events_def go_def list_all_iff filter_replicate)

lemma example_runs: "run example_step ([] @ example_events) example_init \<noteq> None"
  by code_simp

lemma example_traces:
  "ring_trace (slot_step Spin_slot) (\<lambda>b. (True, b)) id ([] @ example_events) example_init = example_trace"
  by code_simp

subsection \<open>Properties\<close>



text \<open>
  C17: first in, first out.  When a \<open>wait_pop\<close> returns a value, this is the value of the
  \<open>wait_push\<close> that drew the position with the same number as the pop: the \<open>d\<close>-th draw of the
  head gets the value of the \<open>d\<close>-th draw of the tail, whichever threads made them.
\<close>

theorem bounded_queue_fifo:
  fixes v0 :: 'v and s :: "('v, 'b) ring_state"
  assumes "ring_usage n K es1 es2"
    and "run (ring_step (slot_step k) bk mv) (es1 @ es2) (ring_init v0 last0 (2 ^ K)) = Some s"
    and "ring_trace (slot_step k) bk mv (es1 @ es2) (ring_init v0 last0 (2 ^ K))
           = xs @ Res i (Ret St_success (Some v)) # ys"
  shows "\<exists>d. ticket_of_pop xs i d \<and> d < length (ins xs) \<and> ins xs ! d = v"
proof -
  obtain a where a: "tq_trace (2 ^ K) (xs @ Res i (Ret St_success (Some v)) # ys) a"
    and n: "list_all (\<lambda>l. label_tid l < n) (xs @ Res i (Ret St_success (Some v)) # ys)"
    using usage_trace[OF assms(1,2)] assms(3) by metis
  show ?thesis using n by (intro tq_success[OF a, of n]) simp
qed

theorem bounded_queue_fifo_witness:
  "\<exists>d. ticket_of_pop (take 3 example_trace) 1 d \<and> d < length (ins (take 3 example_trace)) \<and>
       ins (take 3 example_trace) ! d = 7"
proof -
  obtain s where s: "run example_step ([] @ example_events) example_init = Some s"
    using example_runs by blast
  have tr: "example_trace = take 3 example_trace @ Res 1 (Ret St_success (Some 7)) # drop 4 example_trace"
    by (simp add: example_trace_def)
  show ?thesis by (rule bounded_queue_fifo[OF example_usage s trans[OF example_traces tr]])
qed

text \<open>
  C20: closing stops the producers.  A \<open>wait_push\<close> that draws its position after \<open>close\<close> has
  moved the tail never stores its value: whenever it returns, it returns \<open>closed\<close>.
\<close>

theorem bounded_queue_push_after_close:
  fixes v0 :: 'v and s :: "('v, 'b) ring_state"
  assumes "ring_usage n K es1 es2"
    and "run (ring_step (slot_step k) bk mv) (es1 @ es2) (ring_init v0 last0 (2 ^ K)) = Some s"
    and "ring_trace (slot_step k) bk mv (es1 @ es2) (ring_init v0 last0 (2 ^ K)) = xs @ Res i r # ys"
    and "late_push xs i"
  shows "r = Ret St_closed None"
proof -
  obtain a where a: "tq_trace (2 ^ K) (xs @ Res i r # ys) a"
    and n: "list_all (\<lambda>l. label_tid l < n) (xs @ Res i r # ys)"
    using usage_trace[OF assms(1,2)] assms(3) by metis
  show ?thesis using n assms(4) by (intro tq_late_push_refused[OF a, of n]) simp_all
qed

theorem bounded_queue_push_after_close_witness:
  "example_trace ! 6 = Res 1 (Ret St_closed None) \<and> late_push (take 6 example_trace) 1"
proof -
  obtain s where s: "run example_step ([] @ example_events) example_init = Some s"
    using example_runs by blast
  have tr: "example_trace = take 6 example_trace @ Res 1 (Ret St_closed None) # drop 7 example_trace"
    by (simp add: example_trace_def)
  have late: "late_push (take 6 example_trace) 1"
    unfolding late_push_def
    by (rule exI[of _ "take 5 example_trace"], rule exI[of _ 8], rule exI[of _ "[]"]) (simp add: example_trace_def)
  show ?thesis
    using bounded_queue_push_after_close[OF example_usage s trans[OF example_traces tr] late] late
    by (simp add: example_trace_def)
qed







subsection \<open>Outside of the refinement\<close>

text \<open>The state after the events, seen through an executable test.\<close>

definition ends_with :: "((nat, unit) ring_state \<Rightarrow> bool) \<Rightarrow> (nat, unit) ring_event list \<Rightarrow> bool" where
  "ends_with P es = (case run example_step es example_init of None \<Rightarrow> False | Some s \<Rightarrow> P s)"

fun last_result :: "('v, 'b) ring_pc \<Rightarrow> 'v op_result option" where
  "last_result (R_Idle r) = r"
| "last_result _ = None"


text \<open>
  \<open>is_full\<close> is true of an empty queue with a waiting consumer.  The signed difference
  \<open>tail - head\<close> is converted to unsigned by the comparison with \<open>mask_\<close>, so that a queue
  without a single value is empty and full at once.
\<close>

theorem is_full_of_empty_queue:
  "ends_with (\<lambda>s. is_empty s \<and> is_full s) [Ring_pop 0 None, go 0]"
  by code_simp

text \<open>
  Closing twice undoes the closing for the consumers.  The arguments of the compare and
  exchange of \<open>close\<close> are swapped, so that a second call is not stopped and moves \<open>last_\<close> by
  the size of the ring: a \<open>wait_pop\<close> on the empty queue, which returns \<open>closed\<close> after one
  \<open>close\<close>, goes back to waiting after two.
\<close>

theorem second_close_moves_last:
  "ends_with (\<lambda>s. rg_last s = 0 \<and> last_result (rg_pcs s 1) = Some (Ret St_closed None))
     (Ring_close 0 # replicate 21 (go 0) @ Ring_pop 1 None # replicate 3 (go 1)) \<and>
   ends_with (\<lambda>s. rg_last s = 16 \<and> rg_pcs s 1 = Pop_slot True (new_frame 0 None) (At_wait 0))
     (Ring_close 0 # replicate 21 (go 0) @ Ring_close 0 # replicate 21 (go 0) @
      Ring_pop 1 None # replicate 3 (go 1))"
  by code_simp

end
