(* ===== verification/Evenk_Bounded_Sequential.thy ===== *)
theory Evenk_Bounded_Sequential
  imports Evenk_Bounded_Theorems
begin

text \<open>
  The bounded queue without concurrency: what its constructor accepts, and that calls made one
  after another are served without waiting, by a list of at most \<open>size\<close> values, for as many
  calls as one likes.
\<close>

subsection \<open>Construction\<close>

lemma power_of_two_test:
  "0 < (x::nat) \<Longrightarrow> x AND (x - 1) = 0 \<Longrightarrow> \<exists>k. x = 2 ^ k"
proof (induction x rule: less_induct)
  case (less x)
  show ?case
  proof (cases "even x")
    case True
    then obtain y where y: "x = 2 * y" "0 < y" using less.prems(1) by fastforce
    have "x AND (x - 1) = 2 * (y AND (y - 1))"
    proof -
      have "(2 * y - 1) div 2 = y - 1" using y(2) by simp
      then show ?thesis using y by (subst and_rec) simp
    qed
    then have "y AND (y - 1) = 0" using less.prems(2) by simp
    then obtain k where "y = 2 ^ k" using less.IH[of y] y by auto
    then show ?thesis using y(1) by (intro exI[of _ "Suc k"]) simp
  next
    case False
    then obtain y where y: "x = 2 * y + 1" by (auto elim: oddE)
    have "x AND (x - 1) = 2 * y" using y by (subst and_rec) simp
    then have "y = 0" using less.prems(2) by simp
    then show ?thesis using y by (intro exI[of _ 0]) simp
  qed
qed

lemma power_of_two_and: "(2 ^ k :: 'a::len word) AND (2 ^ k - 1) = 0"
  unfolding mask_eq_exp_minus_1[symmetric] by (intro bit_word_eqI) (auto simp: bit_and_iff bit_mask_iff bit_exp_iff)

lemma power_of_two_word:
  fixes w :: "'a::len word"
  assumes "w \<noteq> 0"
  shows "w AND (w - 1) = 0 \<longleftrightarrow> (\<exists>k. w = 2 ^ k)"
proof
  assume z: "w AND (w - 1) = 0"
  have "unat w AND (unat w - 1) = unat (w AND (w - 1))"
    using assms by (simp add: unsigned_and_eq unat_minus_one)
  then have "unat w AND (unat w - 1) = 0" using z by simp
  then obtain k where "unat w = 2 ^ k"
    using power_of_two_test[of "unat w"] assms by (auto simp: unat_gt_0)
  then have "w = of_nat (2 ^ k)" by (metis word_of_unat)
  then show "\<exists>k. w = 2 ^ k" by auto
qed (auto simp: power_of_two_and)

lemma unat_wide: "unat (ucast w :: 64 word) = unat (w :: count_t)"
proof -
  have "unat w < 2 ^ 64" using unsigned_less[of w, where 'a = nat] by simp
  then show ?thesis by (simp add: unsigned_ucast_eq take_bit_nat_eq_self_iff)
qed

text \<open>
  C34: the constructor accepts exactly the powers of two from sixteen on.  Any other size is
  answered with \<open>std::invalid_argument\<close> before memory is requested; for these the ring is
  created unless the allocation fails.
\<close>

theorem ring_ctor_sizes:
  "ring_ctor posix_memalign slot_bytes v0 last0 sz =
     (if sz < 16 then Inl (Invalid_argument ''bounded_queue size must be at least16'')
      else if \<exists>k. sz = 2 ^ k
      then (case cache_aligned_alloc posix_memalign (ucast sz * slot_bytes) of
              Inl e \<Rightarrow> Inl e
            | Inr ring \<Rightarrow> Inr (ring, ring_init v0 last0 sz))
      else Inl (Invalid_argument ''bounded_queue size must be a power of two''))"
proof (cases "sz < 16")
  case True
  then have "(ucast sz :: 64 word) < ucast min_size"
    by (simp add: word_less_nat_alt min_size_def status_defs unat_wide)
  then show ?thesis using True by (simp add: ring_ctor_def ring_create_def)
next
  case False
  then have ge: "\<not> (ucast sz :: 64 word) < ucast min_size" and nz: "sz \<noteq> 0"
    by (auto simp: word_less_nat_alt min_size_def status_defs unat_wide)
  have "(ucast sz :: 64 word) \<noteq> 0" using nz unat_wide[of sz] by (metis unat_eq_zero)
  then have "ucast (sz - 1) = (ucast sz :: 64 word) - 1"
    using nz by (simp add: word_unat_eq_iff unat_wide unat_minus_one)
  then have "(ucast sz :: 64 word) AND (ucast sz - 1) = ucast (sz AND (sz - 1))"
    by (simp add: unsigned_and_eq)
  then have "(ucast sz :: 64 word) AND (ucast sz - 1) = 0 \<longleftrightarrow> (\<exists>k. sz = 2 ^ k)"
    unfolding power_of_two_word[OF nz, symmetric] using unat_wide[of "sz AND (sz - 1)"]
    by (metis unat_eq_zero)
  then show ?thesis using False ge by (simp add: ring_ctor_def ring_create_def)
qed

subsection \<open>Calls one after another\<close>







lemma waiting_clear [simp]:
  "ticket p AND status_waiting = 0" "(ticket p OR status_valid) AND status_waiting = 0"
  by (intro bit_word_eqI; auto simp: bit_token)+

lemma ticket_of_count [simp]: "of_nat p AND ticket_mask = ticket p"
  by (simp add: ticket_def)

lemma valid_ticket [simp]: "(ticket p OR status_valid) AND ticket_mask = ticket p"
  "(ticket p OR status_valid) AND status_mask \<noteq> 0" "(ticket p OR status_valid) AND status_valid \<noteq> 0"
  "ticket p AND ticket_mask = ticket p"
  using cell_word_ticket[of p "Stored ()"] cell_word_status[of p "Stored ()"] cell_word_ticket[of p Unused]
  by simp_all










end
