(* ===== verification/Evenk_Futex_Synch.thy ===== *)
theory Evenk_Futex_Synch
  imports Evenk_Futex
begin

text \<open>
  \<^verbatim>\<open>evenk/synch.h\<close>, classes \<open>futex_lock\<close> and \<open>futex_cond_var\<close>.

  Any number of threads use one lock and one condition variable with it.  They are one state
  machine, because \<open>notify_all\<close> moves the waiters of the condition variable to the futex of
  the lock and \<open>wait\<close> takes the lock again through that futex.  The threads asleep on a futex
  are a set; the kernel's choice of the waiters to wake and to requeue, and spurious wake-ups,
  are part of the event.  A thread calls \<open>unlock\<close> and \<open>wait\<close> only while it holds the lock.
\<close>

subsection \<open>Positions, state and events\<close>

datatype 'b sync_pc =
    L_Idle
  | L_Cas 'b                  \<comment> \<open>\<open>lock\<close>: at \<open>compare_exchange_strong\<close>\<close>
  | L_Backoff 'b "32 word"    \<comment> \<open>\<open>lock\<close>: at \<open>backoff()\<close>, with \<open>value\<close>\<close>
  | L_Exchange                \<comment> \<open>\<open>lock\<close>: at \<open>exchange(2)\<close>\<close>
  | L_Wait                    \<comment> \<open>\<open>lock\<close>: at \<open>futex_wait(futex_, 2)\<close>\<close>
  | L_Asleep
  | L_Try                     \<comment> \<open>\<open>try_lock\<close>: at \<open>compare_exchange_strong\<close>\<close>
  | L_Held
  | U_Sub                     \<comment> \<open>\<open>unlock\<close>: at \<open>fetch_sub(1)\<close>\<close>
  | U_Store                   \<comment> \<open>\<open>unlock\<close>: at \<open>store(0)\<close>\<close>
  | U_Wake                    \<comment> \<open>\<open>unlock\<close>: at \<open>futex_wake(futex_, 1)\<close>\<close>
  | C_Check                   \<comment> \<open>\<open>wait\<close>: at the test of \<open>owner_\<close>\<close>
  | C_Owner                   \<comment> \<open>\<open>wait\<close>: at \<open>owner_.store\<close>\<close>
  | C_Terminate               \<comment> \<open>\<open>wait\<close>: at \<open>std::terminate()\<close>\<close>
  | C_Count                   \<comment> \<open>\<open>wait\<close>: at \<open>count_.fetch_add(1)\<close>\<close>
  | C_Load                    \<comment> \<open>\<open>wait\<close>: at \<open>futex_.load\<close>\<close>
  | C_Sub "32 word"           \<comment> \<open>\<open>wait\<close>: in \<open>owner->unlock()\<close>, with \<open>value\<close>\<close>
  | C_Store "32 word"
  | C_Wake "32 word"
  | C_Wait "32 word"          \<comment> \<open>\<open>wait\<close>: at \<open>futex_wait(futex_, value)\<close>\<close>
  | C_Asleep "32 word"
  | C_Uncount                 \<comment> \<open>\<open>wait\<close>: at \<open>count_.fetch_sub(1)\<close>\<close>
  | C_Exchange                \<comment> \<open>\<open>wait\<close>: at \<open>owner_futex.exchange(2)\<close>\<close>
  | C_Rewait                  \<comment> \<open>\<open>wait\<close>: at \<open>futex_wait(owner_futex, 2)\<close>\<close>
  | C_Reasleep
  | N_Add bool bool           \<comment> \<open>notify: at \<open>futex_.fetch_add(1)\<close>; all? with the lock held?\<close>
  | N_Load bool bool          \<comment> \<open>notify: at \<open>count_.load\<close>\<close>
  | N_Wake bool               \<comment> \<open>\<open>notify_one\<close>: at \<open>futex_wake(futex_, 1)\<close>\<close>
  | N_Owner bool              \<comment> \<open>\<open>notify_all\<close>: at \<open>owner_.load\<close>\<close>
  | N_Requeue bool            \<comment> \<open>\<open>notify_all\<close>: at \<open>futex_requeue\<close>\<close>

text \<open>The lock has the address \<open>lock_address\<close>; \<open>None\<close> is the null pointer.\<close>

definition lock_address :: "64 word" where
  "lock_address = 64"

record 'b sync_state =
  lk_futex :: "32 word"
  lk_sleepers :: "tid set"
  cv_futex :: "32 word"
  cv_count :: "32 word"
  cv_owner :: "64 word option"
  cv_sleepers :: "tid set"
  sy_pcs :: "tid \<Rightarrow> 'b sync_pc"

definition sync_init :: "'b sync_state" where
  "sync_init = \<lparr>lk_futex = 0, lk_sleepers = {}, cv_futex = 0, cv_count = 0, cv_owner = None,
                cv_sleepers = {}, sy_pcs = (\<lambda>_. L_Idle)\<rparr>"

record kernel =
  kn_woken :: "tid set"
  kn_moved :: "tid set"
  kn_spurious :: bool

datatype 'b sync_event =
    Sy_lock tid 'b
  | Sy_try_lock tid
  | Sy_unlock tid
  | Sy_wait tid
  | Sy_notify_one tid
  | Sy_notify_all tid
  | Sy_go tid kernel

fun sync_tid :: "'b sync_event \<Rightarrow> tid" where
  "sync_tid (Sy_lock i b) = i"
| "sync_tid (Sy_try_lock i) = i"
| "sync_tid (Sy_unlock i) = i"
| "sync_tid (Sy_wait i) = i"
| "sync_tid (Sy_notify_one i) = i"
| "sync_tid (Sy_notify_all i) = i"
| "sync_tid (Sy_go i k) = i"

subsection \<open>Steps\<close>

abbreviation sync_goto :: "'b sync_state \<Rightarrow> tid \<Rightarrow> 'b sync_pc \<Rightarrow> 'b sync_state" where
  "sync_goto s i p \<equiv> s\<lparr>sy_pcs := (sy_pcs s)(i := p)\<rparr>"

definition returned :: "bool \<Rightarrow> 'b sync_pc" where
  "returned held = (if held then L_Held else L_Idle)"

text \<open>\<open>futex_wait\<close> on the lock or on the condition variable, and the return from it.\<close>

definition lock_sleep :: "'b sync_state \<Rightarrow> tid \<Rightarrow> 'b sync_pc \<Rightarrow> 'b sync_pc \<Rightarrow> 'b sync_state" where
  "lock_sleep s i asleep awake =
     (if futex_blocks (lk_futex s) 2 then (sync_goto s i asleep)\<lparr>lk_sleepers := insert i (lk_sleepers s)\<rparr>
      else sync_goto s i awake)"

definition wake_up :: "'b sync_state \<Rightarrow> tid \<Rightarrow> kernel \<Rightarrow> 'b sync_pc \<Rightarrow> 'b sync_state option" where
  "wake_up s i k awake =
     (if i \<notin> lk_sleepers s \<and> i \<notin> cv_sleepers s then Some (sync_goto s i awake)
      else if kn_spurious k
      then Some ((sync_goto s i awake)\<lparr>lk_sleepers := lk_sleepers s - {i}, cv_sleepers := cv_sleepers s - {i}\<rparr>)
      else None)"

text \<open>The accesses of \<open>lock\<close>, \<open>try_lock\<close> and \<open>unlock\<close>.\<close>

definition lock_cas :: "'b sync_state \<Rightarrow> tid \<Rightarrow> (32 word \<Rightarrow> 'b sync_pc) \<Rightarrow> 'b sync_state" where
  "lock_cas s i failed =
     (if lk_futex s = 0 then (sync_goto s i L_Held)\<lparr>lk_futex := 1\<rparr> else sync_goto s i (failed (lk_futex s)))"

definition lock_exchange :: "'b sync_state \<Rightarrow> tid \<Rightarrow> 'b sync_pc \<Rightarrow> 'b sync_state" where
  "lock_exchange s i failed =
     (sync_goto s i (if lk_futex s \<noteq> 0 then failed else L_Held))\<lparr>lk_futex := 2\<rparr>"

definition unlock_sub :: "'b sync_state \<Rightarrow> tid \<Rightarrow> 'b sync_pc \<Rightarrow> 'b sync_pc \<Rightarrow> 'b sync_state" where
  "unlock_sub s i contended fin =
     (sync_goto s i (if lk_futex s \<noteq> 1 then contended else fin))\<lparr>lk_futex := lk_futex s - 1\<rparr>"

definition unlock_wake :: "'b sync_state \<Rightarrow> tid \<Rightarrow> kernel \<Rightarrow> 'b sync_pc \<Rightarrow> 'b sync_state option" where
  "unlock_wake s i k fin =
     (if futex_woken 1 (lk_sleepers s) (kn_woken k)
      then Some ((sync_goto s i fin)\<lparr>lk_sleepers := lk_sleepers s - kn_woken k\<rparr>) else None)"

fun sync_exec ::
  "('b \<Rightarrow> bool \<times> 'b) \<Rightarrow> tid \<Rightarrow> kernel \<Rightarrow> 'b sync_pc \<Rightarrow> 'b sync_state \<Rightarrow> 'b sync_state option" where
  "sync_exec bk i k L_Idle s = None"
| "sync_exec bk i k (L_Cas b) s = Some (lock_cas s i (L_Backoff b))"
| "sync_exec bk i k (L_Backoff b value) s =
     (let (go, b') = bk b in
      Some (sync_goto s i (if \<not> go then L_Cas b' else if value = 2 then L_Wait else L_Exchange)))"
| "sync_exec bk i k L_Exchange s = Some (lock_exchange s i L_Wait)"
| "sync_exec bk i k L_Wait s = Some (lock_sleep s i L_Asleep L_Exchange)"
| "sync_exec bk i k L_Asleep s = wake_up s i k L_Exchange"
| "sync_exec bk i k L_Try s = Some (lock_cas s i (\<lambda>_. L_Idle))"
| "sync_exec bk i k L_Held s = None"
| "sync_exec bk i k U_Sub s = Some (unlock_sub s i U_Store L_Idle)"
| "sync_exec bk i k U_Store s = Some ((sync_goto s i U_Wake)\<lparr>lk_futex := 0\<rparr>)"
| "sync_exec bk i k U_Wake s = unlock_wake s i k L_Idle"
| "sync_exec bk i k C_Check s =
     Some (sync_goto s i (if cv_owner s \<noteq> None \<and> cv_owner s \<noteq> Some lock_address then C_Terminate else C_Owner))"
| "sync_exec bk i k C_Owner s = Some ((sync_goto s i C_Count)\<lparr>cv_owner := Some lock_address\<rparr>)"
| "sync_exec bk i k C_Terminate s = None"
| "sync_exec bk i k C_Count s = Some ((sync_goto s i C_Load)\<lparr>cv_count := cv_count s + 1\<rparr>)"
| "sync_exec bk i k C_Load s = Some (sync_goto s i (C_Sub (cv_futex s)))"
| "sync_exec bk i k (C_Sub v) s = Some (unlock_sub s i (C_Store v) (C_Wait v))"
| "sync_exec bk i k (C_Store v) s = Some ((sync_goto s i (C_Wake v))\<lparr>lk_futex := 0\<rparr>)"
| "sync_exec bk i k (C_Wake v) s = unlock_wake s i k (C_Wait v)"
| "sync_exec bk i k (C_Wait v) s =
     (if futex_blocks (cv_futex s) v
      then Some ((sync_goto s i (C_Asleep v))\<lparr>cv_sleepers := insert i (cv_sleepers s)\<rparr>)
      else Some (sync_goto s i C_Uncount))"
| "sync_exec bk i k (C_Asleep v) s = wake_up s i k C_Uncount"
| "sync_exec bk i k C_Uncount s = Some ((sync_goto s i C_Exchange)\<lparr>cv_count := cv_count s - 1\<rparr>)"
| "sync_exec bk i k C_Exchange s = Some (lock_exchange s i C_Rewait)"
| "sync_exec bk i k C_Rewait s = Some (lock_sleep s i C_Reasleep C_Exchange)"
| "sync_exec bk i k C_Reasleep s = wake_up s i k C_Exchange"
| "sync_exec bk i k (N_Add all held) s = Some ((sync_goto s i (N_Load all held))\<lparr>cv_futex := cv_futex s + 1\<rparr>)"
| "sync_exec bk i k (N_Load all held) s =
     Some (sync_goto s i (if cv_count s = 0 then returned held else if all then N_Owner held else N_Wake held))"
| "sync_exec bk i k (N_Wake held) s =
     (if futex_woken 1 (cv_sleepers s) (kn_woken k)
      then Some ((sync_goto s i (returned held))\<lparr>cv_sleepers := cv_sleepers s - kn_woken k\<rparr>) else None)"
| "sync_exec bk i k (N_Owner held) s =
     Some (sync_goto s i (if cv_owner s = None then returned held else N_Requeue held))"
| "sync_exec bk i k (N_Requeue held) s =
     (if futex_woken 1 (cv_sleepers s) (kn_woken k) \<and>
         futex_woken INT32_MAX (cv_sleepers s - kn_woken k) (kn_moved k)
      then Some ((sync_goto s i (returned held))
                   \<lparr>cv_sleepers := cv_sleepers s - kn_woken k - kn_moved k,
                    lk_sleepers := lk_sleepers s \<union> kn_moved k\<rparr>)
      else None)"

definition sync_call :: "'b sync_state \<Rightarrow> tid \<Rightarrow> 'b sync_pc \<Rightarrow> 'b sync_pc \<Rightarrow> 'b sync_state option" where
  "sync_call s i p q = (if sy_pcs s i = p then Some (sync_goto s i q) else None)"

definition notify_call :: "'b sync_state \<Rightarrow> tid \<Rightarrow> bool \<Rightarrow> 'b sync_state option" where
  "notify_call s i all =
     (if sy_pcs s i = L_Idle then Some (sync_goto s i (N_Add all False))
      else if sy_pcs s i = L_Held then Some (sync_goto s i (N_Add all True))
      else None)"

fun sync_step :: "('b \<Rightarrow> bool \<times> 'b) \<Rightarrow> 'b sync_event \<Rightarrow> 'b sync_state \<Rightarrow> 'b sync_state option" where
  "sync_step bk (Sy_lock i b) s = sync_call s i L_Idle (L_Cas b)"
| "sync_step bk (Sy_try_lock i) s = sync_call s i L_Idle L_Try"
| "sync_step bk (Sy_unlock i) s = sync_call s i L_Held U_Sub"
| "sync_step bk (Sy_wait i) s = sync_call s i L_Held C_Check"
| "sync_step bk (Sy_notify_one i) s = notify_call s i False"
| "sync_step bk (Sy_notify_all i) s = notify_call s i True"
| "sync_step bk (Sy_go i k) s = sync_exec bk i k (sy_pcs s i) s"

subsection \<open>The invariant\<close>

fun holding :: "'b sync_pc \<Rightarrow> bool" where
  "holding L_Held = True" | "holding U_Sub = True" | "holding U_Store = True"
| "holding C_Check = True" | "holding C_Owner = True" | "holding C_Terminate = True"
| "holding C_Count = True" | "holding C_Load = True" | "holding (C_Sub v) = True" | "holding (C_Store v) = True"
| "holding (N_Add a h) = h" | "holding (N_Load a h) = h" | "holding (N_Wake h) = h"
| "holding (N_Owner h) = h" | "holding (N_Requeue h) = h"
| "holding _ = False"

text \<open>A thread that, unless asleep, will wake a sleeper of the lock or mark the lock as contended.\<close>

fun rescuing :: "'b sync_pc \<Rightarrow> bool" where
  "rescuing L_Exchange = True" | "rescuing L_Wait = True" | "rescuing L_Asleep = True"
| "rescuing U_Store = True" | "rescuing U_Wake = True"
| "rescuing (C_Store v) = True" | "rescuing (C_Wake v) = True" | "rescuing (C_Asleep v) = True"
| "rescuing C_Uncount = True" | "rescuing C_Exchange = True" | "rescuing C_Rewait = True" | "rescuing C_Reasleep = True"
| "rescuing _ = False"

text \<open>Where a thread can be asleep on the lock, on the condition variable, and is counted in \<open>count_\<close>.\<close>

fun lock_asleep :: "'b sync_pc \<Rightarrow> bool" where
  "lock_asleep L_Asleep = True" | "lock_asleep (C_Asleep v) = True" | "lock_asleep C_Reasleep = True"
| "lock_asleep _ = False"

fun cond_asleep :: "'b sync_pc \<Rightarrow> bool" where
  "cond_asleep (C_Asleep v) = True"
| "cond_asleep _ = False"

fun counted :: "'b sync_pc \<Rightarrow> bool" where
  "counted C_Load = True" | "counted (C_Sub v) = True" | "counted (C_Store v) = True" | "counted (C_Wake v) = True"
| "counted (C_Wait v) = True" | "counted (C_Asleep v) = True" | "counted C_Uncount = True"
| "counted _ = False"

lemma returned_simps [simp]:
  "holding (returned h) = h" "\<not> rescuing (returned h)" "\<not> lock_asleep (returned h)"
  "\<not> cond_asleep (returned h)" "\<not> counted (returned h)" "returned h \<noteq> C_Count" "returned h \<noteq> C_Terminate"
  by (simp_all add: returned_def)

definition sync_inv :: "nat \<Rightarrow> 'b sync_state \<Rightarrow> bool" where
  "sync_inv n s \<longleftrightarrow>
     (\<forall>i. n \<le> i \<longrightarrow> sy_pcs s i = L_Idle) \<and>
     lk_futex s \<in> {0, 1, 2} \<and>
     (lk_futex s = 0 \<longleftrightarrow> (\<forall>i. \<not> holding (sy_pcs s i))) \<and>
     (\<forall>i j. holding (sy_pcs s i) \<longrightarrow> holding (sy_pcs s j) \<longrightarrow> i = j) \<and>
     (\<forall>i \<in> lk_sleepers s. lock_asleep (sy_pcs s i)) \<and>
     (\<forall>i \<in> cv_sleepers s. cond_asleep (sy_pcs s i)) \<and>
     lk_sleepers s \<inter> cv_sleepers s = {} \<and>
     (lk_sleepers s \<noteq> {} \<longrightarrow> lk_futex s = 2 \<or>
        (\<exists>i. i \<notin> lk_sleepers s \<and> i \<notin> cv_sleepers s \<and> rescuing (sy_pcs s i))) \<and>
     cv_count s = of_nat (card {i. counted (sy_pcs s i)}) \<and>
     (cv_owner s = None \<or> cv_owner s = Some lock_address) \<and>
     (cv_owner s = None \<longrightarrow> (\<forall>i. \<not> counted (sy_pcs s i) \<and> sy_pcs s i \<noteq> C_Count)) \<and>
     (\<forall>i. sy_pcs s i \<noteq> C_Terminate)"

lemma sync_invD:
  assumes "sync_inv n s"
  shows "n \<le> i \<Longrightarrow> sy_pcs s i = L_Idle"
    and "lk_futex s = 0 \<or> lk_futex s = 1 \<or> lk_futex s = 2"
    and "lk_futex s = 0 \<longleftrightarrow> (\<forall>i. \<not> holding (sy_pcs s i))"
    and "holding (sy_pcs s i) \<Longrightarrow> holding (sy_pcs s j) \<Longrightarrow> i = j"
    and "i \<in> lk_sleepers s \<Longrightarrow> lock_asleep (sy_pcs s i)"
    and "i \<in> cv_sleepers s \<Longrightarrow> cond_asleep (sy_pcs s i)"
    and "i \<in> lk_sleepers s \<Longrightarrow> i \<notin> cv_sleepers s"
    and "lk_sleepers s \<noteq> {} \<Longrightarrow> lk_futex s = 2 \<or>
        (\<exists>i. i \<notin> lk_sleepers s \<and> i \<notin> cv_sleepers s \<and> rescuing (sy_pcs s i))"
    and "cv_count s = of_nat (card {i. counted (sy_pcs s i)})"
    and "cv_owner s = None \<or> cv_owner s = Some lock_address"
    and "counted (sy_pcs s i) \<or> sy_pcs s i = C_Count \<Longrightarrow> cv_owner s \<noteq> None"
    and "sy_pcs s i \<noteq> C_Terminate"
  using assms unfolding sync_inv_def by (blast | simp)+

lemma sync_inv_init: "sync_inv n sync_init"
  by (simp add: sync_inv_def sync_init_def)

lemma counted_finite:
  assumes "sync_inv n s"
  shows "finite {i. counted (sy_pcs s i)}" and "finite (cv_sleepers s)" and "finite (lk_sleepers s)"
    and "card (cv_sleepers s) \<le> n"
proof -
  have act: "i < n" if "sy_pcs s i \<noteq> L_Idle" for i
    using sync_invD(1)[OF assms, of i] that by linarith
  have "{i. counted (sy_pcs s i)} \<subseteq> {..<n}" using act by force
  moreover have "cv_sleepers s \<subseteq> {..<n}" "lk_sleepers s \<subseteq> {..<n}"
    using act sync_invD(5,6)[OF assms] by (metis cond_asleep.simps(2) lessThan_iff lock_asleep.simps(4) subsetI)+
  ultimately show "finite {i. counted (sy_pcs s i)}" "finite (cv_sleepers s)" "finite (lk_sleepers s)"
    "card (cv_sleepers s) \<le> n"
    using card_mono[of "{..<n}"] finite_subset[of _ "{..<n}"] by auto
qed

lemma counted_move:
  assumes "finite {j. counted (f j)}"
  shows "{j. counted ((f(i := p)) j)} = (if counted p then insert i {j. counted (f j)} else {j. counted (f j)} - {i})"
  by auto

text \<open>
  A step of thread \<open>i\<close> to position \<open>p\<close>, with the new lock word \<open>w\<close> and the new sets of
  sleepers; what is left to show for each position of the code.
\<close>

lemma sync_inv_move:
  fixes s :: "'b sync_state"
  assumes inv: "sync_inv n s" and i: "i < n"
    and w: "w = 0 \<or> w = 1 \<or> w = 2"
    and hold: "if holding p then w \<noteq> 0 \<and> (holding (sy_pcs s i) \<or> lk_futex s = 0)
               else if holding (sy_pcs s i) then w = 0 else (w = 0 \<longleftrightarrow> lk_futex s = 0)"
    and L: "\<And>j. j \<in> L \<Longrightarrow> if j = i then lock_asleep p else lock_asleep (sy_pcs s j)"
    and C: "\<And>j. j \<in> C \<Longrightarrow> if j = i then cond_asleep p else cond_asleep (sy_pcs s j)"
    and disj: "L \<inter> C = {}"
    and rescue: "L \<noteq> {} \<Longrightarrow> w = 2 \<or>
        (\<exists>j. j \<notin> L \<and> j \<notin> C \<and> (if j = i then rescuing p else rescuing (sy_pcs s j)))"
    and c: "c = (if counted p = counted (sy_pcs s i) then cv_count s
                 else if counted p then cv_count s + 1 else cv_count s - 1)"
    and own: "ow = cv_owner s \<or> ow = Some lock_address" "(counted p \<or> p = C_Count) \<Longrightarrow> ow \<noteq> None"
    and p: "p \<noteq> C_Terminate"
  shows "sync_inv n (s\<lparr>lk_futex := w, lk_sleepers := L, cv_futex := f, cv_count := c, cv_owner := ow,
           cv_sleepers := C, sy_pcs := (sy_pcs s)(i := p)\<rparr>)"
proof -
  note D = sync_invD[OF inv] and fin = counted_finite(1)[OF inv]
  have free: "holding (sy_pcs s j) \<Longrightarrow> lk_futex s \<noteq> 0" for j using D(3) by blast
  have cnt: "c = of_nat (card {j. counted (((sy_pcs s)(i := p)) j)})"
  proof -
    have "card {j. counted (sy_pcs s j)} \<noteq> 0" if "counted (sy_pcs s i)" using fin that by auto
    then have "of_nat (card {j. counted (sy_pcs s j)} - 1) = cv_count s - 1" if "counted (sy_pcs s i)"
      using that D(9) by (simp add: of_nat_diff Suc_leI)
    then show ?thesis
      unfolding c counted_move[OF fin] using D(9) fin by (simp add: insert_absorb add.commute)
  qed
  have zero: "w = 0 \<longleftrightarrow> (\<forall>j. \<not> holding (((sy_pcs s)(i := p)) j))"
  proof (cases "holding p")
    case False
    then have all: "(\<forall>j. \<not> holding (((sy_pcs s)(i := p)) j)) \<longleftrightarrow> (\<forall>j. j \<noteq> i \<longrightarrow> \<not> holding (sy_pcs s j))" by auto
    show ?thesis
    proof (cases "holding (sy_pcs s i)")
      case True
      then have "\<forall>j. j \<noteq> i \<longrightarrow> \<not> holding (sy_pcs s j)" using D(4)[of i] by blast
      then show ?thesis using hold False True all by simp
    next
      case f: False
      then have "(\<forall>j. j \<noteq> i \<longrightarrow> \<not> holding (sy_pcs s j)) \<longleftrightarrow> lk_futex s = 0" using D(3) by metis
      then show ?thesis using hold False f all by simp
    qed
  qed (use hold in auto)
  have uniq: "holding (((sy_pcs s)(i := p)) j) \<Longrightarrow> holding (((sy_pcs s)(i := p)) k) \<Longrightarrow> j = k" for j k
  proof -
    assume jk: "holding (((sy_pcs s)(i := p)) j)" "holding (((sy_pcs s)(i := p)) k)"
    have "\<not> holding (sy_pcs s m)" if "m \<noteq> i" "holding p" for m
      using hold that free[of m] D(4)[of i m] by auto
    then show "j = k" using jk D(4)[of j k] by (cases "j = i"; cases "k = i") auto
  qed
  have resc: "w = 2 \<or> (\<exists>j. j \<notin> L \<and> j \<notin> C \<and> rescuing (((sy_pcs s)(i := p)) j))" if "L \<noteq> {}"
    using rescue[OF that] by (metis fun_upd_apply)
  let ?s = "s\<lparr>lk_futex := w, lk_sleepers := L, cv_futex := f, cv_count := c, cv_owner := ow,
           cv_sleepers := C, sy_pcs := (sy_pcs s)(i := p)\<rparr>"
  have own': "ow = None \<longrightarrow> (\<forall>j. \<not> counted (((sy_pcs s)(i := p)) j) \<and> ((sy_pcs s)(i := p)) j \<noteq> C_Count)"
  proof (intro impI allI)
    fix j
    assume ow: "ow = None"
    then have "cv_owner s = None" using own(1) by auto
    then show "\<not> counted (((sy_pcs s)(i := p)) j) \<and> ((sy_pcs s)(i := p)) j \<noteq> C_Count"
      using ow own(2) D(11)[of j] by (cases "j = i") auto
  qed
  show ?thesis
    unfolding sync_inv_def
  proof (intro conjI)
    show "\<forall>i. n \<le> i \<longrightarrow> sy_pcs ?s i = L_Idle" using D(1) i by simp
    show "lk_futex ?s \<in> {0, 1, 2}" using w by simp
    show "lk_futex ?s = 0 \<longleftrightarrow> (\<forall>i. \<not> holding (sy_pcs ?s i))" using zero by simp
    show "\<forall>i j. holding (sy_pcs ?s i) \<longrightarrow> holding (sy_pcs ?s j) \<longrightarrow> i = j"
      by (simp del: fun_upd_apply) (use uniq in blast)
    show "\<forall>i \<in> lk_sleepers ?s. lock_asleep (sy_pcs ?s i)" using L by simp
    show "\<forall>i \<in> cv_sleepers ?s. cond_asleep (sy_pcs ?s i)" using C by simp
    show "lk_sleepers ?s \<inter> cv_sleepers ?s = {}" using disj by simp
    show "lk_sleepers ?s \<noteq> {} \<longrightarrow> lk_futex ?s = 2 \<or>
        (\<exists>i. i \<notin> lk_sleepers ?s \<and> i \<notin> cv_sleepers ?s \<and> rescuing (sy_pcs ?s i))" using resc by simp
    show "cv_count ?s = of_nat (card {i. counted (sy_pcs ?s i)})" using cnt by simp
    show "cv_owner ?s = None \<or> cv_owner ?s = Some lock_address" using own(1) D(10) by auto
    show "cv_owner ?s = None \<longrightarrow> (\<forall>i. \<not> counted (sy_pcs ?s i) \<and> sy_pcs ?s i \<noteq> C_Count)" using own' by simp
    show "\<forall>i. sy_pcs ?s i \<noteq> C_Terminate" using p D(12) by simp
  qed
qed

text \<open>The same in terms of the new state.\<close>

lemma sync_inv_next:
  fixes s :: "'b sync_state"
  assumes "sync_inv n s" and "i < n" and "sy_pcs s i = q" and pcs: "sy_pcs s' = (sy_pcs s)(i := p)"
    and "lk_futex s' = 0 \<or> lk_futex s' = 1 \<or> lk_futex s' = 2"
    and "if holding p then lk_futex s' \<noteq> 0 \<and> (holding q \<or> lk_futex s = 0)
         else if holding q then lk_futex s' = 0 else (lk_futex s' = 0 \<longleftrightarrow> lk_futex s = 0)"
    and "\<And>j. j \<in> lk_sleepers s' \<Longrightarrow> if j = i then lock_asleep p else lock_asleep (sy_pcs s j)"
    and "\<And>j. j \<in> cv_sleepers s' \<Longrightarrow> if j = i then cond_asleep p else cond_asleep (sy_pcs s j)"
    and "lk_sleepers s' \<inter> cv_sleepers s' = {}"
    and "lk_sleepers s' \<noteq> {} \<Longrightarrow> lk_futex s' = 2 \<or>
        (\<exists>j. j \<notin> lk_sleepers s' \<and> j \<notin> cv_sleepers s' \<and> (if j = i then rescuing p else rescuing (sy_pcs s j)))"
    and "cv_count s' = (if counted p = counted q then cv_count s
                        else if counted p then cv_count s + 1 else cv_count s - 1)"
    and "cv_owner s' = cv_owner s \<or> cv_owner s' = Some lock_address"
    and "counted p \<or> p = C_Count \<Longrightarrow> cv_owner s' \<noteq> None" and "p \<noteq> C_Terminate"
  shows "sync_inv n s'"
proof -
  have s': "s' = s\<lparr>lk_futex := lk_futex s', lk_sleepers := lk_sleepers s', cv_futex := cv_futex s',
      cv_count := cv_count s', cv_owner := cv_owner s', cv_sleepers := cv_sleepers s',
      sy_pcs := (sy_pcs s)(i := p)\<rparr>"
    using pcs by (cases s; cases s') simp
  show ?thesis
    by (subst s', rule sync_inv_move[OF assms(1,2,5) assms(6)[folded assms(3)] assms(7-10)
          assms(11)[folded assms(3)] assms(12-14)])
qed

lemma asleep_cond: "cond_asleep p \<Longrightarrow> lock_asleep p"
  by (cases p) auto

lemma asleep_rescuing: "lock_asleep p \<Longrightarrow> rescuing p"
  by (cases p) auto

text \<open>Steps that leave the sleepers alone.\<close>

lemma sync_inv_awake:
  fixes s :: "'b sync_state"
  assumes inv: "sync_inv n s" and "i < n" and q: "sy_pcs s i = q" "\<not> lock_asleep q"
    and "sy_pcs s' = (sy_pcs s)(i := p)"
    and sl: "lk_sleepers s' = lk_sleepers s" "cv_sleepers s' = cv_sleepers s"
    and "lk_futex s' = 0 \<or> lk_futex s' = 1 \<or> lk_futex s' = 2"
    and "if holding p then lk_futex s' \<noteq> 0 \<and> (holding q \<or> lk_futex s = 0)
         else if holding q then lk_futex s' = 0 else (lk_futex s' = 0 \<longleftrightarrow> lk_futex s = 0)"
    and res: "rescuing q \<or> lk_futex s = 2 \<Longrightarrow> rescuing p \<or> lk_futex s' = 2"
    and "cv_count s' = (if counted p = counted q then cv_count s
                        else if counted p then cv_count s + 1 else cv_count s - 1)"
    and "cv_owner s' = cv_owner s \<or> cv_owner s' = Some lock_address"
    and "counted p \<or> p = C_Count \<Longrightarrow> cv_owner s' \<noteq> None" and "p \<noteq> C_Terminate"
  shows "sync_inv n s'"
proof (rule sync_inv_next[OF inv assms(2) q(1) assms(5)])
  note D = sync_invD[OF inv]
  have i: "i \<notin> lk_sleepers s" "i \<notin> cv_sleepers s"
    using D(5,6)[of i] q asleep_cond[of q] by auto
  show "lk_futex s' = 2 \<or>
      (\<exists>j. j \<notin> lk_sleepers s' \<and> j \<notin> cv_sleepers s' \<and> (if j = i then rescuing p else rescuing (sy_pcs s j)))"
    if ne: "lk_sleepers s' \<noteq> {}"
  proof -
    consider "lk_futex s = 2" | j where "j \<notin> lk_sleepers s" "j \<notin> cv_sleepers s" "rescuing (sy_pcs s j)"
      using D(8) ne sl by auto
    then show ?thesis
    proof cases
      case 1
      then show ?thesis using res i sl by auto
    next
      case (2 j)
      then show ?thesis using res q(1) sl i by (cases "j = i") auto
    qed
  qed
  show "\<And>j. j \<in> lk_sleepers s' \<Longrightarrow> if j = i then lock_asleep p else lock_asleep (sy_pcs s j)"
    "\<And>j. j \<in> cv_sleepers s' \<Longrightarrow> if j = i then cond_asleep p else cond_asleep (sy_pcs s j)"
    "lk_sleepers s' \<inter> cv_sleepers s' = {}"
    using D(5-7) sl i by (auto split: if_splits)
qed (use assms in \<open>simp_all split del: if_split\<close>)

text \<open>Falling asleep and waking up.\<close>

lemma sync_inv_lock_sleep:
  assumes inv: "sync_inv n s" "i < n" and q: "sy_pcs s i = L_Wait \<and> p = L_Asleep \<or> sy_pcs s i = C_Rewait \<and> p = C_Reasleep"
    and w: "lk_futex s = 2"
  shows "sync_inv n ((sync_goto s i p)\<lparr>lk_sleepers := insert i (lk_sleepers s)\<rparr>)"
proof (rule sync_inv_next[OF inv refl, of _ p])
  note D = sync_invD[OF inv(1)]
  have "i \<notin> cv_sleepers s" using D(6)[of i] q by auto
  then show "lk_sleepers ((sync_goto s i p)\<lparr>lk_sleepers := insert i (lk_sleepers s)\<rparr>) \<inter>
      cv_sleepers ((sync_goto s i p)\<lparr>lk_sleepers := insert i (lk_sleepers s)\<rparr>) = {}"
    using D(7) by auto
  fix j
  assume "j \<in> cv_sleepers ((sync_goto s i p)\<lparr>lk_sleepers := insert i (lk_sleepers s)\<rparr>)"
  then show "if j = i then cond_asleep p else cond_asleep (sy_pcs s j)"
    using D(6)[of j] q by auto
qed (use sync_invD(5)[OF inv(1)] q w in auto)

lemma sync_inv_cond_sleep:
  assumes inv: "sync_inv n s" "i < n" and q: "sy_pcs s i = C_Wait v"
  shows "sync_inv n ((sync_goto s i (C_Asleep v))\<lparr>cv_sleepers := insert i (cv_sleepers s)\<rparr>)"
proof (rule sync_inv_next[OF inv q, of _ "C_Asleep v"])
  note D = sync_invD[OF inv(1)]
  have i: "i \<notin> lk_sleepers s" using D(5)[of i] q by auto
  let ?s = "(sync_goto s i (C_Asleep v))\<lparr>cv_sleepers := insert i (cv_sleepers s)\<rparr>"
  show "lk_sleepers ?s \<inter> cv_sleepers ?s = {}" using D(7) i by auto
  show "lk_futex ?s = 2 \<or> (\<exists>j. j \<notin> lk_sleepers ?s \<and> j \<notin> cv_sleepers ?s \<and>
      (if j = i then rescuing (C_Asleep v) else rescuing (sy_pcs s j)))" if ne: "lk_sleepers ?s \<noteq> {}"
  proof -
    consider "lk_futex s = 2" | j where "j \<notin> lk_sleepers s" "j \<notin> cv_sleepers s" "rescuing (sy_pcs s j)"
      using D(8) ne by auto
    then show ?thesis
    proof cases
      case (2 j)
      then have "j \<noteq> i" using q by auto
      then show ?thesis using 2 by auto
    qed simp
  qed
qed (use sync_invD(2,3,5,6)[OF inv(1)] sync_invD(11)[OF inv(1), of i] q in auto)

lemma sync_inv_wake_up:
  assumes inv: "sync_inv n s" "i < n" and q: "lock_asleep (sy_pcs s i)" "counted (sy_pcs s i) = counted p"
    and p: "rescuing p" "\<not> holding p" "p \<noteq> C_Count" "p \<noteq> C_Terminate"
    and st: "wake_up s i k p = Some s'"
  shows "sync_inv n s'"
proof (rule sync_inv_next[OF inv refl, of _ p])
  note D = sync_invD[OF inv(1)]
  have s': "sy_pcs s' = (sy_pcs s)(i := p)" "lk_futex s' = lk_futex s" "cv_count s' = cv_count s"
    "cv_owner s' = cv_owner s" "lk_sleepers s' = lk_sleepers s - {i}" "cv_sleepers s' = cv_sleepers s - {i}"
    using st by (auto simp: wake_up_def split: if_splits)
  have h: "\<not> holding (sy_pcs s i)" using q(1) by (cases "sy_pcs s i") auto
  show "if holding p then lk_futex s' \<noteq> 0 \<and> (holding (sy_pcs s i) \<or> lk_futex s = 0)
      else if holding (sy_pcs s i) then lk_futex s' = 0 else (lk_futex s' = 0 \<longleftrightarrow> lk_futex s = 0)"
    using h p s' by simp
  show "lk_futex s' = 2 \<or> (\<exists>j. j \<notin> lk_sleepers s' \<and> j \<notin> cv_sleepers s' \<and>
      (if j = i then rescuing p else rescuing (sy_pcs s j)))"
    using p(1) s' by auto
  show "\<And>j. j \<in> lk_sleepers s' \<Longrightarrow> if j = i then lock_asleep p else lock_asleep (sy_pcs s j)"
    "\<And>j. j \<in> cv_sleepers s' \<Longrightarrow> if j = i then cond_asleep p else cond_asleep (sy_pcs s j)"
    "lk_sleepers s' \<inter> cv_sleepers s' = {}"
    using D(5-7) s' by auto
  show "counted p \<or> p = C_Count \<Longrightarrow> cv_owner s' \<noteq> None" using D(11)[of i] q(2) p(3) s' by auto
  show "lk_futex s' = 0 \<or> lk_futex s' = 1 \<or> lk_futex s' = 2" using D(2) s' by simp
  show "sy_pcs s' = (sy_pcs s)(i := p)" "cv_owner s' = cv_owner s \<or> cv_owner s' = Some lock_address"
    "cv_count s' = (if counted p = counted (sy_pcs s i) then cv_count s
                    else if counted p then cv_count s + 1 else cv_count s - 1)"
    using s' q(2) by simp_all
qed (rule p)

lemma sync_inv_unlock_wake:
  assumes inv: "sync_inv n s" "i < n" and q: "sy_pcs s i = U_Wake \<and> p = L_Idle \<or> sy_pcs s i = C_Wake v \<and> p = C_Wait v"
    and st: "unlock_wake s i k p = Some s'"
  shows "sync_inv n s'"
proof (rule sync_inv_next[OF inv refl, of _ p])
  note D = sync_invD[OF inv(1)]
  have w: "futex_woken 1 (lk_sleepers s) (kn_woken k)"
    and s': "s' = (sync_goto s i p)\<lparr>lk_sleepers := lk_sleepers s - kn_woken k\<rparr>"
    using st by (auto simp: unlock_wake_def split: if_splits)
  have i: "i \<notin> lk_sleepers s" "i \<notin> cv_sleepers s" using D(5,6)[of i] q by auto
  show "lk_futex s' = 2 \<or> (\<exists>j. j \<notin> lk_sleepers s' \<and> j \<notin> cv_sleepers s' \<and>
      (if j = i then rescuing p else rescuing (sy_pcs s j)))" if ne: "lk_sleepers s' \<noteq> {}"
  proof -
    obtain j where j: "j \<in> kn_woken k"
      using futex_woken_some[OF w counted_finite(3)[OF inv(1)]] ne s' by fastforce
    then have "j \<in> lk_sleepers s" using futex_woken_subset[OF w] by auto
    then have "j \<noteq> i" "j \<notin> cv_sleepers s" "rescuing (sy_pcs s j)"
      using i D(5,7) by (auto intro: asleep_rescuing)
    then show ?thesis using j s' by auto
  qed
  show "\<And>j. j \<in> lk_sleepers s' \<Longrightarrow> if j = i then lock_asleep p else lock_asleep (sy_pcs s j)"
    "\<And>j. j \<in> cv_sleepers s' \<Longrightarrow> if j = i then cond_asleep p else cond_asleep (sy_pcs s j)"
    "lk_sleepers s' \<inter> cv_sleepers s' = {}" "sy_pcs s' = (sy_pcs s)(i := p)"
    using D(5-7) s' i by auto
qed (use sync_invD(2)[OF inv(1)] sync_invD(11)[OF inv(1), of i] q st in \<open>auto simp: unlock_wake_def split: if_splits\<close>)

text \<open>Notifications.\<close>

lemma sync_inv_notify:
  assumes inv: "sync_inv n s" "i < n" and q: "\<not> lock_asleep (sy_pcs s i)" "\<not> rescuing (sy_pcs s i)"
      "\<not> counted (sy_pcs s i)" "holding (sy_pcs s i) = held"
    and W: "futex_woken 1 (cv_sleepers s) W" and M: "M \<subseteq> cv_sleepers s - W"
    and s': "s' = (sync_goto s i (returned held))\<lparr>cv_sleepers := cv_sleepers s - W - M, lk_sleepers := lk_sleepers s \<union> M\<rparr>"
  shows "sync_inv n s'"
proof (rule sync_inv_next[OF inv refl, of _ "returned held"])
  note D = sync_invD[OF inv(1)]
  have WM: "W \<subseteq> cv_sleepers s" using futex_woken_subset[OF W] .
  have i: "i \<notin> lk_sleepers s" "i \<notin> cv_sleepers s" using D(5,6)[of i] q asleep_cond by blast+
  have kept: "lk_sleepers s' = lk_sleepers s \<union> M" "cv_sleepers s' = cv_sleepers s - W - M"
    "lk_futex s' = lk_futex s" using s' by simp_all
  show "lk_futex s' = 2 \<or> (\<exists>j. j \<notin> lk_sleepers s' \<and> j \<notin> cv_sleepers s' \<and>
      (if j = i then rescuing (returned held) else rescuing (sy_pcs s j)))" if ne: "lk_sleepers s' \<noteq> {}"
  proof (cases "lk_sleepers s = {}")
    case True
    then have "cv_sleepers s \<noteq> {}" using ne kept M by auto
    then obtain j where j: "j \<in> W" using futex_woken_some[OF W counted_finite(2)[OF inv(1)]] by fastforce
    then have "rescuing (sy_pcs s j)" using D(6)[of j] WM by (blast intro: asleep_cond asleep_rescuing)
    moreover have "j \<noteq> i" "j \<notin> lk_sleepers s'" "j \<notin> cv_sleepers s'" using j WM M i True kept by auto
    ultimately show ?thesis by auto
  next
    case False
    from D(8)[OF this] show ?thesis using kept M q(2) by (metis DiffD1 Un_iff subsetD)
  qed
  show "\<And>j. j \<in> lk_sleepers s' \<Longrightarrow> if j = i then lock_asleep (returned held) else lock_asleep (sy_pcs s j)"
    using D(5) asleep_cond[OF D(6)] kept M i by auto
  show "\<And>j. j \<in> cv_sleepers s' \<Longrightarrow> if j = i then cond_asleep (returned held) else cond_asleep (sy_pcs s j)"
    "lk_sleepers s' \<inter> cv_sleepers s' = {}"
    using D(6,7) kept M i by auto
  show "if holding (returned held) then lk_futex s' \<noteq> 0 \<and> (holding (sy_pcs s i) \<or> lk_futex s = 0)
      else if holding (sy_pcs s i) then lk_futex s' = 0 else (lk_futex s' = 0 \<longleftrightarrow> lk_futex s = 0)"
    using q(4) D(3) kept by auto
qed (use sync_invD(2)[OF inv(1)] q(3) s' in auto)

text \<open>The accesses of the lock.\<close>

lemma sync_inv_goto:
  assumes "sync_inv n s" "i < n" "\<not> lock_asleep (sy_pcs s i)" "holding p = holding (sy_pcs s i)"
    "counted p = counted (sy_pcs s i)" "rescuing (sy_pcs s i) \<longrightarrow> rescuing p" "p \<noteq> C_Count" "p \<noteq> C_Terminate"
  shows "sync_inv n (sync_goto s i p)"
  using assms sync_invD(2,3)[OF assms(1)] sync_invD(11)[OF assms(1), of i]
  by (intro sync_inv_awake[OF assms(1,2) refl, where p = p]) auto

lemma sync_inv_cas:
  assumes inv: "sync_inv n s" "i < n" and q: "sy_pcs s i = L_Cas b \<or> sy_pcs s i = L_Try"
    and p: "\<And>w. p w = L_Backoff b w \<or> p w = L_Idle"
  shows "sync_inv n (lock_cas s i p)"
proof (cases "lk_futex s = 0")
  case True
  then have "sync_inv n ((sync_goto s i L_Held)\<lparr>lk_futex := 1\<rparr>)"
    using q by (intro sync_inv_awake[OF inv refl, where p = L_Held]) auto
  then show ?thesis using True by (simp add: lock_cas_def)
next
  case False
  have "sync_inv n (sync_goto s i (p (lk_futex s)))"
    using q p[of "lk_futex s"] by (intro sync_inv_goto[OF inv]) auto
  then show ?thesis using False by (simp add: lock_cas_def)
qed

lemma sync_inv_exchange:
  assumes inv: "sync_inv n s" "i < n"
    and q: "sy_pcs s i = L_Exchange \<and> p = L_Wait \<or> sy_pcs s i = C_Exchange \<and> p = C_Rewait"
  shows "sync_inv n (lock_exchange s i p)"
  using q unfolding lock_exchange_def
  by (intro sync_inv_awake[OF inv refl, where p = "if lk_futex s \<noteq> 0 then p else L_Held"])
    (auto split: if_splits)

lemma sync_inv_unlock_sub:
  assumes inv: "sync_inv n s" "i < n"
    and q: "sy_pcs s i = U_Sub \<and> p = U_Store \<and> r = L_Idle \<or> sy_pcs s i = C_Sub v \<and> p = C_Store v \<and> r = C_Wait v"
  shows "sync_inv n (unlock_sub s i p r)"
proof -
  note D = sync_invD[OF inv(1)]
  have "lk_futex s \<noteq> 0" using D(3) q by (metis holding.simps(2,9))
  then have "lk_futex s = 1 \<or> lk_futex s = 2" using D(2) by auto
  then show ?thesis
    using q D(11)[of i] unfolding unlock_sub_def
    by (intro sync_inv_awake[OF inv refl, where p = "if lk_futex s \<noteq> 1 then p else r"]) auto
qed

lemma sync_inv_exec:
  assumes inv: "sync_inv n s" "i < n" and st: "sync_exec bk i k (sy_pcs s i) s = Some s'"
  shows "sync_inv n s'"
proof -
  note D = sync_invD[OF inv(1)] and A = sync_inv_awake[OF inv refl] and G = sync_inv_goto[OF inv]
  have own: "cv_owner s = Some lock_address" if "counted (sy_pcs s i) \<or> sy_pcs s i = C_Count"
    using D(10) D(11)[of i] that by auto
  have held: "lk_futex s \<noteq> 0" if "holding (sy_pcs s i)"
    using D(3) that by blast
  show ?thesis
  proof (cases "sy_pcs s i")
    case (L_Backoff b v)
    then show ?thesis using st by (auto simp: Let_def split: prod.splits if_splits intro!: G)
  next
    case U_Store
    then show ?thesis using st by (auto intro!: A[where p = U_Wake])
  next
    case (C_Store v)
    then show ?thesis using st own by (auto intro!: A[where p = "C_Wake v"])
  next
    case C_Check
    then show ?thesis using st D(10) by (auto intro!: G)
  next
    case C_Owner
    then show ?thesis using st D(2) held by (auto intro!: A[where p = C_Count])
  next
    case C_Count
    then show ?thesis using st D(2) held own by (auto intro!: A[where p = C_Load])
  next
    case C_Uncount
    then show ?thesis using st D(2) held own by (auto intro!: A[where p = C_Exchange])
  next
    case (N_Add al h)
    then show ?thesis using st D(2) held by (auto intro!: A[where p = "N_Load al h"])
  next
    case (N_Wake h)
    then show ?thesis using st
      by (intro sync_inv_notify[OF inv, where held = h and W = "kn_woken k" and M = "{}"]) (auto split: if_splits)
  next
    case (N_Requeue h)
    then show ?thesis using st futex_woken_subset[of INT32_MAX "cv_sleepers s - kn_woken k" "kn_moved k"]
      by (intro sync_inv_notify[OF inv, where held = h and W = "kn_woken k" and M = "kn_moved k"]) (auto split: if_splits)
  qed (use st D(12) in \<open>auto simp: lock_sleep_def futex_blocks_def split: if_splits
        intro!: sync_inv_cas[OF inv] sync_inv_exchange[OF inv] sync_inv_unlock_sub[OF inv] G
          sync_inv_lock_sleep[OF inv] sync_inv_cond_sleep[OF inv]
        elim!: sync_inv_unlock_wake[OF inv, rotated] sync_inv_wake_up[OF inv, rotated 6]\<close>)
qed

lemma sync_inv_call:
  assumes "sync_inv n s" and "i < n" and "sy_pcs s i = L_Idle \<or> sy_pcs s i = L_Held"
    and "holding p = holding (sy_pcs s i)" and "\<not> counted p" and "p \<noteq> C_Count" and "p \<noteq> C_Terminate"
  shows "sync_inv n (sync_goto s i p)"
  using assms by (intro sync_inv_goto) auto

lemma sync_inv_step:
  assumes "sync_tid e < n" and "sync_inv n s" and "sync_step bk e s = Some s'"
  shows "sync_inv n s'"
proof (cases e)
  case (Sy_go i k)
  then show ?thesis using assms by (auto intro: sync_inv_exec)
qed (use assms in \<open>auto simp: sync_call_def notify_call_def split: if_splits intro!: sync_inv_call\<close>)

interpretation sync_sys: mutex_system "sync_step bk" "\<lambda>e. sync_tid e < n" "sync_inv n" sync_init
  "\<lambda>s i. holding (sy_pcs s i)" for bk :: "'b \<Rightarrow> bool \<times> 'b" and n
proof
  show "sync_inv n s'" if "sync_tid e < n" "sync_inv n s" "sync_step bk e s = Some s'" for e and s s' :: "'b sync_state"
    using that by (rule sync_inv_step)
  show "sync_inv n (sync_init :: 'b sync_state)" by (rule sync_inv_init)
  show "i = j" if "sync_inv n s" "holding (sy_pcs s i)" "holding (sy_pcs s j)" for s :: "'b sync_state" and i j
    using that by (rule sync_invD(4))
qed

text \<open>The futex word of the condition variable counts the notifications.\<close>

fun notifications :: "('b \<Rightarrow> bool \<times> 'b) \<Rightarrow> 'b sync_event list \<Rightarrow> 'b sync_state \<Rightarrow> nat" where
  "notifications bk [] s = 0"
| "notifications bk (e # es) s =
     (case sync_step bk e s of
        None \<Rightarrow> 0
      | Some s' \<Rightarrow>
          (case (e, sy_pcs s (sync_tid e)) of (Sy_go i k, N_Add al h) \<Rightarrow> 1 | _ \<Rightarrow> 0) + notifications bk es s')"

lemma step_notifies:
  assumes "sync_step bk e s = Some s'"
  shows "cv_futex s' = cv_futex s +
    of_nat (case (e, sy_pcs s (sync_tid e)) of (Sy_go i k, N_Add al h) \<Rightarrow> 1 | _ \<Rightarrow> 0)"
proof (cases e)
  case (Sy_go i k)
  then show ?thesis
    using assms by (cases "sy_pcs s i")
      (auto simp: lock_cas_def lock_exchange_def lock_sleep_def unlock_sub_def unlock_wake_def wake_up_def Let_def
        split: if_splits prod.splits)
qed (use assms in \<open>auto simp: sync_call_def notify_call_def split: if_splits\<close>)

lemma run_notifies:
  assumes "run (sync_step bk) es s = Some s'"
  shows "cv_futex s' = cv_futex s + of_nat (notifications bk es s)"
  using assms
proof (induction es arbitrary: s)
  case (Cons e es)
  then obtain s1 where s1: "sync_step bk e s = Some s1" "run (sync_step bk) es s1 = Some s'"
    by (auto split: option.splits)
  show ?case using Cons.IH[OF s1(2)] step_notifies[OF s1(1)] s1(1) by (simp add: algebra_simps)
qed simp

lemma count_nonzero:
  assumes inv: "sync_inv n s" and n: "n < 2 ^ 31" and w: "counted (sy_pcs s w)"
  shows "cv_count s \<noteq> 0"
proof -
  note D = sync_invD[OF inv]
  have "{j. counted (sy_pcs s j)} \<subseteq> {..<n}"
  proof
    fix j
    assume "j \<in> {j. counted (sy_pcs s j)}"
    then show "j \<in> {..<n}" using D(1)[of j] by (cases "n \<le> j") auto
  qed
  then have "card {j. counted (sy_pcs s j)} \<le> n" using card_mono[of "{..<n}"] by auto
  moreover have "card {j. counted (sy_pcs s j)} \<noteq> 0" using w counted_finite(1)[OF inv] by auto
  ultimately show ?thesis
    using n unfolding D(9) word_of_nat_eq_0_iff by (auto dest: dvd_imp_le)
qed

lemma notify_effect:
  assumes inv: "sync_inv n s" and n: "n < 2 ^ 31" and sl: "cv_sleepers s \<noteq> {}"
    and st: "sync_step bk (Sy_go i k) s = Some s'"
  shows "(\<forall>all h. sy_pcs s i = N_Load all h \<longrightarrow> sy_pcs s' i = (if all then N_Owner h else N_Wake h)) \<and>
         (\<forall>h. sy_pcs s i = N_Owner h \<longrightarrow> sy_pcs s' i = N_Requeue h) \<and>
         (\<forall>h. sy_pcs s i = N_Wake h \<longrightarrow>
            (\<exists>j \<in> cv_sleepers s. cv_sleepers s' = cv_sleepers s - {j} \<and> lk_sleepers s' = lk_sleepers s)) \<and>
         (\<forall>h. sy_pcs s i = N_Requeue h \<longrightarrow>
            (\<exists>j \<in> cv_sleepers s. cv_sleepers s' = {} \<and> lk_sleepers s' = lk_sleepers s \<union> (cv_sleepers s - {j})))"
proof -
  note D = sync_invD[OF inv] and fin = counted_finite[OF inv]
  obtain w where "w \<in> cv_sleepers s" using sl by blast
  then have w: "counted (sy_pcs s w)" using D(6)[of w] by (cases "sy_pcs s w") auto
  have count: "cv_count s \<noteq> 0" by (rule count_nonzero[OF inv n w])
  have owner: "cv_owner s \<noteq> None" using D(11)[of w] w by blast
  have one: "\<exists>j \<in> cv_sleepers s. W = {j}" if "futex_woken 1 (cv_sleepers s) W" for W
  proof -
    have "card (cv_sleepers s) \<noteq> 0" using sl fin(2) by simp
    then have "card W = 1" using that by (simp add: futex_woken_def)
    then show ?thesis using that by (auto simp: futex_woken_def card_1_singleton_iff)
  qed
  have all: "M = cv_sleepers s - W" if "futex_woken INT32_MAX (cv_sleepers s - W) M" for W M
  proof (rule futex_woken_all[OF that])
    have "card (cv_sleepers s - W) \<le> n" using fin(2,4) card_mono[of "cv_sleepers s" "cv_sleepers s - W"] by auto
    then show "card (cv_sleepers s - W) \<le> INT32_MAX" using n by (simp add: INT32_MAX_def)
  qed (use fin in auto)
  have wk: "\<exists>j \<in> cv_sleepers s. cv_sleepers s' = cv_sleepers s - {j} \<and> lk_sleepers s' = lk_sleepers s"
    if "sy_pcs s i = N_Wake h" for h
    using st that one[of "kn_woken k"] by (auto split: if_splits)
  have rq: "\<exists>j \<in> cv_sleepers s. cv_sleepers s' = {} \<and> lk_sleepers s' = lk_sleepers s \<union> (cv_sleepers s - {j})"
    if "sy_pcs s i = N_Requeue h" for h
    using st that one[of "kn_woken k"] all[of "kn_woken k" "kn_moved k"] by (auto split: if_splits)
  show ?thesis using st count owner wk rq by auto
qed

subsection \<open>Properties\<close>

text \<open>An example with two threads and a back-off that gives up at once, as \<open>no_backoff\<close>.\<close>

definition quiet_kernel :: kernel where
  "quiet_kernel = \<lparr>kn_woken = {}, kn_moved = {}, kn_spurious = False\<rparr>"

definition contention :: "unit sync_event list" where
  "contention = Sy_lock 0 () # Sy_go 0 quiet_kernel # Sy_lock 1 () # replicate 4 (Sy_go 1 quiet_kernel)"

text \<open>Thread 1 waits on the condition variable, thread 0 notifies.\<close>

definition waiting_for :: "bool \<Rightarrow> unit sync_event list" where
  "waiting_for all =
     Sy_lock 1 () # Sy_go 1 quiet_kernel # Sy_wait 1 # replicate 6 (Sy_go 1 quiet_kernel) @
     [if all then Sy_notify_all 0 else Sy_notify_one 0, Sy_go 0 quiet_kernel, Sy_go 0 quiet_kernel]"

abbreviation sync_example :: "unit sync_event \<Rightarrow> unit sync_state \<Rightarrow> unit sync_state option" where
  "sync_example \<equiv> sync_step (\<lambda>b. (True, b))"

text \<open>
  C12: mutual exclusion of the futex lock.  At most one thread holds it, in every interleaving of
  \<open>lock\<close> with any back-off, \<open>try_lock\<close>, \<open>unlock\<close>, and of the waits and notifications of a
  condition variable that release and take the lock on their own.
\<close>

theorem futex_lock_mutual_exclusion:
  assumes "list_all (\<lambda>e. sync_tid e < n) es" and "run (sync_step bk) es sync_init = Some s"
    and "holding (sy_pcs s i)" and "holding (sy_pcs s j)"
  shows "i = j"
  using assms by (rule sync_sys.mutual_exclusion)

theorem futex_lock_mutual_exclusion_witness:
  "\<exists>s. run sync_example contention sync_init = Some s \<and> holding (sy_pcs s 0) \<and> \<not> holding (sy_pcs s 1)"
proof -
  have "case run sync_example contention sync_init of None \<Rightarrow> False
        | Some s \<Rightarrow> holding (sy_pcs s 0)" by code_simp
  then obtain s where s: "run sync_example contention sync_init = Some s" "holding (sy_pcs s 0)"
    by (auto split: option.splits)
  have n: "list_all (\<lambda>e. sync_tid e < 2) contention" by code_simp
  show ?thesis using futex_lock_mutual_exclusion[OF n s(1) s(2), of 1] s by auto
qed

text \<open>
  C3: no lost wake-up on the futex lock.  While a thread sleeps on the futex of the lock, some
  thread is awake that holds the lock with the word 2, so that its unlock wakes a sleeper, or
  that is about to wake one or to write 2 itself.  This includes the threads that
  \<open>notify_all\<close> has moved there.
\<close>

theorem futex_lock_no_lost_wakeup:
  assumes "list_all (\<lambda>e. sync_tid e < n) es" and "run (sync_step bk) es sync_init = Some s"
    and "i \<in> lk_sleepers s"
  shows "\<exists>j. j \<notin> lk_sleepers s \<and> j \<notin> cv_sleepers s \<and>
             (holding (sy_pcs s j) \<and> lk_futex s = 2 \<or> rescuing (sy_pcs s j))"
proof -
  have inv: "sync_inv n s" by (rule sync_sys.run_inv[OF assms(1) sync_inv_init assms(2)])
  note D = sync_invD[OF inv]
  consider "lk_futex s = 2" | j where "j \<notin> lk_sleepers s" "j \<notin> cv_sleepers s" "rescuing (sy_pcs s j)"
    using D(8) assms(3) by auto
  then show ?thesis
  proof cases
    case 1
    then obtain j where j: "holding (sy_pcs s j)" using D(3) by auto
    have "\<not> lock_asleep p" if "holding p" for p :: "'a sync_pc" using that by (cases p) auto
    then have "j \<notin> lk_sleepers s" "j \<notin> cv_sleepers s" using j D(5,6) asleep_cond by blast+
    then show ?thesis using 1 j by blast
  qed blast
qed

theorem futex_lock_no_lost_wakeup_witness:
  "\<exists>s j. run sync_example contention sync_init = Some s \<and> j \<notin> lk_sleepers s \<and> j \<notin> cv_sleepers s \<and>
         (holding (sy_pcs s j) \<and> lk_futex s = 2 \<or> rescuing (sy_pcs s j))"
proof -
  have "case run sync_example contention sync_init of None \<Rightarrow> False | Some s \<Rightarrow> 1 \<in> lk_sleepers s"
    by code_simp
  then obtain s where s: "run sync_example contention sync_init = Some s" "1 \<in> lk_sleepers s"
    by (auto split: option.splits)
  have n: "list_all (\<lambda>e. sync_tid e < 2) contention" by code_simp
  show ?thesis using futex_lock_no_lost_wakeup[OF n s] s by blast
qed

text \<open>
  C27: notifications reach the waiters.  If some thread is asleep on the condition variable,
  \<open>notify_one\<close> and \<open>notify_all\<close> find \<open>count_\<close> non-zero, and \<open>notify_all\<close> the lock to move the
  waiters to; \<open>notify_one\<close> then wakes exactly one of them, and \<open>notify_all\<close> wakes one, moves
  all others to the lock and leaves nobody behind.
\<close>

theorem cond_var_notify:
  assumes "list_all (\<lambda>e. sync_tid e < n) es" and "run (sync_step bk) es sync_init = Some s"
    and "n < 2 ^ 31" and "cv_sleepers s \<noteq> {}" and "sync_step bk (Sy_go i k) s = Some s'"
  shows "(\<forall>all h. sy_pcs s i = N_Load all h \<longrightarrow> sy_pcs s' i = (if all then N_Owner h else N_Wake h)) \<and>
         (\<forall>h. sy_pcs s i = N_Owner h \<longrightarrow> sy_pcs s' i = N_Requeue h) \<and>
         (\<forall>h. sy_pcs s i = N_Wake h \<longrightarrow>
            (\<exists>j \<in> cv_sleepers s. cv_sleepers s' = cv_sleepers s - {j} \<and> lk_sleepers s' = lk_sleepers s)) \<and>
         (\<forall>h. sy_pcs s i = N_Requeue h \<longrightarrow>
            (\<exists>j \<in> cv_sleepers s. cv_sleepers s' = {} \<and> lk_sleepers s' = lk_sleepers s \<union> (cv_sleepers s - {j})))"
  using notify_effect[OF sync_sys.run_inv[OF assms(1) sync_inv_init assms(2)] assms(3-5)] .

theorem cond_var_notify_witness:
  "(\<exists>s s'. run sync_example (waiting_for True) sync_init = Some s \<and> sync_example (Sy_go 0 quiet_kernel) s = Some s' \<and>
      cv_sleepers s \<noteq> {} \<and> sy_pcs s 0 = N_Owner False \<and> sy_pcs s' 0 = N_Requeue False)"
proof -
  have "case run sync_example (waiting_for True) sync_init of None \<Rightarrow> False
        | Some s \<Rightarrow> 1 \<in> cv_sleepers s \<and> sy_pcs s 0 = N_Owner False \<and> sync_example (Sy_go 0 quiet_kernel) s \<noteq> None"
    by code_simp
  then obtain s s' where s: "run sync_example (waiting_for True) sync_init = Some s" "cv_sleepers s \<noteq> {}"
      "sync_example (Sy_go 0 quiet_kernel) s = Some s'" "sy_pcs s 0 = N_Owner False"
    by (auto split: option.splits)
  have n: "list_all (\<lambda>e. sync_tid e < 2) (waiting_for True)" by code_simp
  show ?thesis using cond_var_notify[OF n s(1) _ s(2,3)] s by fastforce
qed

text \<open>
  C26: a waiter does not miss a notification.  Between the moment \<open>wait\<close> reads the futex word,
  still holding the lock, and its \<open>futex_wait\<close>, the thread blocks exactly if no notification has
  been made, provided there were fewer than \<open>2 ^ 32\<close>.
\<close>

theorem cond_var_no_missed_notification:
  assumes "sy_pcs s i = C_Load" and "sync_step bk (Sy_go i k) s = Some s1"
    and "run (sync_step bk) es s1 = Some s2" and "sy_pcs s2 i = C_Wait (cv_futex s)"
    and "notifications bk es s1 < 2 ^ 32"
  shows "sync_step bk (Sy_go i k') s2 =
     Some (if notifications bk es s1 = 0
           then (sync_goto s2 i (C_Asleep (cv_futex s)))\<lparr>cv_sleepers := insert i (cv_sleepers s2)\<rparr>
           else sync_goto s2 i C_Uncount)"
proof -
  have "cv_futex s1 = cv_futex s" using assms(1,2) by auto
  then have f: "cv_futex s2 = cv_futex s + of_nat (notifications bk es s1)"
    using run_notifies[OF assms(3)] by simp
  have "(of_nat (notifications bk es s1) :: 32 word) = 0 \<longleftrightarrow> notifications bk es s1 = 0"
    using assms(5) of_nat_eq_window[of 0 "notifications bk es s1", where 'a = 32] by auto
  then show ?thesis using assms(4) f by (simp add: futex_blocks_def)
qed

theorem cond_var_no_missed_notification_witness:
  "\<exists>s1 s2. run sync_example (take 7 (waiting_for False)) sync_init = Some s1 \<and>
     run sync_example [Sy_go 1 quiet_kernel, Sy_notify_one 0, Sy_go 0 quiet_kernel] s1 = Some s2 \<and>
     sync_example (Sy_go 1 quiet_kernel) s2 = Some (sync_goto s2 1 C_Uncount)"
proof -
  let ?es = "[Sy_go 1 quiet_kernel, Sy_notify_one 0, Sy_go 0 quiet_kernel]"
  have "case run sync_example (take 6 (waiting_for False)) sync_init of None \<Rightarrow> False | Some s \<Rightarrow>
          sy_pcs s 1 = C_Load \<and> cv_futex s = 0 \<and>
          (case sync_example (Sy_go 1 quiet_kernel) s of None \<Rightarrow> False | Some s1 \<Rightarrow>
             run sync_example (take 7 (waiting_for False)) sync_init \<noteq> None \<and>
             notifications (\<lambda>b. (True, b)) ?es s1 = 1 \<and>
             (case run sync_example ?es s1 of None \<Rightarrow> False | Some s2 \<Rightarrow> sy_pcs s2 1 = C_Wait 0))"
    by code_simp
  then obtain s s1 s2 where s: "run sync_example (take 6 (waiting_for False)) sync_init = Some s"
      "sy_pcs s 1 = C_Load" "cv_futex s = 0" "sync_example (Sy_go 1 quiet_kernel) s = Some s1"
      "notifications (\<lambda>b. (True, b)) ?es s1 = 1" "run sync_example ?es s1 = Some s2" "sy_pcs s2 1 = C_Wait 0"
    by (auto split: option.splits)
  have "take 7 (waiting_for False) = take 6 (waiting_for False) @ [Sy_go 1 quiet_kernel]" by code_simp
  then have "run sync_example (take 7 (waiting_for False)) sync_init = Some s1"
    using s(1,4) by (simp add: run_append)
  then show ?thesis
    using cond_var_no_missed_notification[OF s(2,4,6), of quiet_kernel] s by auto
qed

end
