(* ===== verification/Evenk_Synch_Queue.thy ===== *)
theory Evenk_Synch_Queue
  imports Evenk_Futex_Synch Evenk_Conqueue
begin

text \<open>
  \<^verbatim>\<open>evenk/synch_queue.h\<close>: an unbounded queue under a lock, with a condition variable for the
  consumers, on top of \<open>futex_synch\<close>, the default.

  A thread of the queue drives its thread of the machine of \<open>futex_lock\<close> and
  \<open>futex_cond_var\<close>: the positions of the queue say what the thread does with the lock, and
  while it is inside \<open>lock\<close>, \<open>unlock\<close>, \<open>wait\<close> or a notification its steps are those of that
  machine.  The accesses to \<open>closed_\<close> and \<open>queue_\<close> are steps of their own, so that nothing but
  the lock keeps other threads out between them.

  \<open>queue_.push_back\<close> and the assignment of the front value may throw (\<open>fail\<close> in the event);
  the queue is then left as it was.  \<open>front()\<close> and \<open>pop_front()\<close> of an empty sequence are
  undefined; there the model is stuck, and it is shown that this is not reached.
\<close>

datatype 'v sq_op =
    Op_push 'v        \<comment> \<open>\<open>wait_push\<close>, \<open>try_push\<close>\<close>
  | Op_pop            \<comment> \<open>\<open>wait_pop\<close>\<close>
  | Op_try_pop
  | Op_nb_push 'v     \<comment> \<open>\<open>nonblocking_push\<close>\<close>
  | Op_nb_pop
  | Op_close
  | Op_is_closed
  | Op_is_empty

datatype 'v sq_result = SR_status queue_op_status "'v option" | SR_bool bool | SR_done | SR_threw

datatype 'v sq_pc =
    SQ_Idle "'v sq_result option"
  | SQ_Lock "'v sq_op"               \<comment> \<open>in the constructor of the guard\<close>
  | SQ_Body "'v sq_op"               \<comment> \<open>at the first access under the lock\<close>
  | SQ_Push 'v                       \<comment> \<open>\<open>locked_push\<close>: at \<open>push_back\<close>\<close>
  | SQ_Closed "'v sq_op"             \<comment> \<open>\<open>locked_pop\<close>: at the test of \<open>closed_\<close>\<close>
  | SQ_Front "'v sq_op"              \<comment> \<open>\<open>locked_pop\<close>: at \<open>front()\<close>\<close>
  | SQ_Pop "'v sq_op" 'v             \<comment> \<open>\<open>locked_pop\<close>: at \<open>pop_front()\<close>, with the value\<close>
  | SQ_Notify bool "'v sq_result"    \<comment> \<open>in \<open>notify_one\<close> or \<open>notify_all\<close>\<close>
  | SQ_Wait                          \<comment> \<open>\<open>wait_pop\<close>: in \<open>cond_.wait\<close>\<close>
  | SQ_Done "'v sq_result"           \<comment> \<open>at the destructor of the guard\<close>
  | SQ_Unlock "'v sq_result"         \<comment> \<open>in the destructor of the guard\<close>

record ('v, 'b) sq_state =
  sq_sync :: "'b sync_state"
  sq_closed :: bool
  sq_queue :: "'v list"
  sq_pcs :: "tid \<Rightarrow> 'v sq_pc"

definition sq_init :: "('v, 'b) sq_state" where
  "sq_init = \<lparr>sq_sync = sync_init, sq_closed = False, sq_queue = [], sq_pcs = (\<lambda>_. SQ_Idle None)\<rparr>"

text \<open>The move constructor takes the values and the closed flag of the other queue.\<close>

definition sq_move :: "bool \<times> 'v list \<Rightarrow> (bool \<times> 'v list) \<times> (bool \<times> 'v list)" where
  "sq_move other = ((fst other, snd other), (fst other, []))"

definition sq_is_full :: "('v, 'b) sq_state \<Rightarrow> bool" where
  "sq_is_full s = False"

definition sq_push_basic :: "queue_op_status \<Rightarrow> queue_op_status + unit" where
  "sq_push_basic status = (if status \<noteq> St_success then Inl status else Inr ())"

definition sq_value_pop :: "queue_op_status \<Rightarrow> 'v \<Rightarrow> queue_op_status + 'v" where
  "sq_value_pop status value = (if status \<noteq> St_success then Inl status else Inr value)"

datatype ('v, 'b) sq_event =
    Sq_call tid "'v sq_op" 'b
  | Sq_go tid kernel bool    \<comment> \<open>the next step; whether an operation on a value throws\<close>

fun sq_tid :: "('v, 'b) sq_event \<Rightarrow> tid" where
  "sq_tid (Sq_call i op b) = i"
| "sq_tid (Sq_go i k fail) = i"

text \<open>The guard locks; for the non-blocking operations it only tries to.\<close>

fun guard_event :: "tid \<Rightarrow> 'v sq_op \<Rightarrow> 'b \<Rightarrow> 'b sync_event" where
  "guard_event i (Op_nb_push v) b = Sy_try_lock i"
| "guard_event i Op_nb_pop b = Sy_try_lock i"
| "guard_event i _ b = Sy_lock i b"

text \<open>A step of the thread in the lock or the condition variable; \<open>nxt\<close> is where that leaves it.\<close>

definition sync_part ::
  "('b \<Rightarrow> bool \<times> 'b) \<Rightarrow> ('v, 'b) sq_state \<Rightarrow> tid \<Rightarrow> 'b sync_event \<Rightarrow> ('b sync_pc \<Rightarrow> 'v sq_pc) \<Rightarrow>
   ('v, 'b) sq_state option" where
  "sync_part bk s i e nxt =
     (case sync_step bk e (sq_sync s) of
        None \<Rightarrow> None
      | Some t \<Rightarrow> Some (s\<lparr>sq_sync := t, sq_pcs := (sq_pcs s)(i := nxt (sy_pcs t i))\<rparr>))"

abbreviation sq_goto :: "('v, 'b) sq_state \<Rightarrow> tid \<Rightarrow> 'v sq_pc \<Rightarrow> ('v, 'b) sq_state" where
  "sq_goto s i p \<equiv> s\<lparr>sq_pcs := (sq_pcs s)(i := p)\<rparr>"

text \<open>The first access of each operation under the lock.\<close>

fun sq_body :: "('v, 'b) sq_state \<Rightarrow> 'v sq_op \<Rightarrow> 'v sq_pc" where
  "sq_body s (Op_push v) = (if sq_closed s then SQ_Done (SR_status St_closed None) else SQ_Push v)"
| "sq_body s (Op_nb_push v) = (if sq_closed s then SQ_Done (SR_status St_closed None) else SQ_Push v)"
| "sq_body s Op_is_closed = SQ_Done (SR_bool (sq_closed s))"
| "sq_body s Op_is_empty = SQ_Done (SR_bool (sq_queue s = []))"
| "sq_body s op = (if sq_queue s = [] then SQ_Closed op else SQ_Front op)"

fun sq_exec ::
  "('b \<Rightarrow> bool \<times> 'b) \<Rightarrow> tid \<Rightarrow> kernel \<Rightarrow> bool \<Rightarrow> 'v sq_pc \<Rightarrow> ('v, 'b) sq_state \<Rightarrow> ('v, 'b) sq_state option" where
  "sq_exec bk i k fail (SQ_Idle r) s = None"
| "sq_exec bk i k fail (SQ_Lock op) s =
     sync_part bk s i (Sy_go i k)
       (\<lambda>q. if q = L_Held then SQ_Body op
            else if q = L_Idle then SQ_Idle (Some (SR_status St_busy None)) else SQ_Lock op)"
| "sq_exec bk i k fail (SQ_Body op) s =
     (if op = Op_close then sync_part bk (s\<lparr>sq_closed := True\<rparr>) i (Sy_notify_all i) (\<lambda>_. SQ_Notify True SR_done)
      else Some (sq_goto s i (sq_body s op)))"
| "sq_exec bk i k fail (SQ_Push v) s =
     (if fail then Some (sq_goto s i (SQ_Done SR_threw))
      else sync_part bk (s\<lparr>sq_queue := sq_queue s @ [v]\<rparr>) i (Sy_notify_one i)
             (\<lambda>_. SQ_Notify False (SR_status St_success None)))"
| "sq_exec bk i k fail (SQ_Closed op) s =
     (if sq_closed s then Some (sq_goto s i (SQ_Done (SR_status St_closed None)))
      else if op = Op_pop then sync_part bk s i (Sy_wait i) (\<lambda>_. SQ_Wait)
      else Some (sq_goto s i (SQ_Done (SR_status St_empty None))))"
| "sq_exec bk i k fail (SQ_Front op) s =
     (case sq_queue s of
        [] \<Rightarrow> None
      | v # q \<Rightarrow> Some (sq_goto s i (if fail then SQ_Done SR_threw else SQ_Pop op v)))"
| "sq_exec bk i k fail (SQ_Pop op v) s =
     (case sq_queue s of
        [] \<Rightarrow> None
      | _ # q \<Rightarrow> Some ((sq_goto s i (SQ_Done (SR_status St_success (Some v))))\<lparr>sq_queue := q\<rparr>))"
| "sq_exec bk i k fail (SQ_Notify al r) s =
     sync_part bk s i (Sy_go i k) (\<lambda>q. if q = L_Held then SQ_Done r else SQ_Notify al r)"
| "sq_exec bk i k fail SQ_Wait s =
     sync_part bk s i (Sy_go i k) (\<lambda>q. if q = L_Held then SQ_Body Op_pop else SQ_Wait)"
| "sq_exec bk i k fail (SQ_Done r) s = sync_part bk s i (Sy_unlock i) (\<lambda>_. SQ_Unlock r)"
| "sq_exec bk i k fail (SQ_Unlock r) s =
     sync_part bk s i (Sy_go i k) (\<lambda>q. if q = L_Idle then SQ_Idle (Some r) else SQ_Unlock r)"

fun sq_idle :: "'v sq_pc \<Rightarrow> bool" where
  "sq_idle (SQ_Idle r) = True"
| "sq_idle _ = False"

fun sq_step :: "('b \<Rightarrow> bool \<times> 'b) \<Rightarrow> ('v, 'b) sq_event \<Rightarrow> ('v, 'b) sq_state \<Rightarrow> ('v, 'b) sq_state option" where
  "sq_step bk (Sq_call i op b) s =
     (if sq_idle (sq_pcs s i) then sync_part bk s i (guard_event i op b) (\<lambda>_. SQ_Lock op) else None)"
| "sq_step bk (Sq_go i k fail) s = sq_exec bk i k fail (sq_pcs s i) s"

end
