(* ===== verification/Evenk_Synch_Queue_Safety.thy ===== *)
theory Evenk_Synch_Queue_Safety
  imports Evenk_Synch_Queue
begin

text \<open>
  What the lock gives the synchronised queue: between two accesses of a thread to the queue
  under the lock nothing changes, so the operations take effect one after another, as on a
  list.
\<close>

subsection \<open>The phases of a thread in the lock and the condition variable\<close>

datatype sync_phase = P_out | P_lock | P_held | P_unlock | P_enter | P_sleep | P_notify bool bool bool

text \<open>\<open>P_notify all held added\<close>: a notification, with the lock held or not, before or after \<open>fetch_add\<close>.\<close>

fun phase :: "'b sync_pc \<Rightarrow> sync_phase" where
  "phase L_Idle = P_out"
| "phase (L_Cas b) = P_lock" | "phase (L_Backoff b v) = P_lock" | "phase L_Exchange = P_lock"
| "phase L_Wait = P_lock" | "phase L_Asleep = P_lock" | "phase L_Try = P_lock"
| "phase L_Held = P_held"
| "phase U_Sub = P_unlock" | "phase U_Store = P_unlock" | "phase U_Wake = P_unlock"
| "phase C_Check = P_enter" | "phase C_Owner = P_enter" | "phase C_Terminate = P_enter"
| "phase C_Count = P_enter" | "phase C_Load = P_enter"
| "phase (C_Sub v) = P_sleep" | "phase (C_Store v) = P_sleep" | "phase (C_Wake v) = P_sleep"
| "phase (C_Wait v) = P_sleep" | "phase (C_Asleep v) = P_sleep" | "phase C_Uncount = P_sleep"
| "phase C_Exchange = P_sleep" | "phase C_Rewait = P_sleep" | "phase C_Reasleep = P_sleep"
| "phase (N_Add al h) = P_notify al h False" | "phase (N_Load al h) = P_notify al h True"
| "phase (N_Wake h) = P_notify False h True" | "phase (N_Owner h) = P_notify True h True"
| "phase (N_Requeue h) = P_notify True h True"

lemma phase_eq [simp]: "phase p = P_held \<longleftrightarrow> p = L_Held" "phase p = P_out \<longleftrightarrow> p = L_Idle"
  by (cases p; simp)+

lemma phase_returned [simp]: "phase (returned h) = (if h then P_held else P_out)"
  by (simp add: returned_def)

fun phase_holds :: "sync_phase \<Rightarrow> bool" where
  "phase_holds P_held = True" | "phase_holds P_enter = True" | "phase_holds (P_notify al h x) = h"
| "phase_holds _ = False"

lemma phase_holding: "phase_holds (phase p) \<Longrightarrow> holding p"
  by (cases p) auto

text \<open>Where a step of the thread can lead.\<close>

fun phase_next :: "sync_phase \<Rightarrow> sync_phase \<Rightarrow> bool" where
  "phase_next P_lock q \<longleftrightarrow> q = P_lock \<or> q = P_held \<or> q = P_out"
| "phase_next P_unlock q \<longleftrightarrow> q = P_unlock \<or> q = P_out"
| "phase_next P_enter q \<longleftrightarrow> q = P_enter \<or> q = P_sleep"
| "phase_next P_sleep q \<longleftrightarrow> q = P_sleep \<or> q = P_held"
| "phase_next (P_notify al h x) q \<longleftrightarrow> q = P_notify al h True \<or> q = (if h then P_held else P_out)"
| "phase_next P_out q \<longleftrightarrow> False"
| "phase_next P_held q \<longleftrightarrow> False"

lemmas sync_ops_defs = lock_cas_def lock_exchange_def lock_sleep_def unlock_sub_def unlock_wake_def
  wake_up_def sync_call_def notify_call_def

lemma exec_phase:
  assumes "sync_exec bk i k (sy_pcs s i) s = Some t"
  shows "phase_next (phase (sy_pcs s i)) (phase (sy_pcs t i))"
  using assms by (cases "sy_pcs s i") (auto simp: sync_ops_defs Let_def returned_def split: if_splits prod.splits)

lemma step_others:
  assumes "sync_step bk e s = Some t" and "j \<noteq> sync_tid e"
  shows "sy_pcs t j = sy_pcs s j"
proof (cases e)
  case (Sy_go i k)
  then show ?thesis
    using assms by (cases "sy_pcs s i") (auto simp: sync_ops_defs Let_def split: if_splits prod.splits)
qed (use assms in \<open>auto simp: sync_ops_defs split: if_splits\<close>)

subsection \<open>The invariant\<close>

fun linked :: "'v sq_pc \<Rightarrow> sync_phase \<Rightarrow> bool" where
  "linked (SQ_Idle r) q \<longleftrightarrow> q = P_out"
| "linked (SQ_Lock op) q \<longleftrightarrow> q = P_lock"
| "linked (SQ_Notify al r) q \<longleftrightarrow> (\<exists>x. q = P_notify al True x)"
| "linked SQ_Wait q \<longleftrightarrow> q = P_enter \<or> q = P_sleep"
| "linked (SQ_Unlock r) q \<longleftrightarrow> q = P_unlock"
| "linked _ q \<longleftrightarrow> q = P_held"

text \<open>What a thread under the lock knows of the queue.\<close>

fun knows :: "bool \<Rightarrow> 'v list \<Rightarrow> 'v sq_pc \<Rightarrow> sync_phase \<Rightarrow> bool" where
  "knows closed q (SQ_Push v) ph \<longleftrightarrow> \<not> closed"
| "knows closed q (SQ_Closed op) ph \<longleftrightarrow> q = []"
| "knows closed q (SQ_Front op) ph \<longleftrightarrow> q \<noteq> []"
| "knows closed q (SQ_Pop op v) ph \<longleftrightarrow> (\<exists>q'. q = v # q')"
| "knows closed q SQ_Wait ph \<longleftrightarrow> (ph = P_enter \<longrightarrow> q = [] \<and> \<not> closed)"
| "knows closed q _ ph \<longleftrightarrow> True"

abbreviation sq_phase :: "('v, 'b) sq_state \<Rightarrow> tid \<Rightarrow> sync_phase" where
  "sq_phase s i \<equiv> phase (sy_pcs (sq_sync s) i)"

definition sq_safe :: "nat \<Rightarrow> ('v, 'b) sq_state \<Rightarrow> bool" where
  "sq_safe n s \<longleftrightarrow> sync_inv n (sq_sync s) \<and>
     (\<forall>i. linked (sq_pcs s i) (sq_phase s i) \<and> knows (sq_closed s) (sq_queue s) (sq_pcs s i) (sq_phase s i))"

lemma sq_safeD:
  assumes "sq_safe n s"
  shows "sync_inv n (sq_sync s)" and "linked (sq_pcs s i) (sq_phase s i)"
    and "knows (sq_closed s) (sq_queue s) (sq_pcs s i) (sq_phase s i)"
  using assms by (simp_all add: sq_safe_def)

lemma sq_safe_init: "sq_safe n sq_init"
  by (simp add: sq_safe_def sq_init_def sync_inv_init) (simp add: sync_init_def)

text \<open>Only a thread that holds the lock may change the queue.\<close>

lemma sq_safe_move:
  assumes safe: "sq_safe n s" and inv: "sync_inv n (sq_sync s')"
    and same: "(sq_closed s' = sq_closed s \<and> sq_queue s' = sq_queue s) \<or> phase_holds (sq_phase s i)"
    and others: "\<And>j. j \<noteq> i \<Longrightarrow> sq_pcs s' j = sq_pcs s j \<and> sy_pcs (sq_sync s') j = sy_pcs (sq_sync s) j"
    and me: "linked (sq_pcs s' i) (sq_phase s' i)" "knows (sq_closed s') (sq_queue s') (sq_pcs s' i) (sq_phase s' i)"
  shows "sq_safe n s'"
proof -
  have "linked (sq_pcs s' j) (sq_phase s' j) \<and> knows (sq_closed s') (sq_queue s') (sq_pcs s' j) (sq_phase s' j)" for j
  proof (cases "j = i")
    case False
    note D = sq_safeD(1)[OF safe] sq_safeD(2,3)[OF safe, of j] and oth = others[OF False]
    show ?thesis
    proof (cases "phase_holds (sq_phase s i)")
      case True
      then have "\<not> phase_holds (sq_phase s j)"
        using sync_invD(4)[OF D(1), of i j] False phase_holding by blast
      then have "knows c q (sq_pcs s j) (sq_phase s j)" for c q
        using D(2) by (cases "sq_pcs s j") auto
      then show ?thesis using D(2) oth by simp
    next
      case f: False
      then show ?thesis using same D oth by simp
    qed
  qed (use me in simp)
  then show ?thesis using inv by (simp add: sq_safe_def)
qed

lemma sync_partE:
  assumes "sync_part bk s i e nxt = Some s'"
  obtains t where "sync_step bk e (sq_sync s) = Some t"
    and "s' = s\<lparr>sq_sync := t, sq_pcs := (sq_pcs s)(i := nxt (sy_pcs t i))\<rparr>"
  using assms by (auto simp: sync_part_def split: option.splits)

text \<open>A step in the lock or the condition variable.\<close>

lemma sq_safe_sync:
  assumes safe: "sq_safe n s" and i: "i < n" "sync_tid e = i"
    and data: "(closed = sq_closed s \<and> q = sq_queue s) \<or> phase_holds (sq_phase s i)"
    and st: "sync_part bk (s\<lparr>sq_closed := closed, sq_queue := q\<rparr>) i e nxt = Some s'"
    and me: "\<And>t. sync_step bk e (sq_sync s) = Some t \<Longrightarrow>
      linked (nxt (sy_pcs t i)) (phase (sy_pcs t i)) \<and> knows closed q (nxt (sy_pcs t i)) (phase (sy_pcs t i))"
  shows "sq_safe n s'"
proof -
  from sync_partE[OF st] obtain t where t: "sync_step bk e (sq_sync s) = Some t"
    and s': "s' = s\<lparr>sq_closed := closed, sq_queue := q, sq_sync := t, sq_pcs := (sq_pcs s)(i := nxt (sy_pcs t i))\<rparr>"
    by auto
  show ?thesis
  proof (rule sq_safe_move[OF safe, where i = i])
    show "sync_inv n (sq_sync s')" using sync_inv_step[OF _ sq_safeD(1)[OF safe] t] i s' by simp
    show "sq_pcs s' j = sq_pcs s j \<and> sy_pcs (sq_sync s') j = sy_pcs (sq_sync s) j" if "j \<noteq> i" for j
      using step_others[OF t] i that s' by simp
  qed (use data me[OF t] s' in auto)
qed

lemma sq_safe_store:
  assumes safe: "sq_safe n s" and "phase_holds (sq_phase s i)"
    and "linked p (sq_phase s i)" and "knows (sq_closed s) q p (sq_phase s i)"
  shows "sq_safe n ((sq_goto s i p)\<lparr>sq_queue := q\<rparr>)"
  by (rule sq_safe_move[OF safe, where i = i]) (use assms sq_safeD(1)[OF safe] in auto)

lemma sq_safe_goto:
  assumes safe: "sq_safe n s" and "phase_holds (sq_phase s i)"
    and "linked p (sq_phase s i)" and "knows (sq_closed s) (sq_queue s) p (sq_phase s i)"
  shows "sq_safe n (sq_goto s i p)"
  using sq_safe_store[OF assms] by simp

lemma sq_body_safe:
  assumes "op \<noteq> Op_close"
  shows "linked (sq_body s op) P_held" and "knows (sq_closed s) (sq_queue s) (sq_body s op) P_held"
  using assms by (cases op; simp)+

lemma sq_safe_exec:
  assumes safe: "sq_safe n s" and i: "i < n" and st: "sq_exec bk i k fail (sq_pcs s i) s = Some s'"
  shows "sq_safe n s'"
proof -
  note L = sq_safeD(2)[OF safe, of i] and K = sq_safeD(3)[OF safe, of i]
  have go: "phase_next (sq_phase s i) (phase (sy_pcs t i))" if "sync_step bk (Sy_go i k) (sq_sync s) = Some t" for t
    using that by (auto intro: exec_phase)
  note S = sq_safe_sync[OF safe i, where closed = "sq_closed s" and q = "sq_queue s", simplified]
  show ?thesis
  proof (cases "sq_pcs s i")
    case (SQ_Lock op)
    then show ?thesis using st L by (auto intro!: S[where e = "Sy_go i k"] dest!: go)
  next
    case (SQ_Unlock r)
    then show ?thesis using st L by (auto intro!: S[where e = "Sy_go i k"] dest!: go)
  next
    case (SQ_Notify al r)
    then show ?thesis using st L by (auto intro!: S[where e = "Sy_go i k"] dest!: go split: if_splits)
  next
    case SQ_Wait
    then show ?thesis using st L K by (auto intro!: S[where e = "Sy_go i k"] dest!: go)
  next
    case (SQ_Done r)
    then show ?thesis using st L by (auto intro!: S[where e = "Sy_unlock i"] simp: sync_call_def)
  next
    case (SQ_Closed op)
    show ?thesis
    proof (cases "\<not> sq_closed s \<and> op = Op_pop")
      case True
      then show ?thesis using st L K SQ_Closed by (auto intro!: S[where e = "Sy_wait i"] simp: sync_call_def)
    next
      case False
      then show ?thesis using st L K SQ_Closed
        by (auto intro!: sq_safe_goto[OF safe] split: if_splits)
    qed
  next
    case (SQ_Push v)
    show ?thesis
    proof (cases fail)
      case False
      then have "sync_part bk (s\<lparr>sq_closed := sq_closed s, sq_queue := sq_queue s @ [v]\<rparr>) i (Sy_notify_one i)
             (\<lambda>_. SQ_Notify False (SR_status St_success None)) = Some s'"
        using st SQ_Push by simp
      then show ?thesis
        by (rule sq_safe_sync[OF safe i, rotated 2]) (use L SQ_Push in \<open>auto simp: notify_call_def\<close>)
    qed (use st L SQ_Push in \<open>auto intro!: sq_safe_goto[OF safe]\<close>)
  next
    case (SQ_Body op)
    show ?thesis
    proof (cases "op = Op_close")
      case True
      then have "sync_part bk (s\<lparr>sq_closed := True, sq_queue := sq_queue s\<rparr>) i (Sy_notify_all i)
             (\<lambda>_. SQ_Notify True SR_done) = Some s'"
        using st SQ_Body by simp
      then show ?thesis
        by (rule sq_safe_sync[OF safe i, rotated 2]) (use L SQ_Body in \<open>auto simp: notify_call_def\<close>)
    next
      case False
      then show ?thesis using st L SQ_Body sq_body_safe[OF False, of s]
        by (auto intro!: sq_safe_goto[OF safe])
    qed
  next
    case (SQ_Front op)
    then show ?thesis using st L by (auto intro!: sq_safe_goto[OF safe] split: list.splits)
  next
    case (SQ_Pop op v)
    then show ?thesis using st L by (auto intro!: sq_safe_store[OF safe] split: list.splits)
  qed (use st in simp)
qed

lemma sq_safe_step:
  assumes "sq_tid e < n" and "sq_safe n s" and "sq_step bk e s = Some s'"
  shows "sq_safe n s'"
proof (cases e)
  case (Sq_call i op b)
  have "sync_tid (guard_event i op b) = i" by (cases op) auto
  moreover have "phase (sy_pcs t i) = P_lock" if "sync_step bk (guard_event i op b) (sq_sync s) = Some t" for t
    using that by (cases op) (auto simp: sync_call_def split: if_splits)
  ultimately show ?thesis
    using assms Sq_call
    by (auto intro!: sq_safe_sync[OF assms(2), where i = i and e = "guard_event i op b"
          and closed = "sq_closed s" and q = "sq_queue s" and nxt = "\<lambda>_. SQ_Lock op"] split: if_splits)
next
  case (Sq_go i k fail)
  then show ?thesis using assms by (auto intro: sq_safe_exec)
qed

interpretation sq_sys: invariant_system "sq_step bk" "\<lambda>e. sq_tid e < n" "sq_safe n :: ('v, 'b) sq_state \<Rightarrow> bool" for bk n
  by unfold_locales (rule sq_safe_step)

subsection \<open>The queue as an atomic object\<close>

text \<open>
  The specification: a list with a closed flag.  Each call takes effect at one moment between
  its invocation and its return.  A pop that finds the open queue empty does not take effect, it
  waits.
\<close>

fun fq_apply :: "'v sq_op \<Rightarrow> bool \<Rightarrow> 'v list \<Rightarrow> ('v sq_result \<times> bool \<times> 'v list) option" where
  "fq_apply (Op_push v) c q =
     Some (if c then (SR_status St_closed None, c, q) else (SR_status St_success None, c, q @ [v]))"
| "fq_apply (Op_nb_push v) c q =
     Some (if c then (SR_status St_closed None, c, q) else (SR_status St_success None, c, q @ [v]))"
| "fq_apply Op_close c q = Some (SR_done, True, q)"
| "fq_apply Op_is_closed c q = Some (SR_bool c, c, q)"
| "fq_apply Op_is_empty c q = Some (SR_bool (q = []), c, q)"
| "fq_apply op c (v # q) = Some (SR_status St_success (Some v), c, q)"
| "fq_apply op c [] =
     (if c then Some (SR_status St_closed None, c, [])
      else if op = Op_pop then None else Some (SR_status St_empty None, c, []))"

datatype 'v call = Outside | Calling "'v sq_op" | Decided "'v sq_result"

record 'v lin_state =
  ln_closed :: bool
  ln_queue :: "'v list"
  ln_calls :: "tid \<Rightarrow> 'v call"

definition lin_init :: "'v lin_state" where
  "lin_init = \<lparr>ln_closed = False, ln_queue = [], ln_calls = (\<lambda>_. Outside)\<rparr>"

datatype 'v lin_label = Called tid "'v sq_op" | Commit tid | Returned tid "'v sq_result"

fun lin_step :: "'v lin_label \<Rightarrow> 'v lin_state \<Rightarrow> 'v lin_state option" where
  "lin_step (Called i op) a =
     (if ln_calls a i = Outside then Some (a\<lparr>ln_calls := (ln_calls a)(i := Calling op)\<rparr>) else None)"
| "lin_step (Commit i) a =
     (case ln_calls a i of
        Calling op \<Rightarrow>
          (case fq_apply op (ln_closed a) (ln_queue a) of
             None \<Rightarrow> None
           | Some (r, c, q) \<Rightarrow>
               Some (a\<lparr>ln_closed := c, ln_queue := q, ln_calls := (ln_calls a)(i := Decided r)\<rparr>))
      | _ \<Rightarrow> None)"
| "lin_step (Returned i r) a =
     (case ln_calls a i of
        Outside \<Rightarrow> None
      | Calling op \<Rightarrow>
          (if r = SR_threw \<or> r = SR_status St_busy None
           then Some (a\<lparr>ln_calls := (ln_calls a)(i := Outside)\<rparr>) else None)
      | Decided r' \<Rightarrow> (if r = r' then Some (a\<lparr>ln_calls := (ln_calls a)(i := Outside)\<rparr>) else None))"

text \<open>The labels of a step of the queue.\<close>

fun decided :: "'v sq_pc \<Rightarrow> bool" where
  "decided (SQ_Done r) \<longleftrightarrow> r \<noteq> SR_threw"
| "decided (SQ_Notify al r) = True"
| "decided _ = False"

fun returned_with :: "'v sq_pc \<Rightarrow> 'v sq_result option" where
  "returned_with (SQ_Idle r) = r"
| "returned_with _ = None"

fun sq_label :: "('v, 'b) sq_event \<Rightarrow> 'v sq_pc \<Rightarrow> 'v sq_pc \<Rightarrow> 'v lin_label list" where
  "sq_label (Sq_call i op b) p q = [Called i op]"
| "sq_label (Sq_go i k fail) p q =
     (if \<not> decided p \<and> decided q then [Commit i]
      else (case returned_with q of None \<Rightarrow> [] | Some r \<Rightarrow> [Returned i r]))"

fun sq_trace :: "('b \<Rightarrow> bool \<times> 'b) \<Rightarrow> ('v, 'b) sq_event list \<Rightarrow> ('v, 'b) sq_state \<Rightarrow> 'v lin_label list" where
  "sq_trace bk [] s = []"
| "sq_trace bk (e # es) s =
     (case sq_step bk e s of
        None \<Rightarrow> []
      | Some s' \<Rightarrow> sq_label e (sq_pcs s (sq_tid e)) (sq_pcs s' (sq_tid e)) @ sq_trace bk es s')"

subsection \<open>The queue implements the specification\<close>

fun is_pop :: "'v sq_op \<Rightarrow> bool" where
  "is_pop Op_pop = True" | "is_pop Op_try_pop = True" | "is_pop Op_nb_pop = True" | "is_pop _ = False"

fun call_rel :: "'v sq_pc \<Rightarrow> 'v call \<Rightarrow> bool" where
  "call_rel (SQ_Idle r) c \<longleftrightarrow> c = Outside"
| "call_rel (SQ_Lock op) c \<longleftrightarrow> c = Calling op"
| "call_rel (SQ_Body op) c \<longleftrightarrow> c = Calling op"
| "call_rel (SQ_Push v) c \<longleftrightarrow> c = Calling (Op_push v) \<or> c = Calling (Op_nb_push v)"
| "call_rel (SQ_Closed op) c \<longleftrightarrow> c = Calling op \<and> is_pop op"
| "call_rel (SQ_Front op) c \<longleftrightarrow> c = Calling op \<and> is_pop op"
| "call_rel (SQ_Pop op v) c \<longleftrightarrow> c = Calling op \<and> is_pop op"
| "call_rel SQ_Wait c \<longleftrightarrow> c = Calling Op_pop"
| "call_rel (SQ_Notify al r) c \<longleftrightarrow> c = Decided r \<and> r \<noteq> SR_threw"
| "call_rel (SQ_Done r) c \<longleftrightarrow> c = Decided r \<and> r \<noteq> SR_threw \<or> r = SR_threw \<and> (\<exists>op. c = Calling op)"
| "call_rel (SQ_Unlock r) c \<longleftrightarrow> c = Decided r \<or> r = SR_threw \<and> (\<exists>op. c = Calling op)"

definition lin_rel :: "'v lin_state \<Rightarrow> ('v, 'b) sq_state \<Rightarrow> bool" where
  "lin_rel a s \<longleftrightarrow> ln_closed a = sq_closed s \<and> ln_queue a = sq_queue s \<and>
     (\<forall>i. call_rel (sq_pcs s i) (ln_calls a i))"

lemma lin_relD:
  assumes "lin_rel a s"
  shows "ln_closed a = sq_closed s" and "ln_queue a = sq_queue s" and "call_rel (sq_pcs s i) (ln_calls a i)"
  using assms by (simp_all add: lin_rel_def)

lemma lin_rel_init: "lin_rel lin_init sq_init"
  by (simp add: lin_rel_def lin_init_def sq_init_def)

lemma lin_rel_move:
  assumes "lin_rel a s" and "ln_closed b = sq_closed s'" and "ln_queue b = sq_queue s'"
    and "ln_calls b = (ln_calls a)(i := c)" and "sq_pcs s' = (sq_pcs s)(i := p)" and "call_rel p c"
  shows "lin_rel b s'"
  using assms by (simp add: lin_rel_def)

lemma pop_commits: "is_pop op \<Longrightarrow> fq_apply op c (v # q) = Some (SR_status St_success (Some v), c, q)"
  "is_pop op \<Longrightarrow> c \<Longrightarrow> fq_apply op c [] = Some (SR_status St_closed None, c, [])"
  "is_pop op \<Longrightarrow> \<not> c \<Longrightarrow> op \<noteq> Op_pop \<Longrightarrow> fq_apply op c [] = Some (SR_status St_empty None, c, [])"
  by (cases op; simp)+

definition lin_sim :: "'v lin_state \<Rightarrow> 'v lin_label list \<Rightarrow> ('v, 'b) sq_state \<Rightarrow> bool" where
  "lin_sim a ls s' \<longleftrightarrow> (\<exists>b. run lin_step ls a = Some b \<and> lin_rel b s')"

lemma lin_silent:
  assumes "lin_rel a s" and "sq_closed s' = sq_closed s" and "sq_queue s' = sq_queue s"
    and "sq_pcs s' = (sq_pcs s)(i := p)" and "call_rel p (ln_calls a i)"
  shows "lin_sim a [] s'"
  using lin_rel_move[OF assms(1), of a s' i "ln_calls a i" p] assms lin_relD[OF assms(1)]
  by (simp add: lin_sim_def)

lemma lin_return:
  assumes "lin_rel a s" and "sq_closed s' = sq_closed s" and "sq_queue s' = sq_queue s"
    and "sq_pcs s' = (sq_pcs s)(i := SQ_Idle (Some r))"
    and "ln_calls a i = Decided r \<or> (r = SR_threw \<or> r = SR_status St_busy None) \<and> (\<exists>op. ln_calls a i = Calling op)"
  shows "lin_sim a [Returned i r] s'"
  using lin_rel_move[OF assms(1), of "a\<lparr>ln_calls := (ln_calls a)(i := Outside)\<rparr>" s' i Outside "SQ_Idle (Some r)"]
    assms lin_relD[OF assms(1)]
  by (auto simp: lin_sim_def)

lemma lin_commit:
  assumes "lin_rel a s" and "ln_calls a i = Calling op"
    and "fq_apply op (sq_closed s) (sq_queue s) = Some (r, sq_closed s', sq_queue s')"
    and "sq_pcs s' = (sq_pcs s)(i := p)" and "call_rel p (Decided r)"
  shows "lin_sim a [Commit i] s'"
  using lin_rel_move[OF assms(1), of "a\<lparr>ln_closed := sq_closed s', ln_queue := sq_queue s',
      ln_calls := (ln_calls a)(i := Decided r)\<rparr>" s' i "Decided r" p]
    assms lin_relD[OF assms(1)]
  by (simp add: lin_sim_def)

lemma lin_exec:
  assumes safe: "sq_safe n s" and rel: "lin_rel a s" and st: "sq_exec bk i k fail (sq_pcs s i) s = Some s'"
  shows "lin_sim a (sq_label (Sq_go i k fail) (sq_pcs s i) (sq_pcs s' i)) s'"
proof -
  note R = lin_relD(3)[OF rel, of i] and K = sq_safeD(3)[OF safe, of i]
  show ?thesis
  proof (cases "sq_pcs s i")
    case (SQ_Lock op)
    then show ?thesis using st R
      by (auto elim!: sync_partE intro!: lin_silent[OF rel, of _ i] lin_return[OF rel, of _ i])
  next
    case (SQ_Body op)
    show ?thesis
    proof (cases "op = Op_close")
      case True
      then show ?thesis using st R SQ_Body
        by (auto elim!: sync_partE intro!: lin_commit[OF rel, where op = Op_close])
    next
      case False
      then have s': "s' = sq_goto s i (sq_body s op)" using st SQ_Body by simp
      show ?thesis
      proof (cases "decided (sq_body s op)")
        case True
        then show ?thesis using s' R SQ_Body False
          by (cases op) (auto split: if_splits intro!: lin_commit[OF rel, where op = op and i = i])
      next
        case d: False
        then show ?thesis using s' R SQ_Body False
          by (cases op) (auto split: if_splits intro!: lin_silent[OF rel, where i = i])
      qed
    qed
  next
    case (SQ_Push v)
    show ?thesis
    proof (cases fail)
      case True
      then show ?thesis using st R SQ_Push by (auto intro!: lin_silent[OF rel, where i = i])
    next
      case False
      obtain op where op: "ln_calls a i = Calling op" "op = Op_push v \<or> op = Op_nb_push v"
        using R SQ_Push by auto
      show ?thesis using st K SQ_Push False op(2)
        by (auto elim!: sync_partE intro!: lin_commit[OF rel op(1)])
    qed
  next
    case (SQ_Closed op)
    show ?thesis
    proof (cases "\<not> sq_closed s \<and> op = Op_pop")
      case True
      then show ?thesis using st R SQ_Closed by (auto elim!: sync_partE intro!: lin_silent[OF rel, where i = i])
    next
      case False
      then show ?thesis using st R K SQ_Closed
        by (auto split: if_splits intro!: lin_commit[OF rel, where op = op] simp: pop_commits)
    qed
  next
    case (SQ_Front op)
    then show ?thesis using st R by (auto split: list.splits intro!: lin_silent[OF rel, where i = i])
  next
    case (SQ_Pop op v)
    then show ?thesis using st R K by (auto intro!: lin_commit[OF rel, where op = op] simp: pop_commits)
  next
    case (SQ_Notify al r)
    then show ?thesis using st R by (auto elim!: sync_partE intro!: lin_silent[OF rel, where i = i])
  next
    case SQ_Wait
    then show ?thesis using st R by (auto elim!: sync_partE intro!: lin_silent[OF rel, where i = i])
  next
    case (SQ_Done r)
    then show ?thesis using st R by (auto elim!: sync_partE intro!: lin_silent[OF rel, where i = i])
  next
    case (SQ_Unlock r)
    then show ?thesis using st R
      by (auto elim!: sync_partE intro!: lin_silent[OF rel, where i = i] lin_return[OF rel, of _ i])
  qed (use st in simp)
qed

lemma lin_step_sim:
  assumes "sq_safe n s" and rel: "lin_rel a s" and st: "sq_step bk e s = Some s'"
  shows "lin_sim a (sq_label e (sq_pcs s (sq_tid e)) (sq_pcs s' (sq_tid e))) s'"
proof (cases e)
  case (Sq_call i op b)
  have "call_rel (sq_pcs s i) (ln_calls a i)" by (rule lin_relD(3)[OF rel])
  then have "ln_calls a i = Outside" using st Sq_call by (cases "sq_pcs s i") auto
  then show ?thesis
    using st Sq_call lin_relD[OF rel]
    by (auto simp: lin_sim_def split: if_splits elim!: sync_partE
        intro!: lin_rel_move[OF rel, where i = i and c = "Calling op" and p = "SQ_Lock op"])
next
  case (Sq_go i k fail)
  then show ?thesis using lin_exec[OF assms(1) rel] st by simp
qed

lemma lin_run:
  assumes "list_all (\<lambda>e. sq_tid e < n) es" and "sq_safe n s" and "lin_rel a s" and "run (sq_step bk) es s = Some s'"
  shows "lin_sim a (sq_trace bk es s) s'"
  using assms
proof (induction es arbitrary: a s)
  case Nil
  then show ?case by (simp add: lin_sim_def)
next
  case (Cons e es)
  then obtain s1 where s1: "sq_step bk e s = Some s1" "run (sq_step bk) es s1 = Some s'"
    by (auto split: option.splits)
  obtain b where b: "run lin_step (sq_label e (sq_pcs s (sq_tid e)) (sq_pcs s1 (sq_tid e))) a = Some b" "lin_rel b s1"
    using lin_step_sim[OF Cons.prems(2,3) s1(1)] by (auto simp: lin_sim_def)
  have "sq_safe n s1" using sq_safe_step[OF _ Cons.prems(2) s1(1)] Cons.prems(1) by simp
  then have "lin_sim b (sq_trace bk es s1) s'" using Cons.IH[OF _ _ b(2) s1(2)] Cons.prems(1) by simp
  then show ?case using s1 b by (auto simp: lin_sim_def run_append)
qed

subsection \<open>Properties\<close>

text \<open>A consumer goes to sleep on the empty queue, a producer pushes 7 and wakes it.\<close>

definition sq_go :: "tid \<Rightarrow> ('v, 'b) sq_event" where
  "sq_go i = Sq_go i quiet_kernel False"

definition handover :: "(nat, unit) sq_event list" where
  "handover =
     Sq_call 1 Op_pop () # replicate 9 (sq_go 1) @
     Sq_call 0 (Op_push 7) () # replicate 5 (sq_go 0) @
     Sq_go 0 \<lparr>kn_woken = {1}, kn_moved = {}, kn_spurious = False\<rparr> False # replicate 2 (sq_go 0) @
     replicate 10 (sq_go 1)"

abbreviation sq_example :: "(nat, unit) sq_event \<Rightarrow> (nat, unit) sq_state \<Rightarrow> (nat, unit) sq_state option" where
  "sq_example \<equiv> sq_step (\<lambda>b. (True, b))"

text \<open>
  C2: the synchronised queue is linearisable.  In every execution, the calls, the moments at
  which they take effect and their results are a run of the atomic queue, which ends with the
  values and the closed flag of the implementation.  Only a call that throws, or a non-blocking
  one that returns \<open>busy\<close>, returns without having taken effect.
\<close>

theorem synch_queue_linearizable:
  assumes "list_all (\<lambda>e. sq_tid e < n) es" and "run (sq_step bk) es sq_init = Some s"
  shows "\<exists>a. run lin_step (sq_trace bk es sq_init) lin_init = Some a \<and>
             ln_queue a = sq_queue s \<and> ln_closed a = sq_closed s"
  using lin_run[OF assms(1) sq_safe_init lin_rel_init assms(2)] lin_relD(1,2)
  unfolding lin_sim_def by blast

theorem synch_queue_linearizable_witness:
  "\<exists>a s. run sq_example handover sq_init = Some s \<and>
     run lin_step [Called 1 Op_pop, Called 0 (Op_push 7), Commit 0, Returned 0 (SR_status St_success None),
                   Commit 1, Returned 1 (SR_status St_success (Some 7))] lin_init = Some a \<and>
     ln_queue a = sq_queue s \<and> ln_closed a = sq_closed s"
proof -
  have n: "list_all (\<lambda>e. sq_tid e < 2) handover" by code_simp
  have "run sq_example handover sq_init \<noteq> None" by code_simp
  then obtain s where s: "run sq_example handover sq_init = Some s" by blast
  have tr: "sq_trace (\<lambda>b. (True, b)) handover sq_init =
      [Called 1 Op_pop, Called 0 (Op_push 7), Commit 0, Returned 0 (SR_status St_success None),
       Commit 1, Returned 1 (SR_status St_success (Some 7))]" by code_simp
  show ?thesis using synch_queue_linearizable[OF n s] s unfolding tr by blast
qed

text \<open>
  C36: \<open>front()\<close> and \<open>pop_front()\<close> are never called on an empty sequence: whatever other threads
  have done since \<open>locked_pop\<close> found the queue non-empty, it still is, and the value it takes is
  the one that \<open>pop_front\<close> removes.
\<close>

theorem synch_queue_front_defined:
  assumes "list_all (\<lambda>e. sq_tid e < n) es" and "run (sq_step bk) es sq_init = Some s"
  shows "(\<forall>op. sq_pcs s i = SQ_Front op \<longrightarrow> sq_queue s \<noteq> []) \<and>
         (\<forall>op v. sq_pcs s i = SQ_Pop op v \<longrightarrow> (\<exists>q. sq_queue s = v # q))"
  using sq_safeD(3)[OF sq_sys.run_inv[OF assms(1) sq_safe_init assms(2)], of i] by auto

theorem synch_queue_front_defined_witness:
  "\<exists>s. run sq_example (take 24 handover) sq_init = Some s \<and> sq_pcs s 1 = SQ_Pop Op_pop 7 \<and>
       (\<exists>q. sq_queue s = 7 # q)"
proof -
  have n: "list_all (\<lambda>e. sq_tid e < 2) (take 24 handover)" by code_simp
  have "case run sq_example (take 24 handover) sq_init of None \<Rightarrow> False | Some s \<Rightarrow> sq_pcs s 1 = SQ_Pop Op_pop 7"
    by code_simp
  then obtain s where s: "run sq_example (take 24 handover) sq_init = Some s" "sq_pcs s 1 = SQ_Pop Op_pop 7"
    by (auto split: option.splits)
  show ?thesis using synch_queue_front_defined[OF n s(1), of 1] s by auto
qed

end
