(* ===== verification/Evenk_Synch_Queue_Live.thy ===== *)
theory Evenk_Synch_Queue_Live
  imports Evenk_Synch_Queue_Safety
begin

text \<open>
  No lost wake-ups in the synchronised queue, down to the futex.

  A consumer is dormant if it sleeps on the condition variable or is bound to: it has read the
  futex word and there has been no notification since.  While there are dormant consumers, the
  values in the queue do not outnumber the consumers that are on their way to take one, plus one
  for a producer that is about to notify; and if the queue is closed, \<open>close\<close> is about to notify.
\<close>

subsection \<open>Dormant waiters of the condition variable\<close>


















subsection \<open>The invariant\<close>
































subsection \<open>Properties\<close>



end
