(* ===== verification/Evenk_Lock_Guard.thy ===== *)
theory Evenk_Lock_Guard
  imports Evenk_Futex_Synch Evenk_Basic
begin

text \<open>
  \<^verbatim>\<open>evenk/synch.h\<close>: \<open>lock_guard\<close>, and the wrappers \<open>posix_mutex\<close> and \<open>posix_cond_var\<close>.

  A guard is the flag \<open>owns_lock_\<close> beside the lock it refers to.  The lock is a template
  parameter of the class; here its operations are arguments.  They return \<open>None\<close> if they do not
  return.  What the guard needs of them is the locale \<open>lockable\<close>, interpreted on \<open>futex_lock\<close>
  with any interleaving of other threads.
\<close>

subsection \<open>The POSIX wrappers\<close>

text \<open>The functions of the POSIX threads library map a state to a return code and a new state.\<close>

definition posix_lock :: "('m \<Rightarrow> int \<times> 'm) \<Rightarrow> 'm \<Rightarrow> unit res \<times> 'm" where
  "posix_lock pthread_mutex_lock m =
     (let (rc, m') = pthread_mutex_lock m in
      if rc \<noteq> 0 then (throw_system_error_what rc ''pthread_mutex_lock()'', m') else (Inr (), m'))"

definition posix_try_lock :: "('m \<Rightarrow> int \<times> 'm) \<Rightarrow> 'm \<Rightarrow> bool \<times> 'm" where
  "posix_try_lock pthread_mutex_trylock m = (let (rc, m') = pthread_mutex_trylock m in (rc = 0, m'))"

definition posix_unlock :: "('m \<Rightarrow> int \<times> 'm) \<Rightarrow> 'm \<Rightarrow> 'm" where
  "posix_unlock pthread_mutex_unlock m = snd (pthread_mutex_unlock m)"

text \<open>An exception that leaves a \<open>noexcept\<close> function ends the program.\<close>

datatype 'a outcome = Returns 'a | Terminates

definition noexcept :: "'a res \<Rightarrow> 'a outcome" where
  "noexcept r = (case r of Inl e \<Rightarrow> Terminates | Inr x \<Rightarrow> Returns x)"

definition posix_cond_wait :: "('c \<Rightarrow> 'm \<Rightarrow> int \<times> 'c \<times> 'm) \<Rightarrow> 'c \<Rightarrow> 'm \<Rightarrow> unit outcome \<times> 'c \<times> 'm" where
  "posix_cond_wait pthread_cond_wait c m =
     (let (rc, c', m') = pthread_cond_wait c m in
      (noexcept (if rc \<noteq> 0 then throw_system_error_what rc ''pthread_cond_wait()'' else Inr ()), c', m'))"

definition posix_notify_one :: "('c \<Rightarrow> int \<times> 'c) \<Rightarrow> 'c \<Rightarrow> 'c" where
  "posix_notify_one pthread_cond_signal c = snd (pthread_cond_signal c)"

definition posix_notify_all :: "('c \<Rightarrow> int \<times> 'c) \<Rightarrow> 'c \<Rightarrow> 'c" where
  "posix_notify_all pthread_cond_broadcast c = snd (pthread_cond_broadcast c)"

subsection \<open>lock\_guard\<close>

definition EDEADLK :: int where "EDEADLK = 35"
definition EPERM :: int where "EPERM = 1"

text \<open>The members \<open>owns_lock_\<close> and, for \<open>*mutex_\<close>, the state of the lock.\<close>

record 'm guard =
  gd_owns :: bool
  gd_mutex :: 'm

type_synonym 'm lock_fun = "'m \<Rightarrow> (unit res \<times> 'm) option"
type_synonym 'm try_fun = "'m \<Rightarrow> (bool \<times> 'm) option"
type_synonym 'm unlock_fun = "'m \<Rightarrow> 'm option"

text \<open>\<open>lock()\<close> and \<open>lock(backoff)\<close>; the back-off is part of the function that locks the mutex.\<close>

definition guard_lock :: "'m lock_fun \<Rightarrow> 'm guard \<Rightarrow> (unit res \<times> 'm guard) option" where
  "guard_lock lock g =
     (if gd_owns g then Some (throw_system_error EDEADLK, g)
      else (case lock (gd_mutex g) of
              None \<Rightarrow> None
            | Some (Inl e, m) \<Rightarrow> Some (Inl e, g\<lparr>gd_mutex := m\<rparr>)
            | Some (Inr u, m) \<Rightarrow> Some (Inr (), g\<lparr>gd_mutex := m, gd_owns := True\<rparr>)))"

definition guard_try_lock :: "'m try_fun \<Rightarrow> 'm guard \<Rightarrow> (bool res \<times> 'm guard) option" where
  "guard_try_lock try_lock g =
     (if gd_owns g then Some (throw_system_error EDEADLK, g)
      else (case try_lock (gd_mutex g) of
              None \<Rightarrow> None
            | Some (b, m) \<Rightarrow> Some (Inr b, g\<lparr>gd_mutex := m, gd_owns := b\<rparr>)))"

definition guard_unlock :: "'m unlock_fun \<Rightarrow> 'm guard \<Rightarrow> (unit res \<times> 'm guard) option" where
  "guard_unlock unlock g =
     (if \<not> gd_owns g then Some (throw_system_error EPERM, g)
      else (case unlock (gd_mutex g) of
              None \<Rightarrow> None
            | Some m \<Rightarrow> Some (Inr (), g\<lparr>gd_mutex := m, gd_owns := False\<rparr>)))"

text \<open>The constructors: plain (and with a back-off), with \<open>adopt_lock\<close>, \<open>defer_lock\<close> and \<open>try_to_lock\<close>.\<close>

definition guard_ctor :: "'m lock_fun \<Rightarrow> 'm \<Rightarrow> (unit res \<times> 'm guard) option" where
  "guard_ctor lock m = guard_lock lock \<lparr>gd_owns = False, gd_mutex = m\<rparr>"

definition guard_adopt :: "'m \<Rightarrow> 'm guard" where
  "guard_adopt m = \<lparr>gd_owns = True, gd_mutex = m\<rparr>"

definition guard_defer :: "'m \<Rightarrow> 'm guard" where
  "guard_defer m = \<lparr>gd_owns = False, gd_mutex = m\<rparr>"

definition guard_try :: "'m try_fun \<Rightarrow> 'm \<Rightarrow> (bool res \<times> 'm guard) option" where
  "guard_try try_lock m = guard_try_lock try_lock \<lparr>gd_owns = False, gd_mutex = m\<rparr>"

definition guard_dtor :: "'m unlock_fun \<Rightarrow> 'm guard \<Rightarrow> 'm option" where
  "guard_dtor unlock g = (if gd_owns g then unlock (gd_mutex g) else Some (gd_mutex g))"

text \<open>A caller that uses the guard and catches its exceptions.\<close>

datatype ('l, 't, 'u) guard_op = G_lock 'l | G_try_lock 't | G_unlock 'u

fun guard_apply ::
  "('l \<Rightarrow> 'm lock_fun) \<Rightarrow> ('t \<Rightarrow> 'm try_fun) \<Rightarrow> ('u \<Rightarrow> 'm unlock_fun) \<Rightarrow>
   ('l, 't, 'u) guard_op \<Rightarrow> 'm guard \<Rightarrow> 'm guard option" where
  "guard_apply lock try_lock unlock (G_lock x) g = map_option snd (guard_lock (lock x) g)"
| "guard_apply lock try_lock unlock (G_try_lock x) g = map_option snd (guard_try_lock (try_lock x) g)"
| "guard_apply lock try_lock unlock (G_unlock x) g = map_option snd (guard_unlock (unlock x) g)"

subsection \<open>What the guard needs of a lock\<close>

locale lockable =
  fixes lock :: "'l \<Rightarrow> 'm lock_fun" and try_lock :: "'t \<Rightarrow> 'm try_fun" and unlock :: "'u \<Rightarrow> 'm unlock_fun"
    and held :: "'m \<Rightarrow> bool"
  assumes lock_held: "\<not> held m \<Longrightarrow> lock x m = Some (Inr (), m') \<Longrightarrow> held m'"
    and lock_failed: "\<not> held m \<Longrightarrow> lock x m = Some (Inl e, m') \<Longrightarrow> \<not> held m'"
    and try_held: "\<not> held m \<Longrightarrow> try_lock y m = Some (b, m') \<Longrightarrow> held m' = b"
    and unlock_free: "held m \<Longrightarrow> unlock z m = Some m' \<Longrightarrow> \<not> held m'"
begin

abbreviation honest :: "'m guard \<Rightarrow> bool" where
  "honest g \<equiv> gd_owns g = held (gd_mutex g)"

lemma honest_apply:
  assumes "honest g" and "guard_apply lock try_lock unlock op g = Some g'"
  shows "honest g'"
proof (cases op)
  case (G_lock x)
  show ?thesis
  proof (cases "gd_owns g")
    case False
    then obtain r m where r: "lock x (gd_mutex g) = Some (r, m)" "gd_mutex g' = m" "gd_owns g' = (r = Inr ())"
      using assms(2) G_lock by (auto simp: guard_lock_def split: option.splits sum.splits)
    have free: "\<not> held (gd_mutex g)" using False assms(1) by simp
    show ?thesis
    proof (cases r)
      case (Inl e)
      then show ?thesis using lock_failed[OF free, of x e m] r by simp
    next
      case (Inr u)
      then show ?thesis using lock_held[OF free, of x m] r by simp
    qed
  qed (use assms G_lock in \<open>auto simp: guard_lock_def\<close>)
next
  case (G_try_lock y)
  show ?thesis
  proof (cases "gd_owns g")
    case False
    then obtain b m where r: "try_lock y (gd_mutex g) = Some (b, m)" "gd_mutex g' = m" "gd_owns g' = b"
      using assms(2) G_try_lock by (auto simp: guard_try_lock_def split: option.splits)
    then show ?thesis using try_held[OF _ r(1)] False assms(1) by simp
  qed (use assms G_try_lock in \<open>auto simp: guard_try_lock_def\<close>)
next
  case (G_unlock z)
  show ?thesis
  proof (cases "gd_owns g")
    case True
    then obtain m where r: "unlock z (gd_mutex g) = Some m" "gd_mutex g' = m" "\<not> gd_owns g'"
      using assms(2) G_unlock by (auto simp: guard_unlock_def split: option.splits)
    then show ?thesis using unlock_free[OF _ r(1)] True assms(1) by simp
  qed (use assms G_unlock in \<open>auto simp: guard_unlock_def\<close>)
qed

lemma released:
  assumes "honest g" and "guard_dtor (unlock z) g = Some m"
  shows "\<not> held m"
proof (cases "gd_owns g")
  case True
  then show ?thesis using unlock_free[of "gd_mutex g" z m] assms by (simp add: guard_dtor_def)
qed (use assms in \<open>simp add: guard_dtor_def\<close>)

end

text \<open>So a guard that tells the truth keeps doing so.\<close>

sublocale lockable \<subseteq> guard_sys: invariant_system "guard_apply lock try_lock unlock" "\<lambda>_. True" honest
  by unfold_locales (rule honest_apply)

subsection \<open>The guard of a futex lock\<close>

text \<open>
  The operations of a thread \<open>i\<close> on a futex lock, as the guard sees them: the call, followed by
  all that happens (to any thread) until it has returned.
\<close>

definition flock :: "('b \<Rightarrow> bool \<times> 'b) \<Rightarrow> tid \<Rightarrow> 'b \<times> 'b sync_event list \<Rightarrow> 'b sync_state lock_fun" where
  "flock bk i x s =
     (case run (sync_step bk) (Sy_lock i (fst x) # snd x) s of
        None \<Rightarrow> None
      | Some s' \<Rightarrow> if sy_pcs s' i = L_Held then Some (Inr (), s') else None)"

definition ftry_lock :: "('b \<Rightarrow> bool \<times> 'b) \<Rightarrow> tid \<Rightarrow> 'b sync_event list \<Rightarrow> 'b sync_state try_fun" where
  "ftry_lock bk i es s =
     (case run (sync_step bk) (Sy_try_lock i # es) s of
        None \<Rightarrow> None
      | Some s' \<Rightarrow>
          if sy_pcs s' i = L_Held then Some (True, s')
          else if sy_pcs s' i = L_Idle then Some (False, s') else None)"

definition funlock :: "('b \<Rightarrow> bool \<times> 'b) \<Rightarrow> tid \<Rightarrow> 'b sync_event list \<Rightarrow> 'b sync_state unlock_fun" where
  "funlock bk i es s =
     (case run (sync_step bk) (Sy_unlock i # es) s of
        None \<Rightarrow> None
      | Some s' \<Rightarrow> if sy_pcs s' i = L_Idle then Some s' else None)"

interpretation futex_guard: lockable "flock bk i" "ftry_lock bk i" "funlock bk i" "\<lambda>s. sy_pcs s i = L_Held"
  for bk :: "'b \<Rightarrow> bool \<times> 'b" and i
  by unfold_locales (auto simp: flock_def ftry_lock_def funlock_def split: option.splits if_splits)

text \<open>
  C25: a guard owns the lock exactly if its thread holds it.  Whatever sequence of \<open>lock\<close>,
  \<open>try_lock\<close> and \<open>unlock\<close> is called on a guard, in any interleaving with other threads and with
  the exceptions caught, \<open>owns_lock_\<close> stays true to the futex lock and the destructor leaves the
  lock released; and locking twice or unlocking without owning throws \<open>EDEADLK\<close> or \<open>EPERM\<close> and
  changes nothing.
\<close>

theorem lock_guard_protocol:
  assumes "run (guard_apply (flock bk i) (ftry_lock bk i) (funlock bk i)) ops (guard_defer m) = Some g"
    and "sy_pcs m i = L_Idle"
  shows "gd_owns g = (sy_pcs (gd_mutex g) i = L_Held) \<and>
         (\<forall>es m'. guard_dtor (funlock bk i es) g = Some m' \<longrightarrow> sy_pcs m' i \<noteq> L_Held) \<and>
         (gd_owns g \<longrightarrow> guard_lock (flock bk i x) g = Some (Inl (System_error EDEADLK None), g)) \<and>
         (gd_owns g \<longrightarrow> guard_try_lock (ftry_lock bk i y) g = Some (Inl (System_error EDEADLK None), g)) \<and>
         (\<not> gd_owns g \<longrightarrow> guard_unlock (funlock bk i z) g = Some (Inl (System_error EPERM None), g))"
proof (intro conjI)
  have h: "gd_owns g = (sy_pcs (gd_mutex g) i = L_Held)"
    using futex_guard.guard_sys.run_inv[OF _ _ assms(1)] assms(2) by (auto simp: guard_defer_def list_all_iff)
  show "gd_owns g = (sy_pcs (gd_mutex g) i = L_Held)" by (rule h)
  show "\<forall>es m'. guard_dtor (funlock bk i es) g = Some m' \<longrightarrow> sy_pcs m' i \<noteq> L_Held"
    using futex_guard.released[OF h] by blast
qed (simp_all add: guard_lock_def guard_try_lock_def guard_unlock_def throw_system_error_def)

theorem lock_guard_protocol_witness:
  "\<exists>g :: unit sync_state guard. gd_owns g \<and> sy_pcs (gd_mutex g) 0 = L_Held \<and>
     guard_lock (flock (\<lambda>b. (True, b)) 0 ((), [])) g = Some (Inl (System_error EDEADLK None), g)"
proof -
  let ?run = "run (guard_apply (flock (\<lambda>b. (True, b)) 0) (ftry_lock (\<lambda>b. (True, b)) 0) (funlock (\<lambda>b. (True, b)) 0))
    [G_lock ((), [Sy_go 0 quiet_kernel])] (guard_defer sync_init)"
  have "case ?run of None \<Rightarrow> False | Some g \<Rightarrow> gd_owns g" by code_simp
  then obtain g where g: "?run = Some g" "gd_owns g" by (auto split: option.splits)
  have "sy_pcs (sync_init :: unit sync_state) 0 = L_Idle" by (simp add: sync_init_def)
  from lock_guard_protocol[OF g(1) this, of "((), [])"] show ?thesis using g by blast
qed

end
