(* ===== verification/Evenk_Queue_Access.thy ===== *)
theory Evenk_Queue_Access
  imports Evenk_Conqueue
begin

text \<open>
  \<^verbatim>\<open>evenk/conqueue.h\<close>: the interface of queues, the wrapper that gives it to any queue class, the
  front and back views, and the iterators.

  \<open>queue_base\<close> is a record of operations on the state of a queue.  An operation returns \<open>None\<close> if
  it does not return.  The other classes hold a pointer to a queue; queues live in a store, and
  using a null or dangling pointer is undefined, so that it gives \<open>None\<close> too.  Several views and
  iterators may point to the same queue.
\<close>

subsection \<open>queue\_base\<close>

record ('v, 'q) queue_base =
  qb_close :: "'q \<Rightarrow> (unit \<times> 'q) option"
  qb_is_closed :: "'q \<Rightarrow> (bool \<times> 'q) option"
  qb_is_empty :: "'q \<Rightarrow> (bool \<times> 'q) option"
  qb_is_full :: "'q \<Rightarrow> (bool \<times> 'q) option"
  qb_is_lock_free :: "'q \<Rightarrow> (bool \<times> 'q) option"
  qb_push :: "'v \<Rightarrow> 'q \<Rightarrow> ((queue_op_status + unit) \<times> 'q) option"
  qb_value_pop :: "'q \<Rightarrow> ((queue_op_status + 'v) \<times> 'q) option"
  qb_wait_push :: "'v \<Rightarrow> 'q \<Rightarrow> (queue_op_status \<times> 'q) option"
  qb_wait_pop :: "'q \<Rightarrow> ((queue_op_status \<times> 'v option) \<times> 'q) option"
  qb_try_push :: "'v \<Rightarrow> 'q \<Rightarrow> (queue_op_status \<times> 'q) option"
  qb_try_pop :: "'q \<Rightarrow> ((queue_op_status \<times> 'v option) \<times> 'q) option"
  qb_nonblocking_push :: "'v \<Rightarrow> 'q \<Rightarrow> (queue_op_status \<times> 'q) option"
  qb_nonblocking_pop :: "'q \<Rightarrow> ((queue_op_status \<times> 'v option) \<times> 'q) option"

subsection \<open>Pointers to queues\<close>

type_synonym addr = nat
type_synonym 'q store = "addr \<Rightarrow> 'q option"

definition deref :: "addr option \<Rightarrow> ('q \<Rightarrow> ('r \<times> 'q) option) \<Rightarrow> 'q store \<Rightarrow> ('r \<times> 'q store) option" where
  "deref p f st =
     (case p of
        None \<Rightarrow> None
      | Some a \<Rightarrow>
          (case st a of
             None \<Rightarrow> None
           | Some q \<Rightarrow> (case f q of None \<Rightarrow> None | Some (r, q') \<Rightarrow> Some (r, st(a \<mapsto> q')))))"

subsection \<open>queue\_wrapper\<close>

definition queue_wrapper :: "('v, 'q) queue_base \<Rightarrow> addr \<Rightarrow> ('v, 'q store) queue_base" where
  "queue_wrapper Q queue =
     \<lparr>qb_close = deref (Some queue) (qb_close Q),
      qb_is_closed = deref (Some queue) (qb_is_closed Q),
      qb_is_empty = deref (Some queue) (qb_is_empty Q),
      qb_is_full = deref (Some queue) (qb_is_full Q),
      qb_is_lock_free = deref (Some queue) (qb_is_lock_free Q),
      qb_push = (\<lambda>value. deref (Some queue) (qb_push Q value)),
      qb_value_pop = deref (Some queue) (qb_value_pop Q),
      qb_wait_push = (\<lambda>value. deref (Some queue) (qb_wait_push Q value)),
      qb_wait_pop = deref (Some queue) (qb_wait_pop Q),
      qb_try_push = (\<lambda>value. deref (Some queue) (qb_try_push Q value)),
      qb_try_pop = deref (Some queue) (qb_try_pop Q),
      qb_nonblocking_push = (\<lambda>value. deref (Some queue) (qb_nonblocking_push Q value)),
      qb_nonblocking_pop = deref (Some queue) (qb_nonblocking_pop Q)\<rparr>"

subsection \<open>generic\_queue\_back and generic\_queue\_front\<close>

record queue_back = back_queue :: "addr option"
record queue_front = front_queue :: "addr option"

definition back_close :: "('v, 'q) queue_base \<Rightarrow> queue_back \<Rightarrow> 'q store \<Rightarrow> (unit \<times> 'q store) option" where
  "back_close Q b = deref (back_queue b) (qb_close Q)"

definition back_is_closed :: "('v, 'q) queue_base \<Rightarrow> queue_back \<Rightarrow> 'q store \<Rightarrow> (bool \<times> 'q store) option" where
  "back_is_closed Q b = deref (back_queue b) (qb_is_closed Q)"

definition back_is_empty :: "('v, 'q) queue_base \<Rightarrow> queue_back \<Rightarrow> 'q store \<Rightarrow> (bool \<times> 'q store) option" where
  "back_is_empty Q b = deref (back_queue b) (qb_is_empty Q)"

definition back_is_full :: "('v, 'q) queue_base \<Rightarrow> queue_back \<Rightarrow> 'q store \<Rightarrow> (bool \<times> 'q store) option" where
  "back_is_full Q b = deref (back_queue b) (qb_is_full Q)"

definition back_is_lock_free :: "('v, 'q) queue_base \<Rightarrow> queue_back \<Rightarrow> 'q store \<Rightarrow> (bool \<times> 'q store) option" where
  "back_is_lock_free Q b = deref (back_queue b) (qb_is_lock_free Q)"

definition back_has_queue :: "queue_back \<Rightarrow> bool" where
  "back_has_queue b \<longleftrightarrow> back_queue b \<noteq> None"

definition back_push ::
  "('v, 'q) queue_base \<Rightarrow> queue_back \<Rightarrow> 'v \<Rightarrow> 'q store \<Rightarrow> ((queue_op_status + unit) \<times> 'q store) option" where
  "back_push Q b value = deref (back_queue b) (qb_push Q value)"

definition back_wait_push ::
  "('v, 'q) queue_base \<Rightarrow> queue_back \<Rightarrow> 'v \<Rightarrow> 'q store \<Rightarrow> (queue_op_status \<times> 'q store) option" where
  "back_wait_push Q b value = deref (back_queue b) (qb_wait_push Q value)"

definition back_try_push ::
  "('v, 'q) queue_base \<Rightarrow> queue_back \<Rightarrow> 'v \<Rightarrow> 'q store \<Rightarrow> (queue_op_status \<times> 'q store) option" where
  "back_try_push Q b value = deref (back_queue b) (qb_try_push Q value)"

definition back_nonblocking_push ::
  "('v, 'q) queue_base \<Rightarrow> queue_back \<Rightarrow> 'v \<Rightarrow> 'q store \<Rightarrow> (queue_op_status \<times> 'q store) option" where
  "back_nonblocking_push Q b value = deref (back_queue b) (qb_nonblocking_push Q value)"

definition front_close :: "('v, 'q) queue_base \<Rightarrow> queue_front \<Rightarrow> 'q store \<Rightarrow> (unit \<times> 'q store) option" where
  "front_close Q f = deref (front_queue f) (qb_close Q)"

definition front_is_closed :: "('v, 'q) queue_base \<Rightarrow> queue_front \<Rightarrow> 'q store \<Rightarrow> (bool \<times> 'q store) option" where
  "front_is_closed Q f = deref (front_queue f) (qb_is_closed Q)"

definition front_is_empty :: "('v, 'q) queue_base \<Rightarrow> queue_front \<Rightarrow> 'q store \<Rightarrow> (bool \<times> 'q store) option" where
  "front_is_empty Q f = deref (front_queue f) (qb_is_empty Q)"

definition front_is_full :: "('v, 'q) queue_base \<Rightarrow> queue_front \<Rightarrow> 'q store \<Rightarrow> (bool \<times> 'q store) option" where
  "front_is_full Q f = deref (front_queue f) (qb_is_full Q)"

definition front_is_lock_free :: "('v, 'q) queue_base \<Rightarrow> queue_front \<Rightarrow> 'q store \<Rightarrow> (bool \<times> 'q store) option" where
  "front_is_lock_free Q f = deref (front_queue f) (qb_is_lock_free Q)"

definition front_has_queue :: "queue_front \<Rightarrow> bool" where
  "front_has_queue f \<longleftrightarrow> front_queue f \<noteq> None"

definition front_value_pop ::
  "('v, 'q) queue_base \<Rightarrow> queue_front \<Rightarrow> 'q store \<Rightarrow> ((queue_op_status + 'v) \<times> 'q store) option" where
  "front_value_pop Q f = deref (front_queue f) (qb_value_pop Q)"

definition front_wait_pop ::
  "('v, 'q) queue_base \<Rightarrow> queue_front \<Rightarrow> 'q store \<Rightarrow> ((queue_op_status \<times> 'v option) \<times> 'q store) option" where
  "front_wait_pop Q f = deref (front_queue f) (qb_wait_pop Q)"

definition front_try_pop ::
  "('v, 'q) queue_base \<Rightarrow> queue_front \<Rightarrow> 'q store \<Rightarrow> ((queue_op_status \<times> 'v option) \<times> 'q store) option" where
  "front_try_pop Q f = deref (front_queue f) (qb_try_pop Q)"

definition front_nonblocking_pop ::
  "('v, 'q) queue_base \<Rightarrow> queue_front \<Rightarrow> 'q store \<Rightarrow> ((queue_op_status \<times> 'v option) \<times> 'q store) option" where
  "front_nonblocking_pop Q f = deref (front_queue f) (qb_nonblocking_pop Q)"

subsection \<open>queue\_input\_iterator\<close>

record 'v input_iterator =
  in_queue :: "addr option"
  in_value :: 'v

text \<open>The default-constructed iterator, which marks the end.\<close>

definition input_end :: "'v \<Rightarrow> 'v input_iterator" where
  "input_end v0 = \<lparr>in_queue = None, in_value = v0\<rparr>"

definition input_pop_value ::
  "('v, 'q) queue_base \<Rightarrow> 'v input_iterator \<Rightarrow> 'q store \<Rightarrow> ('v input_iterator \<times> 'q store) option" where
  "input_pop_value Q it st =
     (case deref (in_queue it) (qb_wait_pop Q) st of
        None \<Rightarrow> None
      | Some ((status, v), st') \<Rightarrow>
          (let it' = (case v of None \<Rightarrow> it | Some x \<Rightarrow> it\<lparr>in_value := x\<rparr>) in
           Some (if status = St_closed then it'\<lparr>in_queue := None\<rparr> else it', st')))"

definition input_begin ::
  "('v, 'q) queue_base \<Rightarrow> 'v \<Rightarrow> addr \<Rightarrow> 'q store \<Rightarrow> ('v input_iterator \<times> 'q store) option" where
  "input_begin Q v0 queue st = input_pop_value Q \<lparr>in_queue = Some queue, in_value = v0\<rparr> st"

definition input_preinc ::
  "('v, 'q) queue_base \<Rightarrow> 'v input_iterator \<Rightarrow> 'q store \<Rightarrow> ('v input_iterator \<times> 'q store) option" where
  "input_preinc Q it st = input_pop_value Q it st"

text \<open>\<open>it++\<close> returns the old iterator.\<close>

definition input_postinc ::
  "('v, 'q) queue_base \<Rightarrow> 'v input_iterator \<Rightarrow> 'q store \<Rightarrow> ('v input_iterator \<times> 'v input_iterator \<times> 'q store) option" where
  "input_postinc Q it st =
     (case input_pop_value Q it st of None \<Rightarrow> None | Some (it', st') \<Rightarrow> Some (it, it', st'))"

definition input_deref :: "'v input_iterator \<Rightarrow> 'v" where
  "input_deref it = in_value it"

definition input_eq :: "'v input_iterator \<Rightarrow> 'v input_iterator \<Rightarrow> bool" where
  "input_eq a b \<longleftrightarrow> in_queue a = in_queue b"

subsection \<open>queue\_output\_iterator\<close>

record output_iterator = out_queue :: "addr option"

definition output_begin :: "addr \<Rightarrow> output_iterator" where
  "output_begin queue = \<lparr>out_queue = Some queue\<rparr>"

definition output_end :: output_iterator where
  "output_end = \<lparr>out_queue = None\<rparr>"

text \<open>The assignment of a value returns the thrown status or nothing; \<open>*\<close> and \<open>++\<close> do nothing.\<close>

definition output_assign ::
  "('v, 'q) queue_base \<Rightarrow> output_iterator \<Rightarrow> 'v \<Rightarrow> 'q store \<Rightarrow>
   ((queue_op_status + unit) \<times> output_iterator \<times> 'q store) option" where
  "output_assign Q it value st =
     (case deref (out_queue it) (qb_wait_push Q value) st of
        None \<Rightarrow> None
      | Some (status, st') \<Rightarrow>
          Some (if status \<noteq> St_success then (Inl status, it\<lparr>out_queue := None\<rparr>, st') else (Inr (), it, st')))"

definition output_eq :: "output_iterator \<Rightarrow> output_iterator \<Rightarrow> bool" where
  "output_eq a b \<longleftrightarrow> out_queue a = out_queue b"

subsection \<open>Copying to and from a queue\<close>

text \<open>
  What the algorithms of the standard library do with the iterators: \<open>*out++ = v\<close> for each value
  of a range, up to the first exception, and the loop from an iterator to the end iterator.
\<close>

fun copy_to ::
  "('v, 'q) queue_base \<Rightarrow> output_iterator \<Rightarrow> 'v list \<Rightarrow> 'q store \<Rightarrow>
   ((queue_op_status + unit) \<times> output_iterator \<times> 'q store) option" where
  "copy_to Q it [] st = Some (Inr (), it, st)"
| "copy_to Q it (v # vs) st =
     (case output_assign Q it v st of
        None \<Rightarrow> None
      | Some (Inl e, it', st') \<Rightarrow> Some (Inl e, it', st')
      | Some (Inr u, it', st') \<Rightarrow> copy_to Q it' vs st')"

partial_function (option) copy_from ::
  "('v, 'q) queue_base \<Rightarrow> 'v \<Rightarrow> 'v input_iterator \<Rightarrow> 'q store \<Rightarrow> ('v list \<times> 'q store) option" where
  "copy_from Q v0 it st =
     (if input_eq it (input_end v0) then Some ([], st)
      else Option.bind (input_preinc Q it st) (\<lambda>(it', st').
           Option.bind (copy_from Q v0 it' st') (\<lambda>(vs, st''). Some (input_deref it # vs, st''))))"

subsection \<open>The contract of a queue\<close>

text \<open>
  What the waiting operations of a queue promise to a thread that runs alone: the queue is in a
  state in which no call is under way (\<open>ready\<close>), and then it acts as a list with a closed flag.
  Nothing is promised for a pop from an empty open queue, which blocks.
\<close>

locale fifo_queue =
  fixes Q :: "('v, 'q) queue_base"
    and ready :: "'q \<Rightarrow> bool"
    and contents :: "'q \<Rightarrow> 'v list"
    and closed :: "'q \<Rightarrow> bool"
  assumes push_open: "ready q \<Longrightarrow> \<not> closed q \<Longrightarrow>
      \<exists>q'. qb_wait_push Q v q = Some (St_success, q') \<and> ready q' \<and> contents q' = contents q @ [v] \<and> \<not> closed q'"
    and push_closed: "ready q \<Longrightarrow> closed q \<Longrightarrow>
      \<exists>q'. qb_wait_push Q v q = Some (St_closed, q') \<and> ready q' \<and> contents q' = contents q \<and> closed q'"
    and pop_value: "ready q \<Longrightarrow> contents q = v # vs \<Longrightarrow>
      \<exists>q'. qb_wait_pop Q q = Some ((St_success, Some v), q') \<and> ready q' \<and> contents q' = vs \<and> closed q' = closed q"
    and pop_closed: "ready q \<Longrightarrow> contents q = [] \<Longrightarrow> closed q \<Longrightarrow>
      \<exists>q'. qb_wait_pop Q q = Some ((St_closed, None), q') \<and> ready q' \<and> contents q' = [] \<and> closed q'"
    and close_law: "ready q \<Longrightarrow>
      \<exists>q'. qb_close Q q = Some ((), q') \<and> ready q' \<and> contents q' = contents q \<and> closed q'"
begin

text \<open>The same contract at an address of a store.\<close>

definition at_ready :: "addr \<Rightarrow> 'q store \<Rightarrow> bool" where
  "at_ready a st \<longleftrightarrow> (\<exists>q. st a = Some q \<and> ready q)"

lemma wrapper_fifo:
  "fifo_queue (queue_wrapper Q a) (at_ready a) (\<lambda>st. contents (the (st a))) (\<lambda>st. closed (the (st a)))"
proof
  fix st v vs
  assume r: "at_ready a st"
  then obtain q where q: "st a = Some q" "ready q" by (auto simp: at_ready_def)
  show "\<not> closed (the (st a)) \<Longrightarrow> \<exists>st'. qb_wait_push (queue_wrapper Q a) v st = Some (St_success, st') \<and>
      at_ready a st' \<and> contents (the (st' a)) = contents (the (st a)) @ [v] \<and> \<not> closed (the (st' a))"
    using push_open[OF q(2), of v] q by (force simp: queue_wrapper_def at_ready_def deref_def)
  show "closed (the (st a)) \<Longrightarrow> \<exists>st'. qb_wait_push (queue_wrapper Q a) v st = Some (St_closed, st') \<and>
      at_ready a st' \<and> contents (the (st' a)) = contents (the (st a)) \<and> closed (the (st' a))"
    using push_closed[OF q(2), of v] q by (force simp: queue_wrapper_def at_ready_def deref_def)
  show "contents (the (st a)) = v # vs \<Longrightarrow>
      \<exists>st'. qb_wait_pop (queue_wrapper Q a) st = Some ((St_success, Some v), st') \<and>
      at_ready a st' \<and> contents (the (st' a)) = vs \<and> closed (the (st' a)) = closed (the (st a))"
    using pop_value[OF q(2), of v vs] q by (force simp: queue_wrapper_def at_ready_def deref_def)
  show "contents (the (st a)) = [] \<Longrightarrow> closed (the (st a)) \<Longrightarrow>
      \<exists>st'. qb_wait_pop (queue_wrapper Q a) st = Some ((St_closed, None), st') \<and>
      at_ready a st' \<and> contents (the (st' a)) = [] \<and> closed (the (st' a))"
    using pop_closed[OF q(2)] q by (force simp: queue_wrapper_def at_ready_def deref_def)
  show "\<exists>st'. qb_close (queue_wrapper Q a) st = Some ((), st') \<and>
      at_ready a st' \<and> contents (the (st' a)) = contents (the (st a)) \<and> closed (the (st' a))"
    using close_law[OF q(2)] q by (force simp: queue_wrapper_def at_ready_def deref_def)
qed

lemma copy_to_open:
  assumes "st a = Some q" "ready q" "\<not> closed q"
  shows "\<exists>q'. copy_to Q (output_begin a) vs st = Some (Inr (), output_begin a, st(a \<mapsto> q')) \<and>
    ready q' \<and> contents q' = contents q @ vs \<and> \<not> closed q'"
  using assms
proof (induction vs arbitrary: st q)
  case Nil
  then show ?case by (intro exI[of _ q]) (simp add: fun_upd_idem)
next
  case (Cons v vs)
  obtain q1 where q1: "qb_wait_push Q v q = Some (St_success, q1)" "ready q1"
      "contents q1 = contents q @ [v]" "\<not> closed q1"
    using push_open[OF Cons.prems(2,3)] by blast
  obtain q' where "copy_to Q (output_begin a) vs (st(a \<mapsto> q1)) = Some (Inr (), output_begin a, st(a \<mapsto> q'))"
      "ready q'" "contents q' = contents q @ v # vs" "\<not> closed q'"
    using Cons.IH[of "st(a \<mapsto> q1)" q1] q1(2-4) by (auto simp del: fun_upd_apply simp: fun_upd_same)
  then show ?case using Cons.prems(1) q1(1)
    by (intro exI[of _ q']) (simp add: output_assign_def output_begin_def deref_def fun_upd_def)
qed

text \<open>A closed queue makes the iterator equal to the end iterator and throws \<open>closed\<close>.\<close>

lemma output_assign_closed:
  assumes "st a = Some q" "ready q" "closed q"
  shows "\<exists>q'. output_assign Q (output_begin a) v st = Some (Inl St_closed, output_end, st(a \<mapsto> q')) \<and>
    ready q' \<and> contents q' = contents q \<and> closed q'"
  using push_closed[OF assms(2,3), of v] assms(1)
  by (auto simp: output_assign_def output_begin_def output_end_def deref_def)

lemma pop_step:
  assumes "st a = Some q" "ready q" "closed q"
  shows "\<exists>q'. input_pop_value Q \<lparr>in_queue = Some a, in_value = u\<rparr> st =
      Some (case contents q of [] \<Rightarrow> \<lparr>in_queue = None, in_value = u\<rparr> | v # _ \<Rightarrow> \<lparr>in_queue = Some a, in_value = v\<rparr>,
            st(a \<mapsto> q')) \<and> ready q' \<and> contents q' = tl (contents q) \<and> closed q'"
proof (cases "contents q")
  case Nil
  then show ?thesis using pop_closed[OF assms(2) Nil assms(3)] assms(1)
    by (auto simp: input_pop_value_def deref_def)
next
  case (Cons v vs)
  then show ?thesis using pop_value[OF assms(2) Cons] assms(1,3)
    by (auto simp: input_pop_value_def deref_def)
qed

lemma copy_from_closed:
  assumes "st a = Some q" "ready q" "closed q"
  shows "\<exists>q'. copy_from Q v0 \<lparr>in_queue = Some a, in_value = u\<rparr> st = Some (u # contents q, st(a \<mapsto> q')) \<and>
    ready q' \<and> contents q' = [] \<and> closed q'"
  using assms
proof (induction "contents q" arbitrary: st q u)
  case Nil
  then obtain q1 where "input_pop_value Q \<lparr>in_queue = Some a, in_value = u\<rparr> st =
      Some (\<lparr>in_queue = None, in_value = u\<rparr>, st(a \<mapsto> q1))" "ready q1" "contents q1 = []" "closed q1"
    using pop_step[of st a q u] Nil by auto
  then show ?case using Nil.hyps
    by (subst copy_from.simps, subst copy_from.simps)
      (auto simp: input_eq_def input_end_def input_preinc_def input_deref_def)
next
  case (Cons v vs)
  obtain q1 where q1: "input_pop_value Q \<lparr>in_queue = Some a, in_value = u\<rparr> st =
      Some (\<lparr>in_queue = Some a, in_value = v\<rparr>, st(a \<mapsto> q1))" "ready q1" "contents q1 = vs" "closed q1"
    using pop_step[of st a q u] Cons.prems unfolding Cons.hyps(2)[symmetric] by auto
  then show ?case using Cons.hyps(1)[of q1 "st(a \<mapsto> q1)" v] Cons.hyps(2)
    by (subst copy_from.simps) (auto simp: input_eq_def input_end_def input_preinc_def input_deref_def)
qed

lemma copy_round_trip:
  assumes "st a = Some q" "ready q" "\<not> closed q" "contents q = []"
  shows "\<exists>st1 st2 it st3 st4.
    copy_to Q (output_begin a) vs st = Some (Inr (), output_begin a, st1) \<and>
    back_close Q \<lparr>back_queue = Some a\<rparr> st1 = Some ((), st2) \<and>
    input_begin Q v0 a st2 = Some (it, st3) \<and>
    copy_from Q v0 it st3 = Some (vs, st4)"
proof -
  obtain q1 where q1: "copy_to Q (output_begin a) vs st = Some (Inr (), output_begin a, st(a \<mapsto> q1))"
      "ready q1" "contents q1 = vs"
    using copy_to_open[of st a q vs] assms by auto
  obtain q2 where q2: "qb_close Q q1 = Some ((), q2)" "ready q2" "contents q2 = vs" "closed q2"
    using close_law[OF q1(2)] q1(3) by auto
  define st2 where "st2 = st(a \<mapsto> q2)"
  have at2: "st2 a = Some q2" by (simp add: st2_def)
  have cl: "back_close Q \<lparr>back_queue = Some a\<rparr> (st(a \<mapsto> q1)) = Some ((), st2)"
    by (simp add: back_close_def deref_def q2 st2_def)
  obtain q3 where q3: "input_begin Q v0 a st2 =
      Some (case vs of [] \<Rightarrow> \<lparr>in_queue = None, in_value = v0\<rparr> | v # _ \<Rightarrow> \<lparr>in_queue = Some a, in_value = v\<rparr>, st2(a \<mapsto> q3))"
      "ready q3" "contents q3 = tl vs" "closed q3"
    using pop_step[of st2 a q2 v0] at2 q2(2,4) by (auto simp: input_begin_def q2(3))
  have "\<exists>st4. copy_from Q v0 (case vs of [] \<Rightarrow> \<lparr>in_queue = None, in_value = v0\<rparr> | v # _ \<Rightarrow> \<lparr>in_queue = Some a, in_value = v\<rparr>)
      (st2(a \<mapsto> q3)) = Some (vs, st4)"
    using copy_from_closed[of "st2(a \<mapsto> q3)" a q3 v0] q3(2-4)
    by (cases vs) (auto simp: copy_from.simps[of _ _ "\<lparr>in_queue = None, in_value = v0\<rparr>"] input_eq_def input_end_def)
  with q1(1) cl q3(1) show ?thesis by blast
qed

end

end
