(* ===== verification/Evenk_Queue_Views.thy ===== *)
theory Evenk_Queue_Views
  imports Evenk_Queue_Access Evenk_Synch_Queue
begin

text \<open>
  The queue of \<^verbatim>\<open>evenk/synch_queue.h\<close> behind the interface, the wrapper and the iterators of
  \<^verbatim>\<open>evenk/conqueue.h\<close>.  A thread makes a call and runs alone until it returns; the steps are those
  of the machine of the queue, down to the futex words.
\<close>

subsection \<open>Calls that run to their end\<close>

definition alone :: "tid \<Rightarrow> ('v, 'b) sq_event" where
  "alone i = Sq_go i \<lparr>kn_woken = {}, kn_moved = {}, kn_spurious = False\<rparr> False"

fun sq_finish :: "('b \<Rightarrow> bool \<times> 'b) \<Rightarrow> tid \<Rightarrow> nat \<Rightarrow> ('v, 'b) sq_state \<Rightarrow> ('v sq_result \<times> ('v, 'b) sq_state) option" where
  "sq_finish bk i 0 s = None"
| "sq_finish bk i (Suc fuel) s =
     (case sq_pcs s i of
        SQ_Idle None \<Rightarrow> None
      | SQ_Idle (Some r) \<Rightarrow> Some (r, s)
      | _ \<Rightarrow> (case sq_step bk (alone i) s of None \<Rightarrow> None | Some s' \<Rightarrow> sq_finish bk i fuel s'))"

text \<open>Ten steps suffice for every call that does not block.\<close>

definition sq_do ::
  "('b \<Rightarrow> bool \<times> 'b) \<Rightarrow> tid \<Rightarrow> 'b \<Rightarrow> 'v sq_op \<Rightarrow> ('v, 'b) sq_state \<Rightarrow> ('v sq_result \<times> ('v, 'b) sq_state) option" where
  "sq_do bk i b op s =
     (case sq_step bk (Sq_call i op b) s of None \<Rightarrow> None | Some s' \<Rightarrow> sq_finish bk i 10 s')"

fun as_status :: "('v sq_result \<times> 's) option \<Rightarrow> (queue_op_status \<times> 's) option" where
  "as_status (Some (SR_status st v, s)) = Some (st, s)"
| "as_status _ = None"

fun as_pop :: "('v sq_result \<times> 's) option \<Rightarrow> ((queue_op_status \<times> 'v option) \<times> 's) option" where
  "as_pop (Some (SR_status st v, s)) = Some ((st, v), s)"
| "as_pop _ = None"

fun as_bool :: "('v sq_result \<times> 's) option \<Rightarrow> (bool \<times> 's) option" where
  "as_bool (Some (SR_bool c, s)) = Some (c, s)"
| "as_bool _ = None"

fun as_done :: "('v sq_result \<times> 's) option \<Rightarrow> (unit \<times> 's) option" where
  "as_done (Some (SR_done, s)) = Some ((), s)"
| "as_done _ = None"

text \<open>The operations of \<open>synch_queue\<close> as the wrapper calls them; \<open>v0\<close> is a default-constructed value.\<close>

definition synch_queue_ops ::
  "('b \<Rightarrow> bool \<times> 'b) \<Rightarrow> tid \<Rightarrow> 'b \<Rightarrow> 'v \<Rightarrow> ('v, ('v, 'b) sq_state) queue_base" where
  "synch_queue_ops bk i b v0 =
     \<lparr>qb_close = (\<lambda>s. as_done (sq_do bk i b Op_close s)),
      qb_is_closed = (\<lambda>s. as_bool (sq_do bk i b Op_is_closed s)),
      qb_is_empty = (\<lambda>s. as_bool (sq_do bk i b Op_is_empty s)),
      qb_is_full = (\<lambda>s. Some (sq_is_full s, s)),
      qb_is_lock_free = (\<lambda>s. Some (False, s)),
      qb_push = (\<lambda>v s. map_option (map_prod sq_push_basic id) (as_status (sq_do bk i b (Op_push v) s))),
      qb_value_pop = (\<lambda>s. map_option (map_prod (\<lambda>(st, v). sq_value_pop st (case v of None \<Rightarrow> v0 | Some x \<Rightarrow> x)) id)
                          (as_pop (sq_do bk i b Op_pop s))),
      qb_wait_push = (\<lambda>v s. as_status (sq_do bk i b (Op_push v) s)),
      qb_wait_pop = (\<lambda>s. as_pop (sq_do bk i b Op_pop s)),
      qb_try_push = (\<lambda>v s. as_status (sq_do bk i b (Op_push v) s)),
      qb_try_pop = (\<lambda>s. as_pop (sq_do bk i b Op_try_pop s)),
      qb_nonblocking_push = (\<lambda>v s. as_status (sq_do bk i b (Op_nb_push v) s)),
      qb_nonblocking_pop = (\<lambda>s. as_pop (sq_do bk i b Op_nb_pop s))\<rparr>"

subsection \<open>The queue meets the contract\<close>

definition sq_quiet :: "('v, 'b) sq_state \<Rightarrow> bool" where
  "sq_quiet s \<longleftrightarrow>
     lk_futex (sq_sync s) = 0 \<and> cv_count (sq_sync s) = 0 \<and>
     (\<forall>i. sy_pcs (sq_sync s) i = L_Idle \<and> sq_idle (sq_pcs s i))"

lemmas sq_call_simps = sq_do_def alone_def sync_part_def sync_call_def notify_call_def lock_cas_def unlock_sub_def
  returned_def numeral_eq_Suc

lemma call_starts:
  assumes "sq_quiet s"
  shows "sy_pcs (sq_sync s) i = L_Idle" "sq_idle (sq_pcs s i)" "lk_futex (sq_sync s) = 0" "cv_count (sq_sync s) = 0"
  using assms by (simp_all add: sq_quiet_def)

lemma do_push:
  assumes "sq_quiet s"
  shows "\<exists>s'. sq_do bk i b (Op_push v) s =
      Some (SR_status (if sq_closed s then St_closed else St_success) None, s') \<and>
    sq_quiet s' \<and> sq_queue s' = (if sq_closed s then sq_queue s else sq_queue s @ [v]) \<and> sq_closed s' = sq_closed s"
  using call_starts(1,2)[OF assms, of i] call_starts(3,4)[OF assms] assms
  by (cases "sq_closed s") (simp_all add: sq_call_simps sq_quiet_def)

lemma do_pop:
  assumes "sq_quiet s" and "sq_queue s \<noteq> [] \<or> sq_closed s"
  shows "\<exists>s'. sq_do bk i b Op_pop s =
      Some (case sq_queue s of [] \<Rightarrow> SR_status St_closed None | v # _ \<Rightarrow> SR_status St_success (Some v), s') \<and>
    sq_quiet s' \<and> sq_queue s' = tl (sq_queue s) \<and> sq_closed s' = sq_closed s"
  using call_starts(1,2)[OF assms(1), of i] call_starts(3,4)[OF assms(1)] assms
  by (cases "sq_queue s") (simp_all add: sq_call_simps sq_quiet_def)

lemma do_close:
  assumes "sq_quiet s"
  shows "\<exists>s'. sq_do bk i b Op_close s = Some (SR_done, s') \<and>
    sq_quiet s' \<and> sq_queue s' = sq_queue s \<and> sq_closed s'"
  using call_starts(1,2)[OF assms, of i] call_starts(3,4)[OF assms] assms
  by (simp add: sq_call_simps sq_quiet_def)

interpretation sq_fifo: fifo_queue "synch_queue_ops bk i b v0" sq_quiet sq_queue sq_closed
proof
  fix s :: "('b, 'a) sq_state" and v vs
  assume q: "sq_quiet s"
  show "\<not> sq_closed s \<Longrightarrow> \<exists>s'. qb_wait_push (synch_queue_ops bk i b v0) v s = Some (St_success, s') \<and>
      sq_quiet s' \<and> sq_queue s' = sq_queue s @ [v] \<and> \<not> sq_closed s'"
    and "sq_closed s \<Longrightarrow> \<exists>s'. qb_wait_push (synch_queue_ops bk i b v0) v s = Some (St_closed, s') \<and>
      sq_quiet s' \<and> sq_queue s' = sq_queue s \<and> sq_closed s'"
    using do_push[OF q, of bk i b v] by (auto simp: synch_queue_ops_def)
  show "sq_queue s = v # vs \<Longrightarrow> \<exists>s'. qb_wait_pop (synch_queue_ops bk i b v0) s = Some ((St_success, Some v), s') \<and>
      sq_quiet s' \<and> sq_queue s' = vs \<and> sq_closed s' = sq_closed s"
    and "sq_queue s = [] \<Longrightarrow> sq_closed s \<Longrightarrow> \<exists>s'. qb_wait_pop (synch_queue_ops bk i b v0) s = Some ((St_closed, None), s') \<and>
      sq_quiet s' \<and> sq_queue s' = [] \<and> sq_closed s'"
    using do_pop[OF q, of bk i b] by (auto simp: synch_queue_ops_def)
  show "\<exists>s'. qb_close (synch_queue_ops bk i b v0) s = Some ((), s') \<and>
      sq_quiet s' \<and> sq_queue s' = sq_queue s \<and> sq_closed s'"
    using do_close[OF q, of bk i b] by (auto simp: synch_queue_ops_def)
qed

text \<open>A wrapper keeps the contract, so that what holds for the iterators holds through it.\<close>

interpretation wrapped: fifo_queue "queue_wrapper (synch_queue_ops bk i b v0) a" "sq_fifo.at_ready a"
    "\<lambda>st. sq_queue (the (st a))" "\<lambda>st. sq_closed (the (st a))"
  by (rule sq_fifo.wrapper_fifo)

subsection \<open>Round trip through the iterators\<close>

text \<open>
  C9: values written through an output iterator to an empty open queue, which is then closed
  through a back view, are what the loop of an input iterator reads, in the same order, and that
  loop ends.  The iterators are those of a queue behind a wrapper: the calls go through two
  pointers to the \<open>synch_queue\<close>.
\<close>

theorem queue_iterators_round_trip:
  fixes sq :: "('v, 'b) sq_state" and wrapper queue :: addr
  assumes "sq_quiet sq" and "\<not> sq_closed sq" and "sq_queue sq = []" and "inner queue = Some sq" and "st wrapper = Some inner"
  shows "let Q = queue_wrapper (synch_queue_ops bk i b v0) queue in \<exists>st1 st2 it st3 st4.
    copy_to Q (output_begin wrapper) vs st = Some (Inr (), output_begin wrapper, st1) \<and>
    back_close Q \<lparr>back_queue = Some wrapper\<rparr> st1 = Some ((), st2) \<and>
    input_begin Q v0 wrapper st2 = Some (it, st3) \<and>
    copy_from Q v0 it st3 = Some (vs, st4)"
  unfolding Let_def by (rule wrapped.copy_round_trip[where q = inner]) (use assms in \<open>auto simp: sq_fifo.at_ready_def\<close>)

text \<open>C9: the same for three values and the initial queue.\<close>

theorem queue_iterators_round_trip_witness:
  "let Q = queue_wrapper (synch_queue_ops (\<lambda>b. (True, b)) 0 () 0) 5 in
     (\<exists>st1 st2 it st3 st4.
      copy_to Q (output_begin 9) [3, 1, 2 :: nat] (\<lambda>a. if a = 9 then Some [5 \<mapsto> sq_init] else None) =
        Some (Inr (), output_begin 9, st1) \<and>
      back_close Q \<lparr>back_queue = Some 9\<rparr> st1 = Some ((), st2) \<and>
      input_begin Q 0 9 st2 = Some (it, st3) \<and>
      copy_from Q 0 it st3 = Some ([3, 1, 2], st4))"
  using queue_iterators_round_trip[of sq_init "[5 \<mapsto> sq_init]" 5 "\<lambda>a. if a = 9 then Some [5 \<mapsto> sq_init] else None" 9
      "\<lambda>b. (True, b)" 0 "()" 0 "[3, 1, 2 :: nat]"]
  by (simp add: sq_quiet_def sq_init_def sync_init_def Let_def)

end
