(* ===== verification/Evenk_Task.thy ===== *)
theory Evenk_Task
  imports Evenk_Prelude
begin

unbundle bit_operations_syntax

text \<open>
  \<^verbatim>\<open>evenk/task.h\<close>: tasks hold a callable object, their target, in a reserved buffer or in an
  allocated block.

  Targets have a class \<open>'k\<close>, which stands for the template argument of the functions that handle
  the target, and a value \<open>'c\<close>.  The buffer and the blocks say which object lives in them; using
  an object that is not there, calling a null function pointer or returning a block to the wrong
  allocator is \<open>Undefined\<close>.  An exception that leaves a \<open>noexcept\<close> function terminates the program.
  The size of a class, the behaviour of its objects and the allocator are parameters.
\<close>

subsection \<open>Sizes\<close>

definition fptr_size :: "64 word" where
  "fptr_size = 8"

definition fptr_align :: "64 word" where
  "fptr_align = 8"

definition task_memory_size :: "64 word \<Rightarrow> 64 word" where
  "task_memory_size sz = max ((sz + fptr_align - 1) AND NOT (fptr_align - 1)) fptr_size"

subsection \<open>Memory\<close>

type_synonym block_addr = nat

datatype ('k, 'c) buffer =
    Raw                        \<comment> \<open>no object, no pointer\<close>
  | Obj 'k 'c                  \<comment> \<open>a target in place\<close>
  | Ptr "block_addr option"          \<comment> \<open>a pointer to a block\<close>

record ('k, 'c, 'a) block =
  bl_alloc :: 'a
  bl_size :: "64 word"
  bl_object :: "('k \<times> 'c) option"

type_synonym ('k, 'c, 'a) heap = "block_addr \<Rightarrow> ('k, 'c, 'a) block option"

datatype task_exn = Bad_function_call | Task_bad_alloc | Target_threw

datatype ('x, 'h) eff = Return 'x 'h | Throw task_exn 'h | Undefined | Terminate

fun bind_eff :: "('x, 'h) eff \<Rightarrow> ('x \<Rightarrow> 'h \<Rightarrow> ('y, 'h) eff) \<Rightarrow> ('y, 'h) eff" where
  "bind_eff (Return x h) f = f x h"
| "bind_eff (Throw e h) f = Throw e h"
| "bind_eff Undefined f = Undefined"
| "bind_eff Terminate f = Terminate"

fun no_throw :: "('x, 'h) eff \<Rightarrow> ('x, 'h) eff" where
  "no_throw (Throw e h) = Terminate"
| "no_throw r = r"

text \<open>
  What is known of the targets and the allocator: \<open>sizeof\<close>, the move constructor (\<open>None\<close> if it
  throws), \<open>operator()\<close> (the result, \<open>None\<close> if it throws, and the new value) and when memory of one
  allocator can be returned to another.
\<close>

record ('k, 'c, 'a, 'r) targets =
  tg_sizeof :: "'k \<Rightarrow> 64 word"
  tg_move :: "'k \<Rightarrow> 'c \<Rightarrow> 'c option"
  tg_call :: "'k \<Rightarrow> 'c \<Rightarrow> 'r option \<times> 'c"
  tg_alloc_eq :: "'a \<Rightarrow> 'a \<Rightarrow> bool"
  tg_alloc0 :: 'a
  tg_memory_size :: "64 word"

subsection \<open>trivial\_task\<close>

datatype 'k invoke_fn = Null_fn | Invalid_invoke | Invoke 'k

record ('k, 'c) trivial_task =
  tk_memory :: "('k, 'c) buffer"
  tk_invoke :: "'k invoke_fn"

definition trivial_task_empty :: "('k, 'c) trivial_task" where
  "trivial_task_empty = \<lparr>tk_memory = Raw, tk_invoke = Null_fn\<rparr>"

text \<open>The constructor does not compile (\<open>None\<close>) if the target is larger than the buffer.\<close>

definition trivial_task_ctor :: "('k, 'c, 'a, 'r) targets \<Rightarrow> 'k \<Rightarrow> 'c \<Rightarrow> ('k, 'c) trivial_task option" where
  "trivial_task_ctor T k c =
     (if tg_sizeof T k \<le> tg_memory_size T then Some \<lparr>tk_memory = Obj k c, tk_invoke = Invoke k\<rparr> else None)"

definition trivial_task_swap ::
  "('k, 'c) trivial_task \<Rightarrow> ('k, 'c) trivial_task \<Rightarrow> ('k, 'c) trivial_task \<times> ('k, 'c) trivial_task" where
  "trivial_task_swap this other =
     (this\<lparr>tk_invoke := tk_invoke other, tk_memory := tk_memory other\<rparr>,
      other\<lparr>tk_invoke := tk_invoke this, tk_memory := tk_memory this\<rparr>)"

text \<open>The move constructor and the move assignment return the object and what is left of \<open>other\<close>.\<close>

definition trivial_task_move ::
  "('k, 'c) trivial_task \<Rightarrow> ('k, 'c) trivial_task \<times> ('k, 'c) trivial_task" where
  "trivial_task_move other = (let (other', this) = trivial_task_swap other trivial_task_empty in (this, other'))"

definition trivial_task_assign ::
  "('k, 'c) trivial_task \<Rightarrow> ('k, 'c) trivial_task \<Rightarrow> ('k, 'c) trivial_task \<times> ('k, 'c) trivial_task" where
  "trivial_task_assign this other =
     (let (temp, other') = trivial_task_move other;
          (temp', this') = trivial_task_swap temp this
      in (this', other'))"

definition trivial_task_bool :: "('k, 'c) trivial_task \<Rightarrow> bool" where
  "trivial_task_bool this \<longleftrightarrow> tk_invoke this \<noteq> Null_fn"

fun trivial_task_invoke ::
  "('k, 'c, 'a, 'r) targets \<Rightarrow> 'k \<Rightarrow> ('k, 'c) buffer \<Rightarrow> ('r option \<times> ('k, 'c) buffer) option" where
  "trivial_task_invoke T k (Obj k' c) =
     (if k' = k then (let (r, c') = tg_call T k c in Some (r, Obj k c')) else None)"
| "trivial_task_invoke T k _ = None"

fun trivial_task_call ::
  "('k, 'c, 'a, 'r) targets \<Rightarrow> ('k, 'c) trivial_task \<Rightarrow> ('r, ('k, 'c) trivial_task) eff" where
  "trivial_task_call T this =
     (case tk_invoke this of
        Null_fn \<Rightarrow> Undefined
      | Invalid_invoke \<Rightarrow> Throw Bad_function_call this
      | Invoke k \<Rightarrow>
          (case trivial_task_invoke T k (tk_memory this) of
             None \<Rightarrow> Undefined
           | Some (r, m) \<Rightarrow>
               (case r of
                  None \<Rightarrow> Throw Target_threw (this\<lparr>tk_memory := m\<rparr>)
                | Some x \<Rightarrow> Return x (this\<lparr>tk_memory := m\<rparr>))))"

subsection \<open>Adapters\<close>

text \<open>\<open>task_adapter\<close>: whether a class of targets is kept in place.\<close>

definition task_adapter :: "('k, 'c, 'a, 'r) targets \<Rightarrow> 'k \<Rightarrow> bool" where
  "task_adapter T k \<longleftrightarrow> tg_sizeof T k \<le> tg_memory_size T"

text \<open>\<open>adapter.get\<close> and the access to the target there; a write of the target, \<open>None\<close> to destroy it.\<close>

definition adapter_target :: "bool \<Rightarrow> ('k, 'c) buffer \<Rightarrow> ('k, 'c, 'a) heap \<Rightarrow> ('k \<times> 'c) option" where
  "adapter_target small m h =
     (case m of
        Raw \<Rightarrow> None
      | Obj k c \<Rightarrow> if small then Some (k, c) else None
      | Ptr p \<Rightarrow>
          if small then None
          else (case p of None \<Rightarrow> None | Some a \<Rightarrow> (case h a of None \<Rightarrow> None | Some b \<Rightarrow> bl_object b)))"

definition adapter_put ::
  "bool \<Rightarrow> ('k \<times> 'c) option \<Rightarrow> ('k, 'c) buffer \<Rightarrow> ('k, 'c, 'a) heap \<Rightarrow> (('k, 'c) buffer \<times> ('k, 'c, 'a) heap) option" where
  "adapter_put small x m h =
     (if small then Some (case x of None \<Rightarrow> Raw | Some (k, c) \<Rightarrow> Obj k c, h)
      else (case m of
              Ptr (Some a) \<Rightarrow>
                (case h a of None \<Rightarrow> None | Some b \<Rightarrow> Some (m, h(a \<mapsto> b\<lparr>bl_object := x\<rparr>)))
            | _ \<Rightarrow> None))"

text \<open>\<open>adapter.move\<close>, for the new and the other buffer.\<close>

definition adapter_move ::
  "('k, 'c, 'a, 'r) targets \<Rightarrow> 'k \<Rightarrow> ('k, 'c) buffer \<Rightarrow> ('k, 'c, 'a) heap \<Rightarrow>
   (('k, 'c) buffer \<times> ('k, 'c) buffer, ('k, 'c, 'a) heap) eff" where
  "adapter_move T k other h =
     (if task_adapter T k
      then (case other of
              Obj k' c \<Rightarrow>
                if k' = k then (case tg_move T k c of None \<Rightarrow> Throw Target_threw h | Some c' \<Rightarrow> Return (Obj k c', Raw) h)
                else Undefined
            | _ \<Rightarrow> Undefined)
      else (case other of Ptr p \<Rightarrow> Return (Ptr p, Ptr None) h | _ \<Rightarrow> Undefined))"

text \<open>\<open>adapter.allocate\<close>; the answer of the allocator is an address, or \<open>None\<close> for an exception.\<close>

definition adapter_allocate ::
  "('k, 'c, 'a, 'r) targets \<Rightarrow> 'k \<Rightarrow> ('k, 'c) buffer \<Rightarrow> 'a \<Rightarrow> block_addr option \<Rightarrow> ('k, 'c, 'a) heap \<Rightarrow>
   (('k, 'c) buffer, ('k, 'c, 'a) heap) eff" where
  "adapter_allocate T k m al answer h =
     (if task_adapter T k then Return m h
      else (case answer of
              None \<Rightarrow> Throw Task_bad_alloc h
            | Some a \<Rightarrow> Return (Ptr (Some a)) (h(a \<mapsto> \<lparr>bl_alloc = al, bl_size = tg_sizeof T k, bl_object = None\<rparr>))))"

definition adapter_deallocate ::
  "('k, 'c, 'a, 'r) targets \<Rightarrow> 'k \<Rightarrow> ('k, 'c) buffer \<Rightarrow> 'a \<Rightarrow> ('k, 'c, 'a) heap \<Rightarrow> (unit, ('k, 'c, 'a) heap) eff" where
  "adapter_deallocate T k m al h =
     (if task_adapter T k then Return () h
      else (case m of
              Ptr (Some a) \<Rightarrow>
                (case h a of
                   None \<Rightarrow> Undefined
                 | Some b \<Rightarrow>
                     if tg_alloc_eq T (bl_alloc b) al \<and> bl_size b = tg_sizeof T k then Return () (h(a := None))
                     else Undefined)
            | _ \<Rightarrow> Undefined))"

subsection \<open>task\<close>

record ('k, 'c, 'a) task = "('k, 'c) trivial_task" +
  tk_allocator :: 'a
  tk_helper :: "'k option"

definition task_empty :: "('k, 'c, 'a, 'r) targets \<Rightarrow> ('k, 'c, 'a) task" where
  "task_empty T = \<lparr>tk_memory = Raw, tk_invoke = Invalid_invoke, tk_allocator = tg_alloc0 T, tk_helper = None\<rparr>"

text \<open>\<open>callable\<close> is the value from which the target is built, \<open>None\<close> if its constructor throws.\<close>

definition task_ctor ::
  "('k, 'c, 'a, 'r) targets \<Rightarrow> 'k \<Rightarrow> 'c option \<Rightarrow> 'a \<Rightarrow> block_addr option \<Rightarrow> ('k, 'c, 'a) heap \<Rightarrow>
   (('k, 'c, 'a) task, ('k, 'c, 'a) heap) eff" where
  "task_ctor T k callable al answer h =
     bind_eff (adapter_allocate T k Raw al answer h) (\<lambda>m h.
       case callable of
         None \<Rightarrow> Throw Target_threw h
       | Some c \<Rightarrow>
           (case adapter_put (task_adapter T k) (Some (k, c)) m h of
              None \<Rightarrow> Undefined
            | Some (m, h) \<Rightarrow>
                Return \<lparr>tk_memory = m, tk_invoke = Invoke k, tk_allocator = al, tk_helper = Some k\<rparr> h))"

definition task_bool :: "('k, 'c, 'a) task \<Rightarrow> bool" where
  "task_bool this \<longleftrightarrow> tk_helper this \<noteq> None"

text \<open>\<open>helper\<close> with another task moves the target, without it destroys the target.\<close>

definition helper_move ::
  "('k, 'c, 'a, 'r) targets \<Rightarrow> 'k \<Rightarrow> ('k, 'c, 'a) task \<Rightarrow> ('k, 'c, 'a) task \<Rightarrow> ('k, 'c, 'a) heap \<Rightarrow>
   (('k, 'c, 'a) task \<times> ('k, 'c, 'a) task, ('k, 'c, 'a) heap) eff" where
  "helper_move T k this other h =
     bind_eff (adapter_move T k (tk_memory other) h)
       (\<lambda>(m, m') h. Return (this\<lparr>tk_memory := m\<rparr>, other\<lparr>tk_memory := m'\<rparr>) h)"

definition helper_destroy ::
  "('k, 'c, 'a, 'r) targets \<Rightarrow> 'k \<Rightarrow> ('k, 'c, 'a) task \<Rightarrow> ('k, 'c, 'a) heap \<Rightarrow> (unit, ('k, 'c, 'a) heap) eff" where
  "helper_destroy T k this h =
     (case adapter_target (task_adapter T k) (tk_memory this) h of
        None \<Rightarrow> Undefined
      | Some (k', c) \<Rightarrow>
          if k' \<noteq> k then Undefined
          else (case adapter_put (task_adapter T k) None (tk_memory this) h of
                  None \<Rightarrow> Undefined
                | Some (m, h) \<Rightarrow> adapter_deallocate T k m (tk_allocator this) h))"

definition task_dtor ::
  "('k, 'c, 'a, 'r) targets \<Rightarrow> ('k, 'c, 'a) task \<Rightarrow> ('k, 'c, 'a) heap \<Rightarrow> (unit, ('k, 'c, 'a) heap) eff" where
  "task_dtor T this h =
     (if task_bool this then no_throw (helper_destroy T (the (tk_helper this)) this h) else Return () h)"

text \<open>The move constructor returns the new task and what is left of \<open>other\<close>.\<close>

definition task_move ::
  "('k, 'c, 'a, 'r) targets \<Rightarrow> ('k, 'c, 'a) task \<Rightarrow> ('k, 'c, 'a) heap \<Rightarrow>
   (('k, 'c, 'a) task \<times> ('k, 'c, 'a) task, ('k, 'c, 'a) heap) eff" where
  "task_move T other h =
     (let this = (task_empty T)\<lparr>tk_invoke := tk_invoke other\<rparr> in
      case tk_helper other of
        None \<Rightarrow> Undefined
      | Some k \<Rightarrow>
          no_throw (bind_eff (helper_move T k this other h)
            (\<lambda>(this, other) h.
               Return (this\<lparr>tk_helper := tk_helper other\<rparr>, other\<lparr>tk_helper := tk_helper this, tk_invoke := Invalid_invoke\<rparr>) h)))"

text \<open>
  The move assignment makes a temporary, swaps it with \<open>this\<close> by \<open>std::swap\<close>, which in turn uses
  the move constructor and the move assignment, and destroys it.  The result is \<open>None\<close> if the
  nesting of the calls is deeper than \<open>fuel\<close>.
\<close>

fun task_assign ::
  "('k, 'c, 'a, 'r) targets \<Rightarrow> nat \<Rightarrow> ('k, 'c, 'a) task \<Rightarrow> ('k, 'c, 'a) task \<Rightarrow> ('k, 'c, 'a) heap \<Rightarrow>
   (('k, 'c, 'a) task \<times> ('k, 'c, 'a) task, ('k, 'c, 'a) heap) eff option"
and task_swap ::
  "('k, 'c, 'a, 'r) targets \<Rightarrow> nat \<Rightarrow> ('k, 'c, 'a) task \<Rightarrow> ('k, 'c, 'a) task \<Rightarrow> ('k, 'c, 'a) heap \<Rightarrow>
   (('k, 'c, 'a) task \<times> ('k, 'c, 'a) task, ('k, 'c, 'a) heap) eff option" where
  "task_assign T 0 this other h = None"
| "task_assign T (Suc fuel) this other h =
     (case task_move T other h of
        Return (temp, other) h \<Rightarrow>
          (case task_swap T fuel temp this h of
             Some (Return (temp, this) h) \<Rightarrow> Some (bind_eff (task_dtor T temp h) (\<lambda>_ h. Return (this, other) h))
           | r \<Rightarrow> r)
      | r \<Rightarrow> Some r)"
| "task_swap T 0 a b h = None"
| "task_swap T (Suc fuel) a b h =
     (case task_move T a h of
        Return (tmp, a) h \<Rightarrow>
          (case task_assign T fuel a b h of
             Some (Return (a, b) h) \<Rightarrow>
               (case task_assign T fuel b tmp h of
                  Some (Return (b, tmp) h) \<Rightarrow> Some (bind_eff (task_dtor T tmp h) (\<lambda>_ h. Return (a, b) h))
                | r \<Rightarrow> r)
           | r \<Rightarrow> r)
      | r \<Rightarrow> Some r)"

text \<open>\<open>operator()\<close> calls \<open>invoke_\<close>.\<close>

definition task_call ::
  "('k, 'c, 'a, 'r) targets \<Rightarrow> ('k, 'c, 'a) task \<Rightarrow> ('k, 'c, 'a) heap \<Rightarrow>
   ('r, ('k, 'c, 'a) task \<times> ('k, 'c, 'a) heap) eff" where
  "task_call T this h =
     (case tk_invoke this of
        Null_fn \<Rightarrow> Undefined
      | Invalid_invoke \<Rightarrow> Throw Bad_function_call (this, h)
      | Invoke k \<Rightarrow>
          (case adapter_target (task_adapter T k) (tk_memory this) h of
             None \<Rightarrow> Undefined
           | Some (k', c) \<Rightarrow>
               if k' \<noteq> k then Undefined
               else (let (r, c') = tg_call T k c in
                     case adapter_put (task_adapter T k) (Some (k, c')) (tk_memory this) h of
                       None \<Rightarrow> Undefined
                     | Some (m, h) \<Rightarrow>
                         (case r of
                            None \<Rightarrow> Throw Target_threw (this\<lparr>tk_memory := m\<rparr>, h)
                          | Some x \<Rightarrow> Return x (this\<lparr>tk_memory := m\<rparr>, h)))))"

subsection \<open>The size of the buffer\<close>

lemma clear_low_bits: "unat ((x :: 64 word) AND - 8) = 8 * (unat x div 8)"
proof -
  have "x AND NOT 7 = push_bit 3 (drop_bit 3 x)"
  proof (rule bit_word_eqI)
    fix n
    assume "n < LENGTH(64)"
    have "bit (7 :: 64 word) n \<longleftrightarrow> n < 3"
      using bit_mask_iff[of 3 n, where 'a = "64 word"] \<open>n < LENGTH(64)\<close> by (simp add: mask_eq_exp_minus_1)
    then show "bit (x AND NOT 7) n = bit (push_bit 3 (drop_bit 3 x)) n"
      using \<open>n < LENGTH(64)\<close> by (auto simp: bit_simps)
  qed
  then have "x AND - 8 = 8 * (x div 8)"
    by (simp add: push_bit_eq_mult drop_bit_eq_div)
  moreover have "unat (8 * (x div 8)) = 8 * (unat x div 8) mod 2 ^ 64"
    unfolding unat_word_ariths(2) unat_div_distrib by simp
  moreover have "8 * (unat x div 8) < 2 ^ 64"
    by (rule le_less_trans[OF times_div_less_eq_dividend]) (simp add: unsigned_less[where 'b = 64, simplified])
  ultimately show ?thesis by (simp only: mod_less)
qed

text \<open>
  C38: the size of the buffer of a task is the least multiple of eight from the requested size
  on, and never less than a pointer, which the large tasks keep there; for requests within
  seven bytes of the end of the range the computation wraps around to the size of a pointer.
\<close>

theorem task_memory_size_spec:
  "unat (task_memory_size sz) = (if unat sz \<le> 2 ^ 64 - 8 then max 8 (8 * ((unat sz + 7) div 8)) else 8)"
proof -
  have bound: "unat sz < 2 ^ 64" using unsigned_less[of sz, where 'a = nat] by simp
  have add: "unat (7 + sz) = (if unat sz \<le> 2 ^ 64 - 8 then unat sz + 7 else unat sz + 7 - 2 ^ 64)"
    using bound by (simp add: unat_word_ariths mod_if le_simps)
  have "unat (max a b) = max (unat a) (unat b)" for a b :: "64 word"
    by (simp add: max_def word_le_nat_alt)
  then have "unat (task_memory_size sz) = max (8 * (unat (7 + sz) div 8)) 8"
    by (simp add: task_memory_size_def fptr_align_def fptr_size_def clear_low_bits)
  then show ?thesis using bound by (simp add: add max.commute)
qed

subsection \<open>Moving trivial tasks\<close>

text \<open>
  The moves of trivial tasks.  The move constructor and the move assignment leave the
  target of the other task in the new one and the other one empty, whatever the assigned task held;
  a task built from a target can then be called, and calling an empty one is undefined.
\<close>

theorem trivial_task_moves:
  "trivial_task_move other = (other, trivial_task_empty) \<and>
   trivial_task_assign this other = (other, trivial_task_empty) \<and>
   (trivial_task_ctor T k c = Some other \<longrightarrow>
      trivial_task_bool other \<and>
      trivial_task_call T (fst (trivial_task_assign this other)) =
        (case tg_call T k c of
           (None, c') \<Rightarrow> Throw Target_threw \<lparr>tk_memory = Obj k c', tk_invoke = Invoke k\<rparr>
         | (Some r, c') \<Rightarrow> Return r \<lparr>tk_memory = Obj k c', tk_invoke = Invoke k\<rparr>)) \<and>
   \<not> trivial_task_bool (snd (trivial_task_assign this other)) \<and>
   trivial_task_call T (snd (trivial_task_assign this other)) = Undefined"
  by (auto simp: trivial_task_move_def trivial_task_swap_def trivial_task_empty_def trivial_task_assign_def Let_def
      trivial_task_ctor_def trivial_task_bool_def split: prod.split option.split if_splits)

text \<open>The same for a target that counts its calls.\<close>

definition counter_targets :: "(bool, nat, nat, nat) targets" where
  "counter_targets = \<lparr>tg_sizeof = (\<lambda>k. if k then 64 else 8), tg_move = (\<lambda>_. Some), tg_call = (\<lambda>_ c. (Some c, c + 1)),
     tg_alloc_eq = (=), tg_alloc0 = 0, tg_memory_size = task_memory_size 8\<rparr>"

theorem trivial_task_moves_witness:
  "trivial_task_ctor counter_targets False 5 = Some \<lparr>tk_memory = Obj False 5, tk_invoke = Invoke False\<rparr> \<and>
   trivial_task_call counter_targets
     (fst (trivial_task_assign trivial_task_empty \<lparr>tk_memory = Obj False 5, tk_invoke = Invoke False\<rparr>)) =
   Return 5 \<lparr>tk_memory = Obj False 6, tk_invoke = Invoke False\<rparr>"
proof -
  have "trivial_task_ctor counter_targets False 5 = Some \<lparr>tk_memory = Obj False 5, tk_invoke = Invoke False\<rparr>"
    by code_simp
  then show ?thesis
    using trivial_task_moves[of "\<lparr>tk_memory = Obj False 5, tk_invoke = Invoke False\<rparr>" trivial_task_empty counter_targets False 5]
    by (simp add: counter_targets_def)
qed

subsection \<open>Assigning tasks\<close>

text \<open>A move either takes place and leaves the other task empty, or does not return.\<close>

fun returns :: "('x, 'h) eff \<Rightarrow> bool" where
  "returns (Return x h) = True"
| "returns (Throw e h) = True"
| "returns _ = False"

lemma task_move_result:
  "(\<exists>t u h'. task_move T other h = Return (t, u) h' \<and> tk_helper u = None) \<or> \<not> returns (task_move T other h)"
  by (auto simp: task_move_def helper_move_def adapter_move_def task_empty_def Let_def
      split: option.split buffer.split)

lemma task_move_empty:
  assumes "tk_helper other = None"
  shows "task_move T other h = Undefined"
  using assms by (simp add: task_move_def Let_def)

abbreviation never :: "('x, 'h) eff option \<Rightarrow> bool" where
  "never r \<equiv> \<exists>x. r = Some x \<and> \<not> returns x"

lemma never_cases: "never r \<longleftrightarrow> r = Some Undefined \<or> r = Some Terminate"
  by (metis returns.simps(1-4) eff.exhaust)

lemma task_assign_never:
  assumes "\<And>temp h. never (task_swap T n temp this h)"
  shows "never (task_assign T (Suc n) this other h)"
  using task_move_result[of T other h]
proof
  assume "\<exists>t u h'. task_move T other h = Return (t, u) h' \<and> tk_helper u = None"
  then obtain t u h' where "task_move T other h = Return (t, u) h'" by blast
  then show ?thesis using assms[of t h'] unfolding never_cases by auto
qed (cases "task_move T other h"; simp)

lemma task_swap_never:
  assumes "\<And>t h. tk_helper t = None \<Longrightarrow> never (task_assign T n t b h)"
  shows "never (task_swap T (Suc n) a b h)"
  using task_move_result[of T a h]
proof
  assume "\<exists>t u h'. task_move T a h = Return (t, u) h' \<and> tk_helper u = None"
  then obtain t u h' where m: "task_move T a h = Return (t, u) h'" "tk_helper u = None" by blast
  show ?thesis using m(1) assms[OF m(2), of h'] unfolding never_cases by auto
qed (cases "task_move T a h"; simp)

text \<open>
  C37: the move assignment of tasks never returns.  It swaps through \<open>std::swap\<close>, which assigns
  again; at the third level of this recursion at the latest a moved-from task is moved, and its
  null helper is called, for every state of the two tasks.
\<close>

theorem task_assign_undefined:
  assumes "5 \<le> fuel"
  shows "\<exists>r. task_assign T fuel this other h = Some r \<and> \<not> returns r"
proof -
  obtain m where "fuel = 5 + m" using le_Suc_ex[OF assms] by blast
  then have n: "fuel = Suc (Suc (Suc (Suc (Suc m))))" by simp
  have base: "never (task_assign T (Suc k) t u h)" if "tk_helper u = None" for k t u h
    using task_move_empty[OF that, of T h] by simp
  have "never (task_assign T (Suc (Suc (Suc k))) t u h)" if e: "tk_helper t = None" for k t u h
    by (rule task_assign_never, rule task_swap_never, rule base[OF e])
  then show ?thesis unfolding n by (rule task_assign_never[OF task_swap_never])
qed

text \<open>C37: for two tasks that hold targets, the second level ends in the call of a null helper.\<close>

theorem task_assign_undefined_witness:
  "\<not> returns (the (task_assign counter_targets 5
      \<lparr>tk_memory = Obj False 5, tk_invoke = Invoke False, tk_allocator = 0, tk_helper = Some False\<rparr>
      \<lparr>tk_memory = Obj False 7, tk_invoke = Invoke False, tk_allocator = 0, tk_helper = Some False\<rparr> (\<lambda>_. None)))"
  using task_assign_undefined[of 5 counter_targets
      "\<lparr>tk_memory = Obj False 5, tk_invoke = Invoke False, tk_allocator = 0, tk_helper = Some False\<rparr>"
      "\<lparr>tk_memory = Obj False 7, tk_invoke = Invoke False, tk_allocator = 0, tk_helper = Some False\<rparr>" "\<lambda>_. None"]
  by auto

end
