(* ===== verification/Evenk_Task_Lifetime.thy ===== *)
theory Evenk_Task_Lifetime
  imports Evenk_Task
begin

text \<open>
  Programs that construct, move, call and destroy tasks (\<^verbatim>\<open>evenk/task.h\<close>): no such program runs
  into undefined behaviour, every target is destroyed and every block is returned once, and the
  tasks behave like boxes for their targets, wherever these are stored.

  The programs keep to what the code supports: they do not move an empty task and do not assign
  tasks.  The allocator answers with an unused address or with an exception.
\<close>

subsection \<open>Programs\<close>







subsection \<open>The invariant\<close>







subsection \<open>The operations on well-formed tasks\<close>






subsection \<open>Tasks as boxes\<close>







subsection \<open>Each event\<close>












subsection \<open>All programs\<close>











subsection \<open>Blocks are returned\<close>













subsection \<open>The function pointers of a task\<close>



text \<open>
  The move constructor default-constructs the allocator of the new task: a block of an allocator
  that is not interchangeable with it is then returned to the wrong one.
\<close>

lemma moved_task_wrong_allocator:
  assumes "\<not> task_adapter T k" and "\<not> tg_alloc_eq T al (tg_alloc0 T)" and "h a = None"
  shows "\<exists>t h1 u t'. task_ctor T k (Some c) al (Some a) h = Return t h1 \<and> task_move T t h1 = Return (u, t') h1 \<and>
    task_dtor T u h1 = Undefined"
  using assms
  by (simp add: task_ctor_def adapter_allocate_def adapter_put_def task_move_def helper_move_def adapter_move_def Let_def
      task_empty_def task_dtor_def task_bool_def helper_destroy_def adapter_target_def adapter_deallocate_def)

end
