(* ===== verification/Evenk_Thread.thy ===== *)
theory Evenk_Thread
  imports Evenk_Basic
begin

text \<open>
  \<^verbatim>\<open>evenk/thread.h\<close>: a thread handle that can be moved, and the CPU affinity of its thread.

  A handle holds the identity of a thread if it is joinable.  \<open>cpu_set_t\<close> is a word of
  \<open>CPU_SETSIZE\<close> bits.  The two functions of the threads library are parameters: they get the state
  of the system and return an error number.
\<close>

unbundle bit_operations_syntax

subsection \<open>Handles\<close>

record 'h thread = th_handle :: "'h option"

definition thread_none :: "'h thread" where
  "thread_none = \<lparr>th_handle = None\<rparr>"

definition thread_joinable :: "'h thread \<Rightarrow> bool" where
  "thread_joinable this \<longleftrightarrow> th_handle this \<noteq> None"

text \<open>The moves swap with the other handle; they return both handles.\<close>

definition thread_move :: "'h thread \<Rightarrow> 'h thread \<times> 'h thread" where
  "thread_move other = (thread_none\<lparr>th_handle := th_handle other\<rparr>, other\<lparr>th_handle := th_handle thread_none\<rparr>)"

definition thread_assign :: "'h thread \<Rightarrow> 'h thread \<Rightarrow> 'h thread \<times> 'h thread" where
  "thread_assign this other = (this\<lparr>th_handle := th_handle other\<rparr>, other\<lparr>th_handle := th_handle this\<rparr>)"

subsection \<open>Affinity\<close>

type_synonym cpu_set_t = "1024 word"

definition CPU_SETSIZE :: int where
  "CPU_SETSIZE = 1024"

definition EINVAL :: int where
  "EINVAL = 22"

text \<open>\<open>int cpu_num = n\<close>, cut to the size of a \<open>cpu_set_t\<close>.\<close>

definition cpu_num :: "32 word \<Rightarrow> int" where
  "cpu_num n = (if sint n > CPU_SETSIZE then CPU_SETSIZE else sint n)"

text \<open>\<open>CPU_ZERO\<close> and the loop of \<open>CPU_SET\<close>.\<close>

fun native_cpuset :: "bool list \<Rightarrow> nat list \<Rightarrow> cpu_set_t \<Rightarrow> cpu_set_t" where
  "native_cpuset cpuset [] m = m"
| "native_cpuset cpuset (cpu # cpus) m = native_cpuset cpuset cpus (if cpuset ! cpu then m OR push_bit cpu 1 else m)"

definition affinity_set ::
  "('h \<Rightarrow> cpu_set_t \<Rightarrow> 'w \<Rightarrow> int \<times> 'w) \<Rightarrow> 'h thread \<Rightarrow> bool list \<Rightarrow> 'w \<Rightarrow> unit res \<times> 'w" where
  "affinity_set setaffinity this cpuset w =
     (case th_handle this of
        None \<Rightarrow> (throw_system_error_what EINVAL ''affinity'', w)
      | Some handle \<Rightarrow>
          (let m = native_cpuset cpuset [0..<nat (cpu_num (of_nat (length cpuset)))] 0;
               (rc, w') = setaffinity handle m w
           in if rc \<noteq> 0 then (throw_system_error_what rc ''pthread_setaffinity_np'', w') else (Inr (), w')))"

definition affinity_get ::
  "('h \<Rightarrow> 'w \<Rightarrow> int \<times> cpu_set_t) \<Rightarrow> 32 word \<Rightarrow> 'h thread \<Rightarrow> 'w \<Rightarrow> bool list res" where
  "affinity_get getaffinity hardware_concurrency this w =
     (case th_handle this of
        None \<Rightarrow> throw_system_error_what EINVAL ''affinity''
      | Some handle \<Rightarrow>
          (let (rc, m) = getaffinity handle w
           in if rc \<noteq> 0 then throw_system_error_what rc ''pthread_getaffinity_np''
              else Inr (map (bit m) [0..<nat (cpu_num hardware_concurrency)])))"

text \<open>Without support in the threads library only the check remains.\<close>

definition affinity_set_unsupported :: "'h thread \<Rightarrow> bool list \<Rightarrow> unit res" where
  "affinity_set_unsupported this cpuset =
     (if \<not> thread_joinable this then throw_system_error_what EINVAL ''affinity'' else Inr ())"

definition affinity_get_unsupported :: "'h thread \<Rightarrow> bool list res" where
  "affinity_get_unsupported this =
     (if \<not> thread_joinable this then throw_system_error_what EINVAL ''affinity'' else Inr [])"

subsection \<open>Setting and getting\<close>

lemma cpu_num_small:
  assumes "unat n \<le> 1024"
  shows "cpu_num n = int (unat n)"
proof -
  have u: "uint n = int (unat n)" by (rule uint_nat)
  have le: "0 \<le> uint n" "uint n \<le> 1024" unfolding u using assms by linarith+
  have "- (2 ^ 31) \<le> (0 :: int)" "(1024 :: int) < 2 ^ 31" by simp_all
  then have "signed_take_bit 31 (uint n) = uint n" using le by (intro signed_take_bit_int_eq_self) linarith+
  then have "sint n = uint n" by (simp add: sint_uint)
  then show ?thesis unfolding cpu_num_def CPU_SETSIZE_def u[symmetric] using le by simp
qed

lemma bit_native_cpuset:
  "bit (native_cpuset cpuset cpus m) j \<longleftrightarrow> bit m j \<or> j \<in> set cpus \<and> j < 1024 \<and> cpuset ! j"
  by (induction cpus arbitrary: m) (auto simp: bit_simps)

text \<open>
  C10: the affinity that was set is the affinity that is read.  If the system stores the given
  CPUs as far as they are online, as \<^verbatim>\<open>sched_setaffinity(2)\<close> documents, a set with one entry per hardware
  thread whose chosen CPUs are online comes back unchanged.
\<close>

theorem affinity_round_trip:
  assumes "th_handle this = Some h"
    and kernel: "\<And>m w w'. setaffinity h m w = (0, w') \<Longrightarrow> getaffinity h w' = (0, m AND online)"
    and "affinity_set setaffinity this cpuset w = (Inr (), w')"
    and "length cpuset = unat hardware_concurrency" and "unat hardware_concurrency \<le> 1024"
    and "\<And>i. i < length cpuset \<Longrightarrow> cpuset ! i \<Longrightarrow> bit online i"
  shows "affinity_get getaffinity hardware_concurrency this w' = Inr cpuset"
proof -
  let ?n = "unat hardware_concurrency"
  have num: "nat (cpu_num hardware_concurrency) = ?n" "nat (cpu_num (of_nat (length cpuset))) = ?n"
    using cpu_num_small[OF assms(5)] assms(4) by simp_all
  let ?m = "native_cpuset cpuset [0..<?n] 0"
  have "setaffinity h ?m w = (0, w')"
    using assms(1,3) num(2)
    by (auto simp: affinity_set_def Let_def throw_system_error_what_def split: prod.splits if_splits)
  then have get: "getaffinity h w' = (0, ?m AND online)" by (rule kernel)
  have "map (bit (?m AND online)) [0..<?n] = cpuset"
    using assms(4-6) by (intro nth_equalityI) (auto simp: bit_and_iff bit_native_cpuset)
  then show ?thesis using assms(1) get num(1) by (simp add: affinity_get_def)
qed

text \<open>C10: a system with four CPUs that refuses an empty set.\<close>

definition simple_set :: "nat \<Rightarrow> cpu_set_t \<Rightarrow> cpu_set_t \<Rightarrow> int \<times> cpu_set_t" where
  "simple_set h m w = (if m AND 15 = 0 then (22, w) else (0, m AND 15))"

definition simple_get :: "nat \<Rightarrow> cpu_set_t \<Rightarrow> int \<times> cpu_set_t" where
  "simple_get h w = (0, w)"

theorem affinity_round_trip_witness:
  "affinity_set simple_set \<lparr>th_handle = Some 3\<rparr> [True, False, True, False] 15 = (Inr (), 5) \<and>
   affinity_get simple_get 4 \<lparr>th_handle = Some 3\<rparr> 5 = Inr [True, False, True, False]"
proof -
  have set: "affinity_set simple_set \<lparr>th_handle = Some 3\<rparr> [True, False, True, False] 15 = (Inr (), 5)"
    by code_simp
  have "(15 :: cpu_set_t) = mask 4" by (simp add: mask_eq_exp_minus_1)
  then have online: "bit (15 :: cpu_set_t) i" if "i < 4" for i
    using that by (simp only: bit_mask_iff) simp
  have kernel: "simple_get 3 w' = (0, m AND 15)" if "simple_set 3 m w = (0, w')" for m w w'
    using that by (auto simp: simple_set_def simple_get_def split: if_splits)
  have "affinity_get simple_get 4 \<lparr>th_handle = Some 3\<rparr> 5 = Inr [True, False, True, False]"
    by (rule affinity_round_trip[where setaffinity = simple_set and h = 3 and online = 15 and w = 15])
      (use set online in \<open>simp_all add: kernel\<close>)
  then show ?thesis using set by blast
qed

end
