(* ===== verification/Evenk_Thread_Pool.thy ===== *)
theory Evenk_Thread_Pool
  imports Evenk_Prelude Evenk_Conqueue "HOL-Library.Multiset"
begin

text \<open>
  \<^verbatim>\<open>evenk/thread_pool.h\<close>: workers that take tasks from a queue, and clients that submit tasks, stop the
  pool and wait for it.

  The queue is a template argument; here it is an unbounded queue whose operations take effect at
  once, which is what is shown of \<open>synch_queue\<close> for values whose assignment works.  A pop delivers
  the task it removes: this is assumed of the queue, and the queues of the repository do not meet it
  for the task type of the pool.  They pop by the move assignment of \<open>task\<close>, which never returns
  (\<open>Evenk_Task.task_assign_undefined\<close>), so with them a worker fails at its first task.  What follows shows
  the logic of the pool itself, as it is with a queue that moves tasks in another way or with a
  repaired assignment.  \<open>join_lock_\<close> is a mutex.  A step is an access to
  \<open>flags_\<close>, an operation of the queue, the call of a task, the join of a thread or an access under
  the lock.  The derived class, with the queue and \<open>shutdown\<close>, is destroyed before the
  destructor of the base class runs; what uses it then is a fault, and so is joining a thread twice.
\<close>

subsection \<open>State\<close>

datatype 'c worker_pc =
    W_Test       \<comment> \<open>at \<open>is_stopped()\<close>\<close>
  | W_Pop        \<comment> \<open>at \<open>queue_.wait_pop(task)\<close>\<close>
  | W_Run 'c     \<comment> \<open>at \<open>task()\<close>\<close>
  | W_Exit

datatype pool_op = Op_stop | Op_wait | Op_destroy

datatype client_pc =
    P_Idle
  | P_Flag pool_op        \<comment> \<open>\<open>close\<close>: at \<open>fetch_or\<close>\<close>
  | P_Shutdown pool_op    \<comment> \<open>\<open>close\<close>: at \<open>shutdown()\<close>\<close>
  | P_Lock                \<comment> \<open>\<open>wait\<close>: at the guard\<close>
  | P_Test                \<comment> \<open>\<open>wait\<close>: at the test of \<open>join_done_\<close>\<close>
  | P_Join nat            \<comment> \<open>\<open>wait\<close>: in the loop\<close>
  | P_Set                 \<comment> \<open>\<open>wait\<close>: at \<open>join_done_ = true\<close>\<close>
  | P_Unlock              \<comment> \<open>\<open>wait\<close>: at the destructor of the guard\<close>

record 'c pool =
  pl_size :: nat
  pl_flags :: "8 word"
  pl_queue :: "'c list"
  pl_closed :: bool
  pl_lock :: "tid option"
  pl_join_done :: bool
  pl_workers :: "nat \<Rightarrow> 'c worker_pc"
  pl_clients :: "tid \<Rightarrow> client_pc"
  pl_active :: "tid set"       \<comment> \<open>the clients in a call\<close>
  pl_joined :: "nat set"
  pl_alive :: bool             \<comment> \<open>whether the derived object exists\<close>
  pl_submitted :: "'c list"
  pl_executed :: "'c list"
  pl_shutdowns :: nat
  pl_terminated :: bool
  pl_fault :: bool

definition stop_flag :: "8 word" where
  "stop_flag = 1"

definition wait_flag :: "8 word" where
  "wait_flag = 2"

definition pool_base :: "'c pool" where
  "pool_base = \<lparr>pl_size = 0, pl_flags = 0, pl_queue = [], pl_closed = False, pl_lock = None, pl_join_done = False,
     pl_workers = (\<lambda>_. W_Test), pl_clients = (\<lambda>_. P_Idle), pl_active = {}, pl_joined = {}, pl_alive = True,
     pl_submitted = [], pl_executed = [], pl_shutdowns = 0, pl_terminated = False, pl_fault = False\<rparr>"

datatype activate_error = Already_active | Thread_failed

text \<open>\<open>available\<close> is the number of threads the system can create, \<open>None\<close> if there is no limit in the way.\<close>

definition activate :: "nat option \<Rightarrow> nat \<Rightarrow> 'c pool \<Rightarrow> (activate_error \<times> 'c pool) + 'c pool" where
  "activate available sz s =
     (if pl_size s \<noteq> 0 then Inl (Already_active, s)
      else (case available of
              None \<Rightarrow> Inr (s\<lparr>pl_size := sz\<rparr>)
            | Some m \<Rightarrow> if m < sz then Inl (Thread_failed, s\<lparr>pl_size := m\<rparr>) else Inr (s\<lparr>pl_size := sz\<rparr>)))"

definition thread_pool_ctor :: "nat option \<Rightarrow> nat \<Rightarrow> (activate_error \<times> 'c pool) + 'c pool" where
  "thread_pool_ctor available sz = activate available sz pool_base"

definition pool_is_stopped :: "'c pool \<Rightarrow> bool" where
  "pool_is_stopped s \<longleftrightarrow> pl_flags s AND stop_flag \<noteq> 0"

subsection \<open>Workers\<close>

text \<open>The choice says whether \<open>wait_pop\<close> fails with another status and whether the task throws.\<close>

datatype work_choice = Normal | Other_status | Task_throws

abbreviation at_worker :: "'c pool \<Rightarrow> nat \<Rightarrow> 'c worker_pc \<Rightarrow> 'c pool" where
  "at_worker s w p \<equiv> s\<lparr>pl_workers := (pl_workers s)(w := p)\<rparr>"

fun work :: "nat \<Rightarrow> work_choice \<Rightarrow> 'c worker_pc \<Rightarrow> 'c pool \<Rightarrow> 'c pool option" where
  "work w ch W_Test s = Some (at_worker s w (if pool_is_stopped s then W_Exit else W_Pop))"
| "work w ch W_Pop s =
     (if \<not> pl_alive s then Some (s\<lparr>pl_fault := True\<rparr>)
      else if ch = Other_status then Some (at_worker s w W_Test)
      else (case pl_queue s of
              v # q \<Rightarrow> Some ((at_worker s w (W_Run v))\<lparr>pl_queue := q\<rparr>)
            | [] \<Rightarrow> if pl_closed s then Some (at_worker s w W_Exit) else None))"
| "work w ch (W_Run v) s =
     Some ((at_worker s w W_Test)\<lparr>pl_executed := pl_executed s @ [v], pl_terminated := (ch = Task_throws)\<rparr>)"
| "work w ch W_Exit s = None"

subsection \<open>Clients\<close>

abbreviation at_client :: "'c pool \<Rightarrow> tid \<Rightarrow> client_pc \<Rightarrow> 'c pool" where
  "at_client s i p \<equiv> s\<lparr>pl_clients := (pl_clients s)(i := p)\<rparr>"

text \<open>The return of a call.\<close>

definition pool_return :: "'c pool \<Rightarrow> tid \<Rightarrow> 'c pool" where
  "pool_return s i = (at_client s i P_Idle)\<lparr>pl_active := pl_active s - {i}\<rparr>"

fun flag_of :: "pool_op \<Rightarrow> 8 word" where
  "flag_of Op_wait = wait_flag"
| "flag_of _ = stop_flag"

text \<open>What follows \<open>close\<close>: \<open>stop\<close> returns, \<open>wait\<close> joins, and the destructor goes on with \<open>wait\<close>.\<close>

fun after_close :: "pool_op \<Rightarrow> 'c pool \<Rightarrow> tid \<Rightarrow> 'c pool" where
  "after_close Op_stop s i = pool_return s i"
| "after_close Op_wait s i = at_client s i P_Lock"
| "after_close Op_destroy s i = at_client s i (P_Flag Op_wait)"

text \<open>\<open>shutdown\<close> closes the queue; \<open>pl_shutdowns\<close> counts its calls.\<close>

definition shutdown :: "'c pool \<Rightarrow> 'c pool" where
  [simp]: "shutdown s = s\<lparr>pl_closed := True, pl_shutdowns := pl_shutdowns s + 1\<rparr>"

fun client_exec :: "tid \<Rightarrow> client_pc \<Rightarrow> 'c pool \<Rightarrow> 'c pool option" where
  "client_exec i P_Idle s = None"
| "client_exec i (P_Flag op) s =
     (let s' = s\<lparr>pl_flags := pl_flags s OR flag_of op\<rparr> in
      Some (if pl_flags s = 0 then at_client s' i (P_Shutdown op) else after_close op s' i))"
| "client_exec i (P_Shutdown op) s =
     (if pl_alive s
      then Some (after_close op (shutdown s) i)
      else Some (s\<lparr>pl_fault := True\<rparr>))"
| "client_exec i P_Lock s =
     (if pl_lock s = None then Some ((at_client s i P_Test)\<lparr>pl_lock := Some i\<rparr>) else None)"
| "client_exec i P_Test s = Some (at_client s i (if pl_join_done s then P_Unlock else P_Join 0))"
| "client_exec i (P_Join k) s =
     (if k < pl_size s
      then (if k \<in> pl_joined s then Some (s\<lparr>pl_fault := True\<rparr>)
            else if pl_workers s k = W_Exit
            then Some ((at_client s i (P_Join (k + 1)))\<lparr>pl_joined := insert k (pl_joined s)\<rparr>)
            else None)
      else Some (at_client s i P_Set))"
| "client_exec i P_Set s = Some ((at_client s i P_Unlock)\<lparr>pl_join_done := True\<rparr>)"
| "client_exec i P_Unlock s = Some ((pool_return s i)\<lparr>pl_lock := None\<rparr>)"

definition pool_call :: "'c pool \<Rightarrow> tid \<Rightarrow> pool_op \<Rightarrow> 'c pool option" where
  "pool_call s i op =
     (if pl_alive s \<and> pl_clients s i = P_Idle
      then Some ((at_client s i (P_Flag op))\<lparr>pl_active := insert i (pl_active s)\<rparr>) else None)"

text \<open>\<open>submit\<close> pushes; a closed queue throws, and the task is dropped.\<close>

definition submit :: "'c \<Rightarrow> 'c pool \<Rightarrow> (queue_op_status + unit) \<times> 'c pool" where
  "submit c s =
     (if pl_closed s then (Inl St_closed, s)
      else (Inr (), s\<lparr>pl_queue := pl_queue s @ [c], pl_submitted := pl_submitted s @ [c]\<rparr>))"

datatype 'c pool_event =
    Pl_work nat work_choice
  | Pl_submit 'c
  | Pl_call tid pool_op
  | Pl_go tid

fun pool_step :: "'c pool_event \<Rightarrow> 'c pool \<Rightarrow> 'c pool option" where
  "pool_step (Pl_work w ch) s =
     (if \<not> pl_terminated s \<and> w < pl_size s then work w ch (pl_workers s w) s else None)"
| "pool_step (Pl_submit c) s = (if \<not> pl_terminated s \<and> pl_alive s then Some (snd (submit c s)) else None)"
| "pool_step (Pl_call i op) s =
     (if pl_terminated s then None
      else if op = Op_destroy
      then (if pl_active s = {} then map_option (\<lambda>s. s\<lparr>pl_alive := False\<rparr>) (pool_call s i op) else None)
      else pool_call s i op)"
| "pool_step (Pl_go i) s = (if pl_terminated s then None else client_exec i (pl_clients s i) s)"

subsection \<open>The invariant\<close>

fun locking :: "client_pc \<Rightarrow> bool" where
  "locking P_Test = True" | "locking (P_Join k) = True" | "locking P_Set = True" | "locking P_Unlock = True"
| "locking _ = False"

fun joining :: "client_pc \<Rightarrow> bool" where
  "joining (P_Join k) = True" | "joining P_Set = True" | "joining _ = False"

fun shutting :: "client_pc \<Rightarrow> bool" where
  "shutting (P_Shutdown op) = True" | "shutting _ = False"

fun flagged :: "client_pc \<Rightarrow> bool" where
  "flagged P_Idle = False" | "flagged (P_Flag op) = False" | "flagged _ = True"

fun running :: "'c worker_pc \<Rightarrow> 'c multiset" where
  "running (W_Run v) = {#v#}"
| "running _ = {#}"

text \<open>The calls: who has closed the queue, who holds the lock, which threads are joined.\<close>

definition client_inv :: "'c pool \<Rightarrow> bool" where
  "client_inv s \<longleftrightarrow>
     \<not> pl_fault s \<and>
     (\<forall>i. i \<in> pl_active s \<longleftrightarrow> pl_clients s i \<noteq> P_Idle) \<and>
     (\<forall>i. flagged (pl_clients s i) \<longrightarrow> pl_flags s \<noteq> 0) \<and>
     (\<forall>i j. shutting (pl_clients s i) \<longrightarrow> shutting (pl_clients s j) \<longrightarrow> i = j) \<and>
     (\<forall>i. shutting (pl_clients s i) \<longrightarrow> \<not> pl_closed s \<and> pl_alive s) \<and>
     (pl_flags s \<noteq> 0 \<longrightarrow> pl_closed s \<or> (\<exists>i. shutting (pl_clients s i))) \<and>
     (pl_closed s \<longrightarrow> pl_flags s \<noteq> 0) \<and>
     pl_shutdowns s = (if pl_closed s then 1 else 0) \<and>
     (\<forall>i. locking (pl_clients s i) \<longleftrightarrow> pl_lock s = Some i) \<and>
     (pl_join_done s \<longrightarrow> pl_flags s \<noteq> 0 \<and> pl_joined s = {..<pl_size s} \<and> (\<forall>i. \<not> joining (pl_clients s i))) \<and>
     (\<forall>i k. pl_clients s i = P_Join k \<longrightarrow> k \<le> pl_size s \<and> pl_joined s = {..<k}) \<and>
     (\<forall>i. pl_clients s i = P_Set \<longrightarrow> pl_joined s = {..<pl_size s}) \<and>
     (\<not> pl_join_done s \<longrightarrow> (\<forall>i. \<not> joining (pl_clients s i)) \<longrightarrow> pl_joined s = {}) \<and>
     (\<forall>w \<in> pl_joined s. pl_workers s w = W_Exit) \<and>
     (\<not> pl_alive s \<longrightarrow> pl_join_done s)"

text \<open>The tasks: each accepted one is queued, runs or has run; workers leave for a reason.\<close>

definition worker_inv :: "'c pool \<Rightarrow> bool" where
  "worker_inv s \<longleftrightarrow>
     mset (pl_submitted s) = mset (pl_queue s) + mset (pl_executed s) + (\<Sum>w<pl_size s. running (pl_workers s w)) \<and>
     (\<forall>w<pl_size s. pl_workers s w = W_Exit \<longrightarrow> pool_is_stopped s \<or> pl_closed s \<and> pl_queue s = [])"

text \<open>A program that destroys the pool only after a wait has returned.\<close>

fun careful_step :: "'c pool_event \<Rightarrow> 'c pool \<Rightarrow> 'c pool option" where
  "careful_step (Pl_call i Op_destroy) s = (if pl_join_done s then pool_step (Pl_call i Op_destroy) s else None)"
| "careful_step e s = pool_step e s"

lemma flag_bits [simp]:
  "f OR flag_of op = 0 \<longleftrightarrow> False"
  "f AND stop_flag \<noteq> 0 \<Longrightarrow> (f OR flag_of op) AND stop_flag \<noteq> 0"
proof -
  have one: "stop_flag = 1" "wait_flag = 2" by (simp_all add: stop_flag_def wait_flag_def)
  have low: "x AND 1 \<noteq> 0 \<longleftrightarrow> bit x 0" for x :: "8 word"
    by (simp add: and_one_eq bit_0 odd_iff_mod_2_eq_one)
  have "bit (f OR flag_of op) (if op = Op_wait then 1 else 0)"
    by (cases op) (simp_all add: one bit_simps)
  then show "f OR flag_of op = 0 \<longleftrightarrow> False" by auto
  assume "f AND stop_flag \<noteq> 0"
  then show "(f OR flag_of op) AND stop_flag \<noteq> 0"
    unfolding one low by (simp add: bit_or_iff del: bit_0)
qed

lemma flag_of_nonzero [simp]: "flag_of op \<noteq> 0"
  using flag_bits(1)[of 0 op] by simp

lemma client_invD:
  assumes "client_inv s"
  shows "\<not> pl_fault s"
    and "i \<in> pl_active s \<longleftrightarrow> pl_clients s i \<noteq> P_Idle"
    and "flagged (pl_clients s i) \<Longrightarrow> pl_flags s \<noteq> 0"
    and "shutting (pl_clients s i) \<Longrightarrow> shutting (pl_clients s j) \<Longrightarrow> i = j"
    and "shutting (pl_clients s i) \<Longrightarrow> \<not> pl_closed s \<and> pl_alive s"
    and "pl_flags s \<noteq> 0 \<Longrightarrow> pl_closed s \<or> (\<exists>i. shutting (pl_clients s i))"
    and "pl_closed s \<Longrightarrow> pl_flags s \<noteq> 0"
    and "pl_shutdowns s = (if pl_closed s then 1 else 0)"
    and "locking (pl_clients s i) \<longleftrightarrow> pl_lock s = Some i"
    and "pl_join_done s \<Longrightarrow> pl_flags s \<noteq> 0 \<and> pl_joined s = {..<pl_size s} \<and> (\<forall>i. \<not> joining (pl_clients s i))"
    and "pl_clients s i = P_Join k \<Longrightarrow> k \<le> pl_size s \<and> pl_joined s = {..<k}"
    and "pl_clients s i = P_Set \<Longrightarrow> pl_joined s = {..<pl_size s}"
    and "\<not> pl_join_done s \<Longrightarrow> (\<And>i. \<not> joining (pl_clients s i)) \<Longrightarrow> pl_joined s = {}"
    and "w \<in> pl_joined s \<Longrightarrow> pl_workers s w = W_Exit"
    and "\<not> pl_alive s \<Longrightarrow> pl_join_done s"
  using assms unfolding client_inv_def by (simp_all only:) blast+

subsection \<open>The workers keep the invariants\<close>

lemma work_client_inv:
  assumes inv: "client_inv s" and w: "w < pl_size s" and step: "work w ch (pl_workers s w) s = Some s'"
  shows "client_inv s'"
proof -
  note D = client_invD[OF inv]
  have ne: "pl_workers s w \<noteq> W_Exit" using step by auto
  then have nj: "w \<notin> pl_joined s" using D(14) by blast
  then have alive: "pl_alive s" using D(10,15) w by blast
  have same: "pl_clients s' = pl_clients s \<and> pl_flags s' = pl_flags s \<and> pl_closed s' = pl_closed s \<and> pl_lock s' = pl_lock s \<and>
      pl_join_done s' = pl_join_done s \<and> pl_active s' = pl_active s \<and> pl_joined s' = pl_joined s \<and> pl_alive s' = pl_alive s \<and>
      pl_shutdowns s' = pl_shutdowns s \<and> pl_fault s' = pl_fault s \<and> pl_size s' = pl_size s"
    and others: "\<forall>v. v \<noteq> w \<longrightarrow> pl_workers s' v = pl_workers s v"
    using step alive by (cases "pl_workers s w"; auto split: if_splits list.splits)+
  have "\<forall>v \<in> pl_joined s. pl_workers s' v = W_Exit" using others nj D(14) by metis
  then show ?thesis using inv same unfolding client_inv_def by simp
qed

text \<open>The sum over the workers when one of them moves.\<close>

lemma sum_one_changed:
  fixes g :: "'p \<Rightarrow> 'm::comm_monoid_add" and n :: nat
  assumes "w < n"
  shows "(\<Sum>v<n. g ((ws(w := p)) v)) + g (ws w) = (\<Sum>v<n. g (ws v)) + g p"
proof -
  have part: "(\<Sum>v<n. g (f v)) = g (f w) + (\<Sum>v\<in>{..<n} - {w}. g (f v))" for f
    using assms by (intro sum.remove) auto
  have same: "(\<Sum>v\<in>{..<n} - {w}. g ((ws(w := p)) v)) = (\<Sum>v\<in>{..<n} - {w}. g (ws v))"
    by (intro sum.cong) auto
  show ?thesis unfolding part[of "ws(w := p)"] part[of ws] same fun_upd_same by (simp only: ac_simps)
qed

lemma worker_invI:
  assumes "mset (pl_submitted s) = mset (pl_queue s) + mset (pl_executed s) + (\<Sum>w<pl_size s. running (pl_workers s w))"
    and "\<And>w. w < pl_size s \<Longrightarrow> pl_workers s w = W_Exit \<Longrightarrow> pool_is_stopped s \<or> pl_closed s \<and> pl_queue s = []"
  shows "worker_inv s"
  using assms unfolding worker_inv_def by blast

lemma worker_invD:
  assumes "worker_inv s"
  shows "mset (pl_submitted s) = mset (pl_queue s) + mset (pl_executed s) + (\<Sum>w<pl_size s. running (pl_workers s w))"
    and "w < pl_size s \<Longrightarrow> pl_workers s w = W_Exit \<Longrightarrow> pool_is_stopped s \<or> pl_closed s \<and> pl_queue s = []"
  using assms unfolding worker_inv_def by blast+

lemma work_worker_inv:
  assumes inv: "worker_inv s" and w: "w < pl_size s" and alive: "pl_alive s"
    and step: "work w ch (pl_workers s w) s = Some s'"
  shows "worker_inv s'"
proof -
  define p where "p = pl_workers s' w"
  have ws: "pl_workers s' = (pl_workers s)(w := p)" and sz: "pl_size s' = pl_size s" "pl_submitted s' = pl_submitted s"
      "pool_is_stopped s' = pool_is_stopped s" "pl_closed s' = pl_closed s"
    using step alive by (cases "pl_workers s w"; auto simp: p_def pool_is_stopped_def split: if_splits list.splits)+
  have q: "mset (pl_queue s') + mset (pl_executed s') + running p =
      mset (pl_queue s) + mset (pl_executed s) + running (pl_workers s w)"
    using step alive by (cases "pl_workers s w"; auto simp: p_def split: if_splits list.splits)
  have left: "pool_is_stopped s \<or> pl_closed s \<and> pl_queue s' = []" if "p = W_Exit"
    using step alive that by (cases "pl_workers s w"; auto simp: p_def split: if_splits list.splits)
  have gone: "pl_queue s = [] \<Longrightarrow> pl_queue s' = []"
    using step alive by (cases "pl_workers s w"; auto split: if_splits list.splits)
  show ?thesis
  proof (rule worker_invI)
    have "mset (pl_queue s') + mset (pl_executed s') + (\<Sum>w<pl_size s. running (pl_workers s' w)) + running (pl_workers s w) =
        mset (pl_submitted s) + running (pl_workers s w)"
      using sum_one_changed[OF w, of running "pl_workers s" p] q worker_invD(1)[OF inv] unfolding ws
      by (simp add: add.assoc)
    then show "mset (pl_submitted s') = mset (pl_queue s') + mset (pl_executed s') + (\<Sum>w<pl_size s'. running (pl_workers s' w))"
      by (simp add: sz)
    show "pool_is_stopped s' \<or> pl_closed s' \<and> pl_queue s' = []" if "v < pl_size s'" "pl_workers s' v = W_Exit" for v
      using that left gone worker_invD(2)[OF inv, of v] by (cases "v = w") (auto simp: ws sz)
  qed
qed

subsection \<open>The clients keep the invariants\<close>

lemma pc_implies:
  "joining p \<Longrightarrow> locking p" "locking p \<Longrightarrow> flagged p" "shutting p \<Longrightarrow> flagged p" "shutting p \<Longrightarrow> \<not> locking p"
  by (cases p; simp)+

text \<open>A client moves between positions outside the critical section and \<open>shutdown\<close>.\<close>

lemma plain_move:
  assumes inv: "client_inv s" and old: "\<not> locking (pl_clients s i)" "\<not> shutting (pl_clients s i)"
    and new: "\<not> locking p" "\<not> shutting p" and flags: "flagged p \<Longrightarrow> f \<noteq> 0" "pl_flags s \<noteq> 0 \<longleftrightarrow> f \<noteq> 0"
    and act: "a = (if p = P_Idle then pl_active s - {i} else insert i (pl_active s))"
  shows "client_inv (s\<lparr>pl_flags := f, pl_clients := (pl_clients s)(i := p), pl_active := a\<rparr>)"
proof -
  note D = client_invD[OF inv]
  have nj: "\<not> joining (pl_clients s i)" "\<not> joining p" "p \<noteq> P_Set" "\<And>k. p \<noteq> P_Join k"
    using old(1) new(1) pc_implies(1) by auto
  have sh: "shutting (((pl_clients s)(i := p)) j) = shutting (pl_clients s j)"
    and jo: "joining (((pl_clients s)(i := p)) j) = joining (pl_clients s j)"
    and lo: "locking (((pl_clients s)(i := p)) j) = locking (pl_clients s j)" for j
    using old new nj by auto
  have ps: "((pl_clients s)(i := p)) j = P_Set \<Longrightarrow> pl_clients s j = P_Set"
    "((pl_clients s)(i := p)) j = P_Join k \<Longrightarrow> pl_clients s j = P_Join k" for j k
    using nj by (auto split: if_splits)
  have fl: "flagged (((pl_clients s)(i := p)) j) \<Longrightarrow> f \<noteq> 0" for j
    using flags D(3)[of j] by (auto split: if_splits)
  have ac: "j \<in> a \<longleftrightarrow> ((pl_clients s)(i := p)) j \<noteq> P_Idle" for j
    using act D(2)[of j] by auto
  let ?s = "s\<lparr>pl_flags := f, pl_clients := (pl_clients s)(i := p), pl_active := a\<rparr>"
  have sel: "pl_clients ?s = (pl_clients s)(i := p)" "pl_flags ?s = f" "pl_active ?s = a" "pl_fault ?s = pl_fault s"
    "pl_closed ?s = pl_closed s" "pl_alive ?s = pl_alive s" "pl_shutdowns ?s = pl_shutdowns s" "pl_lock ?s = pl_lock s"
    "pl_join_done ?s = pl_join_done s" "pl_joined ?s = pl_joined s" "pl_size ?s = pl_size s" "pl_workers ?s = pl_workers s"
    by simp_all
  show ?thesis
    unfolding client_inv_def sel sh jo lo
    apply (intro conjI)
    subgoal by (rule D(1))
    subgoal using ac by blast
    subgoal using fl by blast
    subgoal using D(4) by blast
    subgoal using D(5) by blast
    subgoal using D(6) flags(2) by blast
    subgoal using D(7) flags(2) by blast
    subgoal by (rule D(8))
    subgoal using D(9) by blast
    subgoal using D(10) flags(2) by blast
    subgoal using D(11) ps(2) by blast
    subgoal using D(12) ps(1) by blast
    subgoal using D(13) by blast
    subgoal using D(14) by blast
    subgoal using D(15) by blast
    done
qed

text \<open>The client that has the lock, or takes it, moves within the critical section or leaves it.\<close>

lemma locked_move:
  assumes inv: "client_inv s" and old: "flagged (pl_clients s i)" "\<not> shutting (pl_clients s i)"
    and alone: "\<And>j. j \<noteq> i \<Longrightarrow> \<not> locking (pl_clients s j)" and new: "\<not> shutting p"
    and act: "a = (if p = P_Idle then pl_active s - {i} else pl_active s)" and l: "l = (if locking p then Some i else None)"
    and d: "d \<Longrightarrow> J = {..<pl_size s} \<and> \<not> joining p" "\<not> pl_alive s \<Longrightarrow> d"
    and J: "\<And>k. p = P_Join k \<Longrightarrow> k \<le> pl_size s \<and> J = {..<k}" "p = P_Set \<Longrightarrow> J = {..<pl_size s}"
      "\<not> d \<Longrightarrow> \<not> joining p \<Longrightarrow> J = {}" "\<And>w. w \<in> J \<Longrightarrow> pl_workers s w = W_Exit"
  shows "client_inv (s\<lparr>pl_clients := (pl_clients s)(i := p), pl_active := a, pl_lock := l, pl_joined := J, pl_join_done := d\<rparr>)"
    (is "client_inv ?s")
proof -
  note D = client_invD[OF inv]
  have nj: "\<not> joining (pl_clients s j)" "\<And>k. pl_clients s j \<noteq> P_Join k" "pl_clients s j \<noteq> P_Set" if "j \<noteq> i" for j
    using alone[OF that] pc_implies(1) by auto
  have f: "pl_flags s \<noteq> 0" by (rule D(3)[OF old(1)])
  have sh: "shutting (((pl_clients s)(i := p)) j) = shutting (pl_clients s j)" for j using old(2) new by auto
  have ac: "j \<in> a \<longleftrightarrow> ((pl_clients s)(i := p)) j \<noteq> P_Idle" for j
    using act D(2)[of j] old(1) by auto
  have lo: "locking (((pl_clients s)(i := p)) j) \<longleftrightarrow> l = Some j" for j
    using alone[of j] l by (cases "j = i") auto
  have sel: "pl_clients ?s = (pl_clients s)(i := p)" "pl_flags ?s = pl_flags s" "pl_active ?s = a" "pl_fault ?s = pl_fault s"
    "pl_closed ?s = pl_closed s" "pl_alive ?s = pl_alive s" "pl_shutdowns ?s = pl_shutdowns s" "pl_lock ?s = l"
    "pl_join_done ?s = d" "pl_joined ?s = J" "pl_size ?s = pl_size s" "pl_workers ?s = pl_workers s"
    by simp_all
  show ?thesis
    unfolding client_inv_def sel sh lo
    apply (intro conjI)
    subgoal by (rule D(1))
    subgoal using ac by blast
    subgoal using f by blast
    subgoal using D(4) by blast
    subgoal using D(5) by blast
    subgoal using D(6) by blast
    subgoal using D(7) by blast
    subgoal by (rule D(8))
    subgoal by blast
    subgoal using d(1) f nj(1) by auto
    subgoal using J(1) nj(2) by auto
    subgoal using J(2) nj(3) by auto
    subgoal using J(3) by (metis fun_upd_same)
    subgoal using J(4) by blast
    subgoal using d(2) by blast
    done
qed

text \<open>The first client to set a flag, and its call of \<open>shutdown\<close>.\<close>

lemma first_flag:
  assumes inv: "client_inv s" and pc: "pl_clients s i = P_Flag op" and f: "pl_flags s = 0" "f \<noteq> 0"
  shows "client_inv (s\<lparr>pl_flags := f, pl_clients := (pl_clients s)(i := P_Shutdown op)\<rparr>)"
proof -
  note D = client_invD[OF inv]
  have n: "\<not> flagged (pl_clients s j)" for j using D(3) f by blast
  then have n': "\<not> locking (pl_clients s j)" "\<not> shutting (pl_clients s j)" "\<not> joining (pl_clients s j)" for j
    using pc_implies by blast+
  have "pl_clients s j \<noteq> P_Join k" "pl_clients s j \<noteq> P_Set" for j k using n'(3)[of j] by auto
  moreover have "\<not> pl_closed s" "\<not> pl_join_done s" "pl_alive s" using D(7,10,15) f by blast+
  moreover have "pl_joined s = {}" using D(13) calculation(4) n'(3) by blast
  ultimately show ?thesis
    using D(1,2,8,9) f n n' pc unfolding client_inv_def by auto
qed

lemma shutdown_inv:
  assumes inv: "client_inv s" and pc: "pl_clients s i = P_Shutdown op"
  shows "client_inv (s\<lparr>pl_closed := True, pl_shutdowns := pl_shutdowns s + 1, pl_clients := (pl_clients s)(i := P_Lock)\<rparr>)"
    (is "client_inv ?s")
proof -
  note D = client_invD[OF inv]
  have none: "\<not> shutting (((pl_clients s)(i := P_Lock)) j)" for j
    using D(4)[of i j] pc by auto
  have jo: "joining (((pl_clients s)(i := P_Lock)) j) = joining (pl_clients s j)"
    and lo: "locking (((pl_clients s)(i := P_Lock)) j) = locking (pl_clients s j)"
    and id: "((pl_clients s)(i := P_Lock)) j = P_Idle \<longleftrightarrow> pl_clients s j = P_Idle"
    and ps: "((pl_clients s)(i := P_Lock)) j = P_Set \<longleftrightarrow> pl_clients s j = P_Set"
      "((pl_clients s)(i := P_Lock)) j = P_Join k \<longleftrightarrow> pl_clients s j = P_Join k" for j k
    using pc by auto
  have f: "pl_flags s \<noteq> 0" "\<not> pl_closed s" using D(3,5)[of i] pc by auto
  have sel: "pl_clients ?s = (pl_clients s)(i := P_Lock)" "pl_flags ?s = pl_flags s" "pl_active ?s = pl_active s"
    "pl_fault ?s = pl_fault s" "pl_closed ?s = True" "pl_alive ?s = pl_alive s" "pl_shutdowns ?s = pl_shutdowns s + 1"
    "pl_lock ?s = pl_lock s" "pl_join_done ?s = pl_join_done s" "pl_joined ?s = pl_joined s" "pl_size ?s = pl_size s"
    "pl_workers ?s = pl_workers s"
    by simp_all
  show ?thesis
    unfolding client_inv_def sel jo lo id ps
    apply (intro conjI)
    subgoal by (rule D(1))
    subgoal using D(2) by blast
    subgoal using f by blast
    subgoal using none by blast
    subgoal using none by blast
    subgoal by blast
    subgoal using f by blast
    subgoal using D(8) f by simp
    subgoal using D(9) by blast
    subgoal using D(10) by blast
    subgoal using D(11) by blast
    subgoal using D(12) by blast
    subgoal using D(13) by blast
    subgoal using D(14) by blast
    subgoal using D(15) by blast
    done
qed

lemma after_close_inv:
  assumes inv: "client_inv s" and pc: "\<not> locking (pl_clients s i)" "\<not> shutting (pl_clients s i)" "pl_clients s i \<noteq> P_Idle"
    and f: "pl_flags s \<noteq> 0" "f \<noteq> 0"
  shows "client_inv (after_close op (s\<lparr>pl_flags := f\<rparr>) i)"
proof -
  have "i \<in> pl_active s" using client_invD(2)[OF inv] pc(3) by blast
  then show ?thesis
    using plain_move[OF inv pc(1,2), of "case op of Op_stop \<Rightarrow> P_Idle | Op_wait \<Rightarrow> P_Lock | Op_destroy \<Rightarrow> P_Flag Op_wait" f] f
    by (cases op) (simp_all add: pool_return_def insert_absorb)
qed

lemma lock_alone:
  assumes "client_inv s" and "locking (pl_clients s i)"
  shows "pl_lock s = Some i" "j \<noteq> i \<Longrightarrow> \<not> locking (pl_clients s j)" "j \<noteq> i \<Longrightarrow> \<not> joining (pl_clients s j)"
  using client_invD(9)[OF assms(1), of i] client_invD(9)[OF assms(1), of j] assms(2) pc_implies(1)[of "pl_clients s j"]
  by auto

lemma lock_inv:
  assumes inv: "client_inv s" and P_Lock: "pl_clients s i = P_Lock" and step: "client_exec i P_Lock s = Some s'"
  shows "client_inv s'"
proof -
  have n: "pl_lock s = None" using step by (auto split: if_splits)
  then have nl: "\<not> locking (pl_clients s j)" for j using client_invD(9)[OF inv] by simp
  then have nj: "\<not> joining (pl_clients s j)" for j using pc_implies(1) by blast
  have s': "s' = s\<lparr>pl_clients := (pl_clients s)(i := P_Test), pl_active := pl_active s, pl_lock := Some i, pl_joined := pl_joined s,
      pl_join_done := pl_join_done s\<rparr>"
    using step n by auto
  show ?thesis unfolding s'
    using client_invD(10,13-15)[OF inv] nl nj P_Lock by (intro locked_move[OF inv]) auto
qed

lemma test_inv:
  assumes inv: "client_inv s" and P_Test: "pl_clients s i = P_Test" and step: "client_exec i P_Test s = Some s'"
  shows "client_inv s'"
proof -
  note alone = lock_alone[OF inv, of i, unfolded P_Test]
  have nj: "\<not> joining (pl_clients s j)" for j using alone(3)[of j] P_Test by (cases "j = i") auto
  have s': "s' = s\<lparr>pl_clients := (pl_clients s)(i := if pl_join_done s then P_Unlock else P_Join 0), pl_active := pl_active s,
      pl_lock := Some i, pl_joined := pl_joined s, pl_join_done := pl_join_done s\<rparr>"
    using step P_Test alone(1) by auto
  show ?thesis unfolding s'
    using client_invD(10,13-15)[OF inv] alone(2) nj P_Test by (intro locked_move[OF inv]) (auto split: if_splits)
qed

lemma join_inv:
  assumes inv: "client_inv s" and P_Join: "pl_clients s i = P_Join k" and step: "client_exec i (P_Join k) s = Some s'"
  shows "client_inv s'"
proof -
  have held: "locking (pl_clients s i)" "joining (pl_clients s i)" by (simp_all add: P_Join)
  note alone = lock_alone[OF inv held(1)]
  have k: "k \<le> pl_size s" "pl_joined s = {..<k}" using client_invD(11)[OF inv P_Join] by auto
  have nd: "\<not> pl_join_done s" using client_invD(10)[OF inv] held(2) by blast
  have alive: "pl_alive s" using client_invD(15)[OF inv] nd by blast
  show ?thesis
  proof (cases "k < pl_size s")
    case True
    have new: "k \<notin> pl_joined s" using k(2) by simp
    then have ex: "pl_workers s k = W_Exit" using step True by (simp split: if_splits)
    have "client_exec i (P_Join k) s = Some ((at_client s i (P_Join (k + 1)))\<lparr>pl_joined := insert k (pl_joined s)\<rparr>)"
      using True new ex by simp
    then have s': "s' = s\<lparr>pl_clients := (pl_clients s)(i := P_Join (k + 1)), pl_active := pl_active s, pl_lock := pl_lock s,
        pl_joined := insert k (pl_joined s), pl_join_done := pl_join_done s\<rparr>"
      unfolding step option.inject by simp
    have J: "insert k (pl_joined s) = {..<k + 1}"
      unfolding k(2) Suc_eq_plus1[symmetric] by (rule lessThan_Suc[symmetric])
    have W: "pl_workers s w = W_Exit" if "w \<in> insert k (pl_joined s)" for w
      using that ex client_invD(14)[OF inv] by blast
    show ?thesis unfolding s'
      by (rule locked_move[OF inv]) (use True J W nd alive alone(1,2) in \<open>simp_all add: P_Join\<close>)
  next
    case False
    then have s': "s' = s\<lparr>pl_clients := (pl_clients s)(i := P_Set), pl_active := pl_active s, pl_lock := pl_lock s,
        pl_joined := pl_joined s, pl_join_done := pl_join_done s\<rparr>"
      using step by auto
    have J: "pl_joined s = {..<pl_size s}" using k False by simp
    show ?thesis unfolding s'
      by (rule locked_move[OF inv]) (use J client_invD(14)[OF inv] nd alive alone(1,2) in \<open>simp_all add: P_Join\<close>)
  qed
qed

lemma set_inv:
  assumes inv: "client_inv s" and P_Set: "pl_clients s i = P_Set" and step: "client_exec i P_Set s = Some s'"
  shows "client_inv s'"
proof -
  note alone = lock_alone[OF inv, of i, unfolded P_Set]
  have s': "s' = s\<lparr>pl_clients := (pl_clients s)(i := P_Unlock), pl_active := pl_active s, pl_lock := Some i, pl_joined := pl_joined s,
      pl_join_done := True\<rparr>"
    using step P_Set alone(1) by auto
  show ?thesis unfolding s' using client_invD(12,14)[OF inv] alone(2) P_Set by (intro locked_move[OF inv]) auto
qed

lemma unlock_inv:
  assumes inv: "client_inv s" and P_Unlock: "pl_clients s i = P_Unlock" and step: "client_exec i P_Unlock s = Some s'"
  shows "client_inv s'"
proof -
  note alone = lock_alone[OF inv, of i, unfolded P_Unlock]
  have nj: "\<not> joining (pl_clients s j)" for j using alone(3)[of j] P_Unlock by (cases "j = i") auto
  have s': "s' = s\<lparr>pl_clients := (pl_clients s)(i := P_Idle), pl_active := pl_active s - {i}, pl_lock := None,
      pl_joined := pl_joined s, pl_join_done := pl_join_done s\<rparr>"
    using step by (auto simp: pool_return_def)
  show ?thesis unfolding s'
    using client_invD(10,13-15)[OF inv] alone(2) nj P_Unlock by (intro locked_move[OF inv]) auto
qed

lemma client_exec_inv:
  assumes inv: "client_inv s" and step: "client_exec i (pl_clients s i) s = Some s'"
  shows "client_inv s'"
proof (cases "pl_clients s i")
  case P_Idle
  then show ?thesis using step by simp
next
  case (P_Flag op)
  show ?thesis
  proof (cases "pl_flags s = 0")
    case True
    then show ?thesis using first_flag[OF inv P_Flag, of "pl_flags s OR flag_of op"] step P_Flag by (simp add: Let_def)
  next
    case False
    then show ?thesis using after_close_inv[OF inv, of i "pl_flags s OR flag_of op" op] step P_Flag by (simp add: Let_def)
  qed
next
  case (P_Shutdown op)
  let ?t = "s\<lparr>pl_closed := True, pl_shutdowns := pl_shutdowns s + 1, pl_clients := (pl_clients s)(i := P_Lock)\<rparr>"
  have alive: "pl_alive s" and f: "pl_flags s \<noteq> 0" using client_invD(3,5)[OF inv, of i] P_Shutdown by auto
  have "s' = after_close op ?t i" using step P_Shutdown alive by (cases op) (auto simp: pool_return_def)
  then show ?thesis using after_close_inv[OF shutdown_inv[OF inv P_Shutdown], of i "pl_flags s" op] f by simp
qed (use step lock_inv[OF inv] test_inv[OF inv] join_inv[OF inv] set_inv[OF inv] unlock_inv[OF inv] in simp_all)

text \<open>Nothing that clients do undoes a stop, reopens the queue or touches the tasks.\<close>

lemma after_close_frame:
  "pl_size (after_close op s i) = pl_size s" "pl_workers (after_close op s i) = pl_workers s"
  "pl_queue (after_close op s i) = pl_queue s" "pl_submitted (after_close op s i) = pl_submitted s"
  "pl_executed (after_close op s i) = pl_executed s" "pl_flags (after_close op s i) = pl_flags s"
  "pl_closed (after_close op s i) = pl_closed s"
  by (cases op; simp add: pool_return_def)+

lemma client_exec_frame:
  assumes "client_exec i p s = Some s'"
  shows "pl_size s' = pl_size s" "pl_workers s' = pl_workers s" "pl_queue s' = pl_queue s"
    "pl_submitted s' = pl_submitted s" "pl_executed s' = pl_executed s"
    "pool_is_stopped s \<Longrightarrow> pool_is_stopped s'" "pl_closed s \<Longrightarrow> pl_closed s'"
  using assms
  by (induction i p s rule: client_exec.induct; auto simp: pool_is_stopped_def Let_def after_close_frame pool_return_def split: if_splits)+

lemma worker_inv_frame:
  assumes inv: "worker_inv s" and same: "pl_size s' = pl_size s" "pl_workers s' = pl_workers s"
    "pl_queue s' = pl_queue s" "pl_submitted s' = pl_submitted s" "pl_executed s' = pl_executed s"
    "pool_is_stopped s \<Longrightarrow> pool_is_stopped s'" "pl_closed s \<Longrightarrow> pl_closed s'"
  shows "worker_inv s'"
  using inv same unfolding worker_inv_def by auto

lemma submit_inv:
  assumes "client_inv s" and "worker_inv s"
  shows "client_inv (snd (submit c s))" "worker_inv (snd (submit c s))"
  using assms by (auto simp: submit_def client_inv_def worker_inv_def pool_is_stopped_def)

lemma call_client_inv:
  assumes inv: "client_inv s" and call: "pool_call s i op = Some s'"
  shows "client_inv s'"
proof -
  have pc: "pl_clients s i = P_Idle" using call by (auto simp: pool_call_def split: if_splits)
  have "s' = s\<lparr>pl_flags := pl_flags s, pl_clients := (pl_clients s)(i := P_Flag op), pl_active := insert i (pl_active s)\<rparr>"
    using call by (auto simp: pool_call_def split: if_splits)
  then show ?thesis using plain_move[OF inv, of i "P_Flag op" "pl_flags s" "insert i (pl_active s)"] pc by simp
qed

lemma call_frame:
  assumes "pool_call s i op = Some s'"
  shows "pl_size s' = pl_size s" "pl_workers s' = pl_workers s" "pl_queue s' = pl_queue s"
    "pl_submitted s' = pl_submitted s" "pl_executed s' = pl_executed s" "pl_flags s' = pl_flags s" "pl_closed s' = pl_closed s"
    "pl_alive s' = pl_alive s" "pl_join_done s' = pl_join_done s"
  using assms by (auto simp: pool_call_def split: if_splits)

text \<open>The destructor starts when no call is under way, so that no \<open>shutdown\<close> is pending.\<close>

lemma destroy_client_inv:
  assumes inv: "client_inv s" and call: "pool_call s i Op_destroy = Some s'" and none: "pl_active s = {}" and d: "pl_join_done s"
  shows "client_inv (s'\<lparr>pl_alive := False\<rparr>)"
proof -
  have "\<not> shutting (pl_clients s j)" for j using client_invD(2)[OF inv, of j] none by auto
  then have "\<not> shutting (pl_clients s' j)" for j using call by (auto simp: pool_call_def split: if_splits)
  then show ?thesis using call_client_inv[OF inv call] call_frame(9)[OF call] d unfolding client_inv_def by auto
qed

subsection \<open>All runs\<close>

definition pool_inv :: "'c pool \<Rightarrow> bool" where
  "pool_inv s \<longleftrightarrow> client_inv s \<and> worker_inv s"

lemma work_alive:
  assumes "client_inv s" and "w < pl_size s" and "pl_workers s w \<noteq> W_Exit"
  shows "pl_alive s"
  using client_invD(10,14,15)[OF assms(1)] assms(2,3) by blast

lemma pool_step_inv:
  assumes inv: "pool_inv s" and step: "careful_step e s = Some s'"
  shows "pool_inv s'"
proof (cases e)
  case (Pl_work w ch)
  then have w: "w < pl_size s" "work w ch (pl_workers s w) s = Some s'" using step by (auto split: if_splits)
  then have "pl_alive s" using work_alive[of s w] inv by (cases "pl_workers s w") (auto simp: pool_inv_def)
  then show ?thesis using work_client_inv[OF _ w] work_worker_inv[OF _ w(1) _ w(2)] inv by (simp add: pool_inv_def)
next
  case (Pl_submit c)
  then show ?thesis using step submit_inv inv by (auto simp: pool_inv_def split: if_splits)
next
  case (Pl_call i op)
  have call: "pool_inv t" if "pool_call s i op = Some t" for t
    using inv call_client_inv[OF _ that] worker_inv_frame[of s t] call_frame[OF that]
    by (simp add: pool_inv_def pool_is_stopped_def)
  show ?thesis
  proof (cases "op = Op_destroy")
    case True
    then obtain t where t: "pool_call s i op = Some t" "s' = t\<lparr>pl_alive := False\<rparr>" "pl_active s = {}" "pl_join_done s"
      using step Pl_call by (auto split: if_splits)
    then have "client_inv s'" using destroy_client_inv[of s i t] inv True by (simp add: pool_inv_def)
    moreover have "worker_inv s'" using call[OF t(1)] t(2) by (simp add: pool_inv_def worker_inv_def pool_is_stopped_def)
    ultimately show ?thesis by (simp add: pool_inv_def)
  next
    case False
    then show ?thesis using step Pl_call call by (cases op) (auto split: if_splits)
  qed
next
  case (Pl_go i)
  then have go: "client_exec i (pl_clients s i) s = Some s'" using step by (auto split: if_splits)
  show ?thesis using client_exec_inv[OF _ go] worker_inv_frame[OF _ client_exec_frame[OF go]] inv
    by (simp add: pool_inv_def)
qed

interpretation pool_sys: invariant_system careful_step "\<lambda>_. True" pool_inv
  by unfold_locales (rule pool_step_inv)

lemma work_size: "work w ch p s = Some s' \<Longrightarrow> pl_size s' = pl_size s"
  by (induction w ch p s rule: work.induct) (auto split: if_splits list.splits)

lemma careful_step_size: "careful_step e s = Some s' \<Longrightarrow> pl_size s' = pl_size s"
  by (induction e s rule: careful_step.induct)
    (auto simp: submit_def client_exec_frame pool_call_def dest: work_size split: if_splits)

interpretation pool_size: invariant_system careful_step "\<lambda>_. True" "\<lambda>s. pl_size s = n"
  by unfold_locales (simp add: careful_step_size)

lemma ctor_inv:
  assumes "thread_pool_ctor available n = Inr s"
  shows "pool_inv s" "pl_size s = n"
  using assms
  by (auto simp: thread_pool_ctor_def activate_def pool_base_def pool_inv_def client_inv_def worker_inv_def
      split: option.splits if_splits)

lemma reachable:
  assumes "thread_pool_ctor available n = Inr s0" and "run careful_step es s0 = Some s"
  shows "pool_inv s" "pl_size s = n"
  using pool_sys.run_inv[OF _ _ assms(2)] pool_size.run_inv[OF _ _ assms(2), of n] ctor_inv[OF assms(1)]
  by (simp_all add: list_all_iff)


text \<open>C4: two workers, three tasks, and a wait.\<close>

definition pool_program :: "nat pool_event list" where
  "pool_program =
     [Pl_submit 10, Pl_submit 20, Pl_submit 10, Pl_work 0 Normal, Pl_work 0 Normal, Pl_call 9 Op_wait, Pl_go 9, Pl_go 9,
      Pl_submit 30, Pl_work 1 Normal, Pl_work 1 Normal, Pl_work 0 Normal, Pl_work 0 Normal, Pl_work 0 Normal] @
     replicate 3 (Pl_work 1 Normal) @ replicate 3 (Pl_work 0 Normal) @ replicate 7 (Pl_go 9)"



subsection \<open>Shutting down\<close>

text \<open>
  C22: in a program that destroys the pool only after a wait has returned, \<open>shutdown\<close> is called
  at most once, and has been called when a stop or wait was made and all calls have returned; no
  thread is joined twice, nothing uses the derived object after its destruction, and after a wait
  all workers are gone.
\<close>

theorem thread_pool_shutdown:
  assumes "thread_pool_ctor available n = Inr s0" and "run careful_step es s0 = Some s"
  shows "\<not> pl_fault s \<and> pl_shutdowns s = (if pl_closed s then 1 else 0) \<and>
    (pl_active s = {} \<longrightarrow> (pl_closed s \<longleftrightarrow> pl_flags s \<noteq> 0)) \<and>
    (pl_join_done s \<longrightarrow> (\<forall>w<n. pl_workers s w = W_Exit))"
proof -
  note R = reachable[OF assms]
  have inv: "client_inv s" using R(1) by (simp add: pool_inv_def)
  note D = client_invD[OF inv]
  have "pl_closed s \<longleftrightarrow> pl_flags s \<noteq> 0" if "pl_active s = {}"
  proof -
    have "\<not> shutting (pl_clients s i)" for i using D(2)[of i] that by auto
    then show ?thesis using D(6,7) by blast
  qed
  moreover have "pl_workers s w = W_Exit" if "pl_join_done s" "w < n" for w
    using D(10)[OF that(1)] that(2) R(2) by (intro D(14)) simp
  ultimately show ?thesis using D(1,8) by blast
qed

text \<open>C22: the example, followed by the destruction of the pool.\<close>

lemma destroy_program_runs:
  "(case thread_pool_ctor None 2 of Inl e \<Rightarrow> False
    | Inr s0 \<Rightarrow>
        (case run careful_step (pool_program @ Pl_call 9 Op_destroy # replicate 5 (Pl_go 9)) s0 of None \<Rightarrow> False
         | Some s \<Rightarrow> pl_join_done s \<and> pl_clients s 9 = P_Idle \<and> \<not> pl_alive s))"
  by code_simp

theorem thread_pool_shutdown_witness:
  "\<exists>s0 s. thread_pool_ctor None 2 = Inr s0 \<and>
     run careful_step (pool_program @ Pl_call 9 Op_destroy # replicate 5 (Pl_go 9)) s0 = Some s \<and>
     \<not> pl_alive s \<and> \<not> pl_fault s \<and> (\<forall>w<2. pl_workers s w = W_Exit)"
proof -
  obtain s0 s where s: "thread_pool_ctor None 2 = Inr s0" "pl_join_done s" "\<not> pl_alive s"
      "run careful_step (pool_program @ Pl_call 9 Op_destroy # replicate 5 (Pl_go 9)) s0 = Some s"
    using destroy_program_runs by (auto split: sum.splits option.splits)
  then show ?thesis using thread_pool_shutdown[OF s(1,4)] by blast
qed

text \<open>
  C39: the destructor does not shut down a pool by itself.  If neither \<open>stop\<close> nor \<open>wait\<close> was
  called before, its \<open>stop\<close> calls \<open>shutdown\<close> when the derived object is gone, where the function
  is pure virtual.
\<close>

theorem thread_pool_dtor_fault:
  assumes "pl_alive s" and "\<not> pl_terminated s" and "pl_active s = {}" and "pl_clients s i = P_Idle" and "pl_flags s = 0"
  shows "\<exists>s'. run pool_step [Pl_call i Op_destroy, Pl_go i, Pl_go i] s = Some s' \<and> pl_fault s'"
  using assms by (simp add: pool_call_def Let_def)

text \<open>C39: a new pool.\<close>

theorem thread_pool_dtor_fault_witness:
  "\<exists>s'. run pool_step [Pl_call 9 Op_destroy, Pl_go 9, Pl_go 9] (pool_base\<lparr>pl_size := 2\<rparr> :: nat pool) = Some s' \<and> pl_fault s'"
  using thread_pool_dtor_fault[of "pool_base\<lparr>pl_size := 2\<rparr> :: nat pool" 9] by (simp add: pool_base_def)

subsection \<open>The workers finish\<close>










end
