(* ===== verification/Spec2Isabelle.thy ===== *)
theory Spec2Isabelle
  imports Evenk_Backoff Evenk_Spin_Lock Evenk_Ticket_Lock Evenk_Shared_Ticket_Lock
    Evenk_Bounded_Sequential Evenk_Synch_Queue_Live Evenk_Lock_Guard
    Evenk_Queue_Views Evenk_Task_Lifetime Evenk_Thread Evenk_Thread_Pool
begin

text \<open>
  \<^bold>\<open>Evenk\<close> is a header-only C++ library of concurrency primitives (\<^verbatim>\<open>src/evenk\<close>): back-off policies, spin
  locks and ticket locks, a lock and a condition variable on Linux futexes, a bounded ring queue and
  an unbounded queue under a lock, views and iterators of queues, tasks with small-object storage,
  threads with CPU affinity, and a thread pool.  This development models the headers and proves what
  their clients rely on.

  \<^bold>\<open>How programs are modelled.\<close>  Concurrent code is a deterministic function
  \<open>step :: 'e \<Rightarrow> 's \<Rightarrow> 's option\<close>.  An event names the thread that moves and the choices of the
  environment (which sleepers the kernel wakes, spurious wake-ups, whether user code throws); \<open>None\<close> means
  that the thread cannot move.  A position (\<open>..._pc\<close>) says where a thread is in its operation, and every
  atomic access, system call and access to user values is a step of its own, so \<open>run step es s\<close> over all
  lists of events gives every interleaving, for any number of threads, in the sequentially
  consistent order of the accesses.  Machine integers are words of their width.  Errors are
  values: \<open>'a res\<close> for the exceptions of \<^verbatim>\<open>basic.h\<close>, \<open>queue_op_status\<close> for queues, \<open>('x, 'h) eff\<close> for tasks, where
  undefined behaviour and termination by \<open>noexcept\<close> are values too.

  \<^bold>\<open>Theories.\<close>
  \<^item> \<open>Evenk_Prelude\<close>: runs, and the locales \<open>invariant_system\<close> (an invariant of the steps holds of runs),
    \<open>mutex_system\<close> (and gives mutual exclusion) and \<open>refined_system\<close> (a refinement of steps is one of
    runs), which the components interpret.
  \<^item> \<open>Evenk_Basic\<close> (\<^verbatim>\<open>basic.h\<close>): exceptions and aligned allocation; \<^verbatim>\<open>posix_memalign\<close> is a parameter.
  \<^item> \<open>Evenk_Backoff\<close> (\<^verbatim>\<open>backoff.h\<close>): all policies with their 32-bit counters; the schedules of pauses, the
    wrap-around of the exponential policy, the hand-over of the composite one.
  \<^item> \<open>Evenk_Spin_Lock\<close>, \<open>Evenk_Ticket_Lock\<close>, \<open>Evenk_Shared_Ticket_Lock\<close> (\<^verbatim>\<open>spinlock.h\<close>): mutual exclusion of
    the four locks; the ticket locks refine locks with unbounded counters for at most as many threads as the
    counters can tell apart, and serve in order; where the code leaves these bounds the failure is
    exhibited.
  \<^item> \<open>Evenk_Futex\<close> (\<^verbatim>\<open>futex.h\<close>) and \<open>Evenk_Futex_Synch\<close> (\<^verbatim>\<open>synch.h\<close>): the wrappers of the system call; \<open>futex_lock\<close>
    and \<open>futex_cond_var\<close> as one machine, because notifying all moves waiters from one to the
    other.  Mutual exclusion, no lost wake-up, no missed notification.
  \<^item> \<open>Evenk_Lock_Guard\<close> (\<^verbatim>\<open>synch.h\<close>): \<open>lock_guard\<close> over any type that meets the locale \<open>lockable\<close>,
    interpreted for the futex lock; the wrappers of POSIX mutexes and condition variables.
  \<^item> \<open>Evenk_Conqueue\<close>, \<open>Evenk_Queue_Access\<close>, \<open>Evenk_Queue_Views\<close> (\<^verbatim>\<open>conqueue.h\<close>): the interface of queues as a
    record of operations, the wrapper, the views and the iterators over a store of queues; the locale
    \<open>fifo_queue\<close> is what a queue promises to a thread that runs alone, \<open>synch_queue\<close> meets it, a
    wrapper keeps it, and copying through iterators is a round trip.
  \<^item> \<open>Evenk_Bounded_Slot\<close>, \<open>..._Queue\<close>, \<open>..._Tokens\<close>, \<open>Evenk_Ticket_Queue\<close>, \<open>..._Refinement\<close>, \<open>..._Theorems\<close>,
    \<open>..._Sequential\<close> (\<^verbatim>\<open>bounded_queue.h\<close>): the four slot classes behind the locale \<open>slot_ops\<close>; the ring; its
    refinement of a queue of unbounded tickets, from which order, exclusive access to slots and the
    behaviour after closing follow; calls in sequence give a bounded list.
  \<^item> \<open>Evenk_Synch_Queue\<close>, \<open>..._Safety\<close>, \<open>..._Live\<close> (\<^verbatim>\<open>synch_queue.h\<close>): the queue on top of the futex machine,
    linearizable with respect to \<open>fq_apply\<close>, without lost wake-ups.
  \<^item> \<open>Evenk_Task\<close>, \<open>Evenk_Task_Lifetime\<close> (\<^verbatim>\<open>task.h\<close>): the memory of tasks with the objects that live in it;
    programs of constructions, moves, calls and destructions refine boxes of targets, keep the types of
    the erased function pointers, and return every block.  The move assignment never returns.
  \<^item> \<open>Evenk_Thread\<close> (\<^verbatim>\<open>thread.h\<close>): moves of handles and the round trip of CPU affinity.
  \<^item> \<open>Evenk_Thread_Pool\<close> (\<^verbatim>\<open>thread_pool.h\<close>): workers, submissions, stop, wait and destruction; all accepted tasks
    are called once, shutdown happens once, the workers finish.  This is the logic of the pool over a
    queue that delivers what it pops.  \<open>synch_queue\<close> and \<open>bounded_queue\<close> pop by the move assignment of
    \<open>task\<close>, which never returns, so over them the workers of the code as it stands fail at the first task.

  \<^bold>\<open>Bounds and fuel.\<close>  \<open>task_assign\<close> counts the depth of its recursion; five levels are enough, since
  for five or more it is shown to end.  \<open>sq_finish\<close> runs a call of the queue to its end; ten steps suffice
  for every call that does not block.  \<open>copy_from\<close> is a partial function whose end is shown.  The
  refinement of the ring covers \<open>wait_push\<close>, \<open>wait_pop\<close> and one \<open>close\<close>: any number of steps and of
  wrap-arounds of the counters before the closing, and after it as many steps as the signed comparison of
  \<open>is_past_last\<close> allows (\<open>ring_usage\<close>).  \<open>try_push\<close> and \<open>try_pop\<close> are modelled, but \<open>try_push\<close> breaks the queue.

  \<^bold>\<open>Outside the model.\<close>  The kernel, the POSIX threads library, allocators, hardware counters and user
  callables are parameters with their documented behaviour as hypotheses.

  \<^bold>\<open>Not modelled.\<close>  Memory orders weaker than sequential consistency: the accesses interleave in one
  order, so races that only a weak memory model shows are not seen.  The time that the pauses,
  yields and sleeps of \<^verbatim>\<open>backoff.h\<close> take: the model records which of them run, not how long.  Aliases, traits and static assertions, which
  exist at compile time only, and \<open>non_copyable\<close>.  Starting and joining operating-system threads, which
  is \<open>std::thread\<close>; in the pool a thread exists from activation until it leaves its loop.
  \<open>std_synch\<close> and \<open>posix_synch\<close> as bases of the queue: the machine is that of \<open>futex_synch\<close>.  The
  disabled non-blocking pop of the ring.  The functions \<open>begin\<close> and \<open>cbegin\<close> of the queue views,
  which do not compile.
\<close>

section \<open>The pool and its queue\<close>


end
